(* ===== verification/Go_Prelude.thy ===== *)
theory Go_Prelude
  imports Main "HOL-Library.Word" "HOL-Library.AList" "HOL-Library.Char_ord" "HOL-Library.List_Lexorder"
begin

text \<open>
  Shared vocabulary of the development: the Go types the program is written with and the
  automation the component theories rest on.

  \<^item> \<open>u64\<close> is Go's \<^verbatim>\<open>uint64\<close>; \<open>max_u64\<close> is \<^verbatim>\<open>^uint64(0)\<close>.
  \<^item> A Go map is an association list whose keys are distinct (\<open>gomap_ok\<close>); reading is
    \<^term>\<open>map_of\<close>, assignment \<^term>\<open>AList.update\<close>, \<^verbatim>\<open>delete\<close> is \<^term>\<open>AList.delete\<close>,
    and a \<^verbatim>\<open>range\<close> loop is a recursion over the list.  The list order is one of the orders in
    which Go may visit the map.
  \<^item> A time.Time is an \<open>instant\<close>: nanoseconds since the zero time, so IsZero is \<open>= 0\<close>,
    Before is \<open><\<close> and Equal is \<open>=\<close>.
  \<^item> An \<^verbatim>\<open>(error, value)\<close> result is \<open>'e + 'a\<close>, with \<open>Inl\<close> for the error.
  \<^item> A string is the list of its bytes, so its length and order are Go's.

  The locales \<open>op_system\<close>, \<open>guarded_system\<close> and \<open>monotone_system\<close> are the contract every stateful component
  offers its clients: each operation keeps an invariant, respectively moves a measure upwards.
\<close>

section \<open>Machine integers\<close>

type_synonym u64 = "64 word"
type_synonym instant = int

definition max_u64 :: u64 where
  "max_u64 = - 1"

named_theorems u64_simps \<open>comparison with the successor and predecessor of a 64-bit value\<close>

lemma max_u64_ge [simp]: "x \<le> max_u64"
  by (simp add: max_u64_def)

lemma max_u64_le [simp]: "max_u64 \<le> x \<longleftrightarrow> x = max_u64"
  by (metis max_u64_ge order.antisym order.refl)

lemma unat_succ_u64: "e \<noteq> max_u64 \<Longrightarrow> unat (e + 1) = Suc (unat e)"
  unfolding max_u64_def by (metis Suc_eq_plus1 add.commute add_eq_0_iff unatSuc)

lemma less_u64_succ [u64_simps]: "e \<noteq> max_u64 \<Longrightarrow> (x < e + 1) = (x \<le> e)"
  by (simp add: unat_succ_u64 word_less_nat_alt word_le_nat_alt less_Suc_eq_le)

lemma u64_succ_le [u64_simps]: "e \<noteq> max_u64 \<Longrightarrow> (e + 1 \<le> x) = (e < x)"
  by (simp add: unat_succ_u64 word_less_nat_alt word_le_nat_alt Suc_le_eq)

lemma unat_pred_u64: "c < s \<Longrightarrow> unat (s - 1) = unat s - 1" for c s :: u64
  by (metis unat_minus_one word_gt_0 word_not_simps(1) order_le_less_trans word_zero_le not_less)

lemma le_u64_pred [u64_simps]: "c < s \<Longrightarrow> (x \<le> s - 1) = (x < s)" for c s x :: u64
  by (auto simp: unat_pred_u64 word_less_nat_alt word_le_nat_alt)

lemma u64_pred_less [u64_simps]: "c < s \<Longrightarrow> (s - 1 < x) = (s \<le> x)" for c s x :: u64
  by (auto simp: unat_pred_u64 word_less_nat_alt word_le_nat_alt)

lemma u64_pred_ge [u64_simps]: "c < s \<Longrightarrow> c \<le> s - 1" for c s :: u64
  by (simp add: le_u64_pred)

lemma u64_between:
  "a < x \<and> x < b \<longleftrightarrow> a < max_u64 \<and> a < b \<and> 1 < b - a \<and> a + 1 \<le> x \<and> x \<le> b - 1" for a b x :: u64
proof
  assume "a < x \<and> x < b"
  then have lt: "a < b" "a < x" "x < b" by auto
  then have "unat (b - a) = unat b - unat a"
    by (simp add: unat_sub order_less_imp_le)
  with lt have "1 < b - a"
    by (simp add: word_less_nat_alt)
  moreover have "a < max_u64"
    using lt by (meson max_u64_ge order_less_le_trans)
  ultimately show "a < max_u64 \<and> a < b \<and> 1 < b - a \<and> a + 1 \<le> x \<and> x \<le> b - 1"
    using lt by (auto simp: u64_simps)
qed (auto simp: u64_simps)

section \<open>Bytes and strings\<close>

definition is_digit :: "char \<Rightarrow> bool" where
  "is_digit c \<longleftrightarrow> CHR ''0'' \<le> c \<and> c \<le> CHR ''9''"

definition is_hex_lower :: "char \<Rightarrow> bool" where
  "is_hex_lower c \<longleftrightarrow> is_digit c \<or> (CHR ''a'' \<le> c \<and> c \<le> CHR ''f'')"

definition is_hex :: "char \<Rightarrow> bool" where
  "is_hex c \<longleftrightarrow> is_hex_lower c \<or> (CHR ''A'' \<le> c \<and> c \<le> CHR ''F'')"

definition has_prefix :: "string \<Rightarrow> string \<Rightarrow> bool" where
  "has_prefix p s \<longleftrightarrow> take (length p) s = p"

definition trim_prefix :: "string \<Rightarrow> string \<Rightarrow> string" where
  "trim_prefix p s = (if has_prefix p s then drop (length p) s else s)"

lemma has_prefix_append [simp]: "has_prefix p (p @ s)"
  by (simp add: has_prefix_def)

lemma trim_prefix_append [simp]: "trim_prefix p (p @ s) = s"
  by (simp add: trim_prefix_def)

text \<open>Decimal numerals, as \<^verbatim>\<open>strconv\<close> and \<^verbatim>\<open>%d\<close> write them and ParseUint reads them.\<close>

definition digit_char :: "nat \<Rightarrow> char" where
  "digit_char d = char_of (48 + d)"

definition digit_value :: "char \<Rightarrow> nat" where
  "digit_value c = of_char c - 48"

fun dec_nat :: "nat \<Rightarrow> string" where
  "dec_nat n = (if n < 10 then [digit_char n] else dec_nat (n div 10) @ [digit_char (n mod 10)])"

declare dec_nat.simps [simp del]

definition dec_value :: "string \<Rightarrow> nat" where
  "dec_value s = foldl (\<lambda>n c. 10 * n + digit_value c) 0 s"

definition parse_uint :: "nat \<Rightarrow> string \<Rightarrow> nat option" where
  "parse_uint bits s =
     (if s \<noteq> [] \<and> list_all is_digit s \<and> dec_value s < 2 ^ bits then Some (dec_value s) else None)"

definition parse_uint64 :: "string \<Rightarrow> u64 option" where
  "parse_uint64 s = map_option of_nat (parse_uint 64 s)"

lemma is_digit_digit_char [simp]: "d < 10 \<Longrightarrow> is_digit (digit_char d)"
  by (simp add: is_digit_def digit_char_def less_eq_char_def)

lemma digit_value_digit_char [simp]: "d < 10 \<Longrightarrow> digit_value (digit_char d) = d"
  by (simp add: digit_value_def digit_char_def)

lemma dec_nat_digits: "list_all is_digit (dec_nat n)"
  by (induction n rule: dec_nat.induct) (subst dec_nat.simps, auto)

lemma dec_nat_nonempty [simp]: "dec_nat n \<noteq> []"
  by (subst dec_nat.simps) simp

lemma dec_value_dec_nat [simp]: "dec_value (dec_nat n) = n"
proof (induction n rule: dec_nat.induct)
  case (1 n)
  then show ?case
    by (subst dec_nat.simps) (auto simp: dec_value_def)
qed

lemma parse_uint_dec_nat: "n < 2 ^ bits \<Longrightarrow> parse_uint bits (dec_nat n) = Some n"
  by (simp add: parse_uint_def dec_nat_digits)

lemma parse_uint64_unat [simp]: "parse_uint64 (dec_nat (unat x)) = Some x"
  using unsigned_less [of x, where ?'a = nat]
  by (simp add: parse_uint64_def parse_uint_dec_nat del: unsigned_less)

text \<open>
  The UTF-8 encodings of the runes Go's unicode.IsSpace accepts; strings.TrimSpace strips them
  from both ends.  UTF-8 is self-synchronising, so matching whole encodings is matching runes.
\<close>

definition space_encodings :: "string list" where
  "space_encodings =
     map (\<lambda>n. [char_of (n :: nat)]) [9, 10, 11, 12, 13, 32]
   @ map (map (char_of :: nat \<Rightarrow> char))
       ([[0xC2, 0x85], [0xC2, 0xA0], [0xE1, 0x9A, 0x80]]
        @ map (\<lambda>n. [0xE2, 0x80, n]) [0x80..<0x8B]
        @ [[0xE2, 0x80, 0xA8], [0xE2, 0x80, 0xA9], [0xE2, 0x80, 0xAF],
           [0xE2, 0x81, 0x9F], [0xE3, 0x80, 0x80]])"

function trim_left :: "string list \<Rightarrow> string \<Rightarrow> string" where
  "trim_left encs s =
     (case filter (\<lambda>e. e \<noteq> [] \<and> has_prefix e s) encs of
        [] \<Rightarrow> s
      | e # _ \<Rightarrow> trim_left encs (drop (length e) s))"
  by pat_completeness auto
termination
proof (relation "measure (\<lambda>(_, s). length s)", simp)
  fix encs s e es
  assume "filter (\<lambda>e. e \<noteq> [] \<and> has_prefix e s) encs = e # es"
  then have "e \<noteq> []" "has_prefix e s"
    by (auto simp: filter_eq_Cons_iff)
  then have "0 < length e" "length e \<le> length s"
    by (auto simp: has_prefix_def dest: arg_cong [of _ _ length])
  then have "length s - length e < length s"
    by linarith
  then show "((encs, drop (length e) s), encs, s) \<in> measure (\<lambda>(_, s). length s)"
    by simp
qed

declare trim_left.simps [simp del]

definition trim_space :: "string \<Rightarrow> string" where
  "trim_space s = rev (trim_left (map rev space_encodings) (rev (trim_left space_encodings s)))"

lemma trim_left_keep:
  assumes "list_all (\<lambda>e. e = [] \<or> hd e \<noteq> c) encs"
  shows "trim_left encs (c # s) = c # s"
proof -
  have "\<not> (e \<noteq> [] \<and> has_prefix e (c # s))" if "e \<in> set encs" for e
    using assms that by (cases e) (auto simp: has_prefix_def list_all_iff)
  then have "filter (\<lambda>e. e \<noteq> [] \<and> has_prefix e (c # s)) encs = []"
    by (simp add: filter_empty_conv)
  then show ?thesis
    by (subst trim_left.simps) simp
qed

lemma trim_left_stop: "e \<in> set encs \<Longrightarrow> e \<noteq> [] \<Longrightarrow> \<not> has_prefix e (trim_left encs s)"
proof (induction encs s rule: trim_left.induct)
  case (1 encs s)
  show ?case
  proof (cases "filter (\<lambda>e. e \<noteq> [] \<and> has_prefix e s) encs")
    case Nil
    then show ?thesis
      using 1(2,3) by (subst trim_left.simps) (auto simp: filter_empty_conv)
  next
    case (Cons d ds)
    then show ?thesis
      using 1 by (subst trim_left.simps) simp
  qed
qed

lemma trim_left_id: "(\<And>e. e \<in> set encs \<Longrightarrow> e \<noteq> [] \<Longrightarrow> \<not> has_prefix e s) \<Longrightarrow> trim_left encs s = s"
proof -
  assume "\<And>e. e \<in> set encs \<Longrightarrow> e \<noteq> [] \<Longrightarrow> \<not> has_prefix e s"
  then have "filter (\<lambda>e. e \<noteq> [] \<and> has_prefix e s) encs = []"
    by (auto simp: filter_empty_conv)
  then show ?thesis
    by (subst trim_left.simps) simp
qed

lemma trim_left_suffix: "\<exists>p. s = p @ trim_left encs s"
proof (induction encs s rule: trim_left.induct)
  case (1 encs s)
  show ?case
  proof (cases "filter (\<lambda>e. e \<noteq> [] \<and> has_prefix e s) encs")
    case Nil
    then show ?thesis
      by (subst trim_left.simps) simp
  next
    case (Cons d ds)
    then obtain p where p: "drop (length d) s = p @ trim_left encs (drop (length d) s)"
      using 1 by blast
    have "s = (take (length d) s @ p) @ trim_left encs (drop (length d) s)"
      using p by (metis append_assoc append_take_drop_id)
    then show ?thesis
      using Cons by (subst trim_left.simps) (simp only: list.case exI)
  qed
qed

lemma has_prefix_appendI: "has_prefix e w \<Longrightarrow> has_prefix e (w @ t)"
  unfolding has_prefix_def by (metis append_take_drop_id append_eq_append_conv2 append_eq_conv_conj append_assoc)

lemma trim_space_idem [simp]: "trim_space (trim_space s) = trim_space s"
proof -
  let ?R = "map rev space_encodings"
  define u where "u = trim_left space_encodings s"
  define w where "w = rev (trim_left ?R (rev u))"
  have w: "trim_space s = w"
    by (simp add: trim_space_def u_def w_def)
  obtain p where "rev u = p @ rev w"
    using trim_left_suffix [of "rev u" ?R] by (auto simp: w_def)
  then have u: "u = w @ rev p"
    by (metis rev_append rev_rev_ident)
  have "trim_left space_encodings w = w"
  proof (rule trim_left_id)
    fix e assume "e \<in> set space_encodings" "e \<noteq> []"
    then have "\<not> has_prefix e u"
      unfolding u_def by (rule trim_left_stop)
    then show "\<not> has_prefix e w"
      using has_prefix_appendI [of e w "rev p"] by (auto simp: u)
  qed
  moreover have "trim_left ?R (rev w) = rev w"
    by (rule trim_left_id) (simp add: w_def trim_left_stop)
  ultimately have "trim_space w = w"
    unfolding trim_space_def by simp
  then show ?thesis
    by (simp only: w)
qed

lemma trim_space_Nil [simp]: "trim_space [] = []"
proof -
  have "trim_left encs [] = []" for encs :: "string list"
    by (rule trim_left_id) (simp add: has_prefix_def)
  then show ?thesis
    by (simp add: trim_space_def)
qed

text \<open>Printable ASCII bytes start and end no space.\<close>

definition graphic :: "char \<Rightarrow> bool" where
  "graphic c \<longleftrightarrow> 33 \<le> (of_char c :: nat) \<and> (of_char c :: nat) < 127"

lemma space_not_graphic:
  assumes "graphic c"
  shows "list_all (\<lambda>e. e \<noteq> [] \<and> hd e \<noteq> c \<and> last e \<noteq> c) space_encodings"
proof -
  have ne: "char_of n \<noteq> c" if "n < 33 \<or> 127 \<le> n" "n < 256" for n :: nat
    using assms that by (auto simp: graphic_def)
  show ?thesis
    by (simp add: space_encodings_def upt_rec ne)
qed

lemma trim_space_graphic:
  assumes "s \<noteq> []" "graphic (hd s)" "graphic (last s)"
  shows "trim_space s = s"
proof -
  have l: "trim_left space_encodings s = s"
    using trim_left_keep [of "hd s" space_encodings "tl s"] space_not_graphic [OF assms(2)] assms(1)
    by (auto simp: list_all_iff)
  have "last s # tl (rev s) = rev s"
    using assms(1) by (metis hd_rev list.collapse rev_is_Nil_conv)
  then have "trim_left (map rev space_encodings) (rev s) = rev s"
    using trim_left_keep [of "last s" "map rev space_encodings" "tl (rev s)"] space_not_graphic [OF assms(3)] assms(1)
    by (auto simp: list_all_iff hd_rev)
  then show ?thesis
    by (simp add: trim_space_def l)
qed

text \<open>Identifiers: \<open>32\<close> to \<open>64\<close> hexadecimal digits, or a UUID with its dashes.\<close>

definition uuid_shape :: "string \<Rightarrow> bool" where
  "uuid_shape s \<longleftrightarrow> length s = 36 \<and>
     list_all (\<lambda>(i, c). if i \<in> set [8, 13, 18, 23] then c = CHR ''-'' else is_hex c)
       (zip [0..<36] s)"

definition opaque_id :: "string \<Rightarrow> bool" where
  "opaque_id s \<longleftrightarrow> (32 \<le> length s \<and> length s \<le> 64 \<and> list_all is_hex s) \<or> uuid_shape s"

definition hex32 :: "string \<Rightarrow> bool" where
  "hex32 s \<longleftrightarrow> length s = 32 \<and> list_all is_hex_lower s"

definition hex64 :: "string \<Rightarrow> bool" where
  "hex64 s \<longleftrightarrow> length s = 64 \<and> list_all is_hex_lower s"

lemma opaque_id_nonempty [simp]: "\<not> opaque_id []"
  by (simp add: opaque_id_def uuid_shape_def)

lemma hex32_nonempty [simp]: "\<not> hex32 []"
  by (simp add: hex32_def)

lemma is_hex_lower_is_hex: "is_hex_lower c \<Longrightarrow> is_hex c"
  by (simp add: is_hex_def)

lemma hex32_opaque: "hex32 s \<Longrightarrow> opaque_id s"
  by (auto simp: hex32_def opaque_id_def list_all_iff is_hex_lower_is_hex)

section \<open>Maps\<close>

type_synonym ('k, 'v) gomap = "('k \<times> 'v) list"

abbreviation gomap_ok :: "('k, 'v) gomap \<Rightarrow> bool" where
  "gomap_ok m \<equiv> distinct (map fst m)"

abbreviation has_key :: "('k, 'v) gomap \<Rightarrow> 'k \<Rightarrow> bool" where
  "has_key m k \<equiv> map_of m k \<noteq> None"

lemma gomap_ok_update [simp, intro]: "gomap_ok m \<Longrightarrow> gomap_ok (AList.update k v m)"
  by (rule distinct_update)

lemma gomap_ok_delete [simp, intro]: "gomap_ok m \<Longrightarrow> gomap_ok (AList.delete k m)"
  by (rule distinct_delete)

lemma map_of_update [simp]: "map_of (AList.update k v m) = (map_of m)(k \<mapsto> v)"
  by (rule update_conv')

lemma map_of_delete [simp]: "map_of (AList.delete k m) = (map_of m)(k := None)"
  by (rule delete_conv')

lemma in_gomap_iff: "gomap_ok m \<Longrightarrow> (k, v) \<in> set m \<longleftrightarrow> map_of m k = Some v"
  by simp

lemma list_all_gomap:
  "gomap_ok m \<Longrightarrow> list_all (\<lambda>(k, v). P k v) m \<longleftrightarrow> (\<forall>k v. map_of m k = Some v \<longrightarrow> P k v)"
  by (auto simp: list_all_iff)

lemma list_ex_gomap:
  "gomap_ok m \<Longrightarrow> list_ex (\<lambda>(k, v). P k v) m \<longleftrightarrow> (\<exists>k v. map_of m k = Some v \<and> P k v)"
  by (auto simp: list_ex_iff)

lemma length_update_new: "map_of m k = None \<Longrightarrow> length (AList.update k v m) = Suc (length m)"
  by (induction m) (auto split: if_splits)

lemma length_update_old: "map_of m k \<noteq> None \<Longrightarrow> length (AList.update k v m) = length m"
  by (induction m) (auto split: if_splits)

lemma length_update: "length (AList.update k v m) = (if map_of m k = None then Suc (length m) else length m)"
  using length_update_new length_update_old by metis

lemma delete_absent: "map_of m k = None \<Longrightarrow> AList.delete k m = m"
  by (induction m) (auto split: if_splits)

lemma length_delete_present:
  "gomap_ok m \<Longrightarrow> map_of m k = Some v \<Longrightarrow> Suc (length (AList.delete k m)) = length m"
proof (induction m)
  case (Cons p m)
  then show ?case
    by (cases p; cases "fst p = k") (auto simp: delete_absent map_of_eq_None_iff)
qed simp

lemma map_of_map_key: "map_of (map (\<lambda>(k, v). (k, f k v)) m) k = map_option (f k) (map_of m k)"
  by (induction m) auto

lemma update_new_key: "map_of m k = None \<Longrightarrow> AList.update k v m = m @ [(k, v)]"
  by (induction m) (auto split: if_splits)

lemma map_of_filter_gomap:
  "gomap_ok m \<Longrightarrow> map_of (filter (\<lambda>(k, v). P k v) m) k =
     (case map_of m k of None \<Rightarrow> None | Some v \<Rightarrow> if P k v then Some v else None)"
proof (induction m)
  case (Cons p m)
  obtain a v where p: "p = (a, v)" by (cases p)
  have "map_of m a = None"
    using Cons.prems by (simp add: p map_of_eq_None_iff)
  with Cons show ?case
    by (cases "a = k") (auto simp: p split: option.splits)
qed simp

text \<open>Lookups, not list membership, are the normal form from here on.\<close>

declare map_of_eq_Some_iff [simp del]

text \<open>Sums over the values of a map, the accounting the admission control needs.\<close>

definition gomap_sum :: "('v \<Rightarrow> int) \<Rightarrow> ('k, 'v) gomap \<Rightarrow> int" where
  "gomap_sum f m = sum_list (map (f \<circ> snd) m)"

lemma gomap_sum_Nil [simp]: "gomap_sum f [] = 0"
  and gomap_sum_Cons [simp]: "gomap_sum f ((k, v) # m) = f v + gomap_sum f m"
  by (simp_all add: gomap_sum_def)

lemma gomap_sum_update:
  "gomap_ok m \<Longrightarrow> gomap_sum f (AList.update k v m)
     = gomap_sum f m + f v - (case map_of m k of None \<Rightarrow> 0 | Some u \<Rightarrow> f u)"
proof (induction m)
  case (Cons p m)
  then show ?case by (cases p) (auto split: option.splits)
qed simp

lemma gomap_sum_delete:
  "gomap_ok m \<Longrightarrow> gomap_sum f (AList.delete k m)
     = gomap_sum f m - (case map_of m k of None \<Rightarrow> 0 | Some u \<Rightarrow> f u)"
proof (induction m)
  case (Cons p m)
  then show ?case
    by (cases p) (force simp: delete_absent map_of_eq_None_iff map_of_eq_Some_iff split: option.splits dest: map_of_SomeD)
qed simp

lemma gomap_sum_nonneg: "(\<And>k v. (k, v) \<in> set m \<Longrightarrow> 0 \<le> f v) \<Longrightarrow> 0 \<le> gomap_sum f m"
  by (induction m) force+

section \<open>Systems of operations\<close>

text \<open>
  A component with state offers operations \<open>apply_op s op\<close>; the outcome of the environment (a disk
  write that fails, a clock reading) is part of \<open>op\<close>.  What one operation keeps, every run keeps.
\<close>

locale op_system =
  fixes apply_op :: "'s \<Rightarrow> 'op \<Rightarrow> 's"
    and inv :: "'s \<Rightarrow> bool"
  assumes op_inv: "inv s \<Longrightarrow> inv (apply_op s p)"
begin

lemma run_inv: "inv s \<Longrightarrow> inv (foldl apply_op s ops)"
  by (induction ops arbitrary: s) (auto intro: op_inv)

end

text \<open>A system whose clients promise something about every operation in the state it is applied to.\<close>

fun guarded_run :: "('s \<Rightarrow> 'op \<Rightarrow> 's) \<Rightarrow> ('s \<Rightarrow> 'op \<Rightarrow> bool) \<Rightarrow> 's \<Rightarrow> 'op list \<Rightarrow> bool" where
  "guarded_run apply_op guard s [] \<longleftrightarrow> True"
| "guarded_run apply_op guard s (p # ops) \<longleftrightarrow> guard s p \<and> guarded_run apply_op guard (apply_op s p) ops"

lemma guarded_run_append [simp]:
  "guarded_run apply_op guard s (ops @ ops') \<longleftrightarrow>
     guarded_run apply_op guard s ops \<and> guarded_run apply_op guard (foldl apply_op s ops) ops'"
  by (induction ops arbitrary: s) auto

lemma guarded_run_static [simp]: "guarded_run apply_op (\<lambda>_. P) s ops \<longleftrightarrow> list_all P ops"
  by (induction ops arbitrary: s) auto

locale guarded_system =
  fixes apply_op :: "'s \<Rightarrow> 'op \<Rightarrow> 's"
    and inv :: "'s \<Rightarrow> bool"
    and guard :: "'s \<Rightarrow> 'op \<Rightarrow> bool"
  assumes op_inv: "inv s \<Longrightarrow> guard s p \<Longrightarrow> inv (apply_op s p)"
begin

lemma run_inv: "inv s \<Longrightarrow> guarded_run apply_op guard s ops \<Longrightarrow> inv (foldl apply_op s ops)"
  by (induction ops arbitrary: s) (auto intro: op_inv)

end

locale monotone_system = op_system apply_op inv
  for apply_op :: "'s \<Rightarrow> 'op \<Rightarrow> 's" and inv :: "'s \<Rightarrow> bool" +
  fixes level :: "'s \<Rightarrow> 'b::order"
  assumes op_level: "inv s \<Longrightarrow> level s \<le> level (apply_op s p)"
begin

lemma run_level: "inv s \<Longrightarrow> level s \<le> level (foldl apply_op s ops)"
proof (induction ops arbitrary: s)
  case (Cons p ops)
  have "level s \<le> level (apply_op s p)"
    using Cons.prems by (rule op_level)
  also have "\<dots> \<le> level (foldl apply_op (apply_op s p) ops)"
    using Cons.prems by (intro Cons.IH op_inv)
  finally show ?case by simp
qed simp

end

end
