(* ===== verification/Domain_Model.thy ===== *)
theory Domain_Model
  imports Complex_Main Go_Prelude
begin

text \<open>
  The archive's data model: the types of \<^verbatim>\<open>internal/domain/models.go\<close> (Recording, Track, Segment,
  Gap, \<dots>) and the media playlist types of \<^verbatim>\<open>internal/hls/parse.go\<close> that acquisition turns into
  them.  A Go pointer that may be nil is an \<open>option\<close>; a \<^verbatim>\<open>float64\<close> duration is the rational it
  denotes (every stored duration is finite).  The pointers of the \<^verbatim>\<open>Tracks\<close> map are values here:
  an operation that mutates a track through its pointer writes the track back into the map.
\<close>

section \<open>Archive documents\<close>

type_synonym float64 = rat

datatype recording_state = StateRecording | StateStopped | StateCompleted | StateInterrupted

record byte_range =
  br_length :: u64
  br_offset :: u64

record metadata_revision =
  mr_observed_at :: instant
  mr_source_updated_at :: "instant option"
  mr_title :: "string option"
  mr_description :: "string option"

datatype pending_sequence = PendingSequence (pend_epoch: u64) (pend_seq: u64)

datatype resource_reference =
  ResourceReference (res_type: string) (res_id: string) (res_parent: "resource_reference option")

record adapter_provenance =
  ap_id :: string
  ap_name :: string
  ap_version :: string
  ap_protocol_version :: int
  ap_fingerprint :: string

record segment =
  seg_id :: string
  seg_track_id :: string
  seg_sequence :: u64
  seg_source_epoch :: u64
  seg_discontinuity_sequence :: u64
  seg_archive_ordinal :: u64
  seg_source_uri :: string
  seg_duration :: float64
  seg_program_date_time :: "instant option"
  seg_init_segment_id :: string
  seg_byte_range :: "byte_range option"
  seg_discontinuity :: bool
  seg_storage_path :: string
  seg_payload_size :: int
  seg_sha256 :: string
  seg_is_init :: bool

record gap =
  gap_track_id :: string
  gap_source_epoch :: u64
  gap_from :: u64
  gap_to :: u64
  gap_detected_at :: instant
  gap_reason :: string

record manifest_snapshot =
  snap_track_id :: string
  snap_source_uri :: string
  snap_storage_path :: string
  snap_fetched_at :: instant
  snap_sha256 :: string
  snap_size :: int

record track =
  trk_id :: string
  trk_source_playlist_url :: string
  trk_bandwidth :: int
  trk_source_epoch :: u64
  trk_next_archive_ordinal :: u64
  trk_has_last_observed :: bool
  trk_last_observed :: u64
  trk_pending_sequences :: "u64 list"
  trk_pending_segments :: "pending_sequence list"
  trk_init_segments :: "segment list"
  trk_segments :: "segment list"

record recording =
  rec_format_version :: int
  rec_id :: string
  rec_title :: string
  rec_adapter_id :: string
  rec_adapter :: "adapter_provenance option"
  rec_resource :: "resource_reference option"
  rec_source_uri_classification :: string
  rec_source_url :: string
  rec_state :: recording_state
  rec_created_at :: instant
  rec_started_at :: instant
  rec_stopped_at :: "instant option"
  rec_tracks :: "(string, track) gomap"
  rec_gaps :: "gap list"
  rec_snapshots :: "manifest_snapshot list"
  rec_last_error :: string
  rec_metadata_timeline :: "metadata_revision list"
  rec_metadata_timeline_truncated :: bool

definition segment_count :: "recording \<Rightarrow> nat" where
  "segment_count r = sum_list (map (\<lambda>(_, t). length (trk_segments t)) (rec_tracks r))"

text \<open>
  The comparison function of the three \<^verbatim>\<open>sort.Slice\<close> calls over pending segments orders by
  epoch, then by sequence.
\<close>

instantiation pending_sequence :: linorder
begin

definition less_eq_pending_sequence :: "pending_sequence \<Rightarrow> pending_sequence \<Rightarrow> bool" where
  "less_eq_pending_sequence p q \<longleftrightarrow>
     (if pend_epoch p \<noteq> pend_epoch q then pend_epoch p < pend_epoch q else pend_seq p \<le> pend_seq q)"

definition less_pending_sequence :: "pending_sequence \<Rightarrow> pending_sequence \<Rightarrow> bool" where
  "less_pending_sequence p q \<longleftrightarrow>
     (if pend_epoch p \<noteq> pend_epoch q then pend_epoch p < pend_epoch q else pend_seq p < pend_seq q)"

instance
  by standard
     (auto simp: less_eq_pending_sequence_def less_pending_sequence_def pending_sequence.expand
           split: if_splits)

end

section \<open>Playlist entries\<close>

record media_map =
  map_uri :: string
  map_byte_range :: "byte_range option"

record media_segment =
  ms_sequence :: u64
  ms_discontinuity_sequence :: u64
  ms_uri :: string
  ms_duration :: float64
  ms_program_time :: "instant option"
  ms_init :: "media_map option"
  ms_byte_range :: "byte_range option"
  ms_discontinuity :: bool
  ms_gap :: bool

record media_playlist =
  mp_target_duration :: int
  mp_media_sequence :: u64
  mp_discontinuity_sequence :: u64
  mp_segments :: "media_segment list"
  mp_end_list :: bool

end
