(* ===== verification/Gap_Ledger.thy ===== *)
theory Gap_Ledger
  imports Domain_Model "HOL-Library.Multiset"
begin

text \<open>
  Gap accounting of \<^verbatim>\<open>internal/acquire/worker.go\<close>: how a recording's gap list is extended so
  that every sequence number the source announced is captured, pending or covered by exactly one
  gap.  The state is the recording's gap list \<open>rec_gaps\<close> and the pending lists of a track.

  The code reads the clock once for every gap it appends; the model takes one reading \<open>now\<close> per
  operation.  \<^verbatim>\<open>captured\<close> and \<^verbatim>\<open>protected\<close> are Go maps used as sets: here the list of their
  keys.  \<^verbatim>\<open>sort.Slice\<close> on the blocked intervals is not stable; \<open>fill_missing_tie_order\<close> shows the
  order of intervals with equal starts does not matter.
\<close>

section \<open>Captured sequences and gap cover\<close>

definition captured_sequence_set :: "track \<Rightarrow> u64 \<Rightarrow> u64 list" where
  "captured_sequence_set t epoch =
     remdups (map seg_sequence (filter (\<lambda>s. seg_source_epoch s = epoch) (trk_segments t)))"

definition gap_covers_epoch :: "gap list \<Rightarrow> string \<Rightarrow> u64 \<Rightarrow> u64 \<Rightarrow> bool" where
  "gap_covers_epoch gaps tid epoch seq \<longleftrightarrow>
     list_ex (\<lambda>g. gap_track_id g = tid \<and> gap_source_epoch g = epoch \<and>
                  gap_from g \<le> seq \<and> seq \<le> gap_to g) gaps"

definition gap_covers :: "gap list \<Rightarrow> string \<Rightarrow> u64 \<Rightarrow> bool" where
  "gap_covers gaps tid seq = gap_covers_epoch gaps tid 0 seq"

section \<open>addMissingRanges\<close>

text \<open>
  The sequences that need no gap: captured ones inside \<open>[from, to]\<close> and the gaps of the same
  track and epoch that meet the range, clipped to it.
\<close>

definition blocked_intervals ::
    "string \<Rightarrow> u64 \<Rightarrow> u64 \<Rightarrow> u64 \<Rightarrow> u64 list \<Rightarrow> gap list \<Rightarrow> (u64 \<times> u64) list" where
  "blocked_intervals tid epoch lo hi captured gaps =
     map (\<lambda>s. (s, s)) (filter (\<lambda>s. lo \<le> s \<and> s \<le> hi) captured)
   @ map (\<lambda>g. (if gap_from g < lo then lo else gap_from g,
               if hi < gap_to g then hi else gap_to g))
       (filter (\<lambda>g. \<not> (gap_track_id g \<noteq> tid \<or> gap_source_epoch g \<noteq> epoch \<or>
                       gap_to g < lo \<or> hi < gap_from g)) gaps)"

text \<open>The cursor loop over the sorted intervals; \<open>mk a b\<close> is the gap appended for \<open>[a, b]\<close>.\<close>

fun fill_missing ::
    "(u64 \<Rightarrow> u64 \<Rightarrow> gap) \<Rightarrow> u64 \<Rightarrow> u64 \<Rightarrow> (u64 \<times> u64) list \<Rightarrow> gap list \<Rightarrow> gap list" where
  "fill_missing mk hi cursor [] gaps =
     (if cursor \<le> hi then gaps @ [mk cursor hi] else gaps)"
| "fill_missing mk hi cursor ((start, stop) # rest) gaps =
     (if stop < cursor then fill_missing mk hi cursor rest gaps
      else
        let gaps' = (if cursor < start then gaps @ [mk cursor (start - 1)] else gaps) in
        if stop = max_u64 then gaps'
        else
          let cursor' = (if cursor \<le> stop then stop + 1 else cursor) in
          if hi < cursor' then gaps' else fill_missing mk hi cursor' rest gaps')"

definition missing_gap :: "instant \<Rightarrow> string \<Rightarrow> u64 \<Rightarrow> string \<Rightarrow> u64 \<Rightarrow> u64 \<Rightarrow> gap" where
  "missing_gap now tid epoch reason a b =
     \<lparr>gap_track_id = tid, gap_source_epoch = epoch, gap_from = a, gap_to = b,
      gap_detected_at = now, gap_reason = reason\<rparr>"

definition add_missing_ranges ::
    "instant \<Rightarrow> string \<Rightarrow> u64 \<Rightarrow> u64 \<Rightarrow> u64 \<Rightarrow> string \<Rightarrow> u64 list \<Rightarrow> gap list \<Rightarrow> gap list" where
  "add_missing_ranges now tid epoch lo hi reason captured gaps =
     (if hi < lo then gaps
      else fill_missing (missing_gap now tid epoch reason) hi lo
             (sort_key fst (blocked_intervals tid epoch lo hi captured gaps)) gaps)"

section \<open>What addMissingRanges covers\<close>

named_theorems gap_simps \<open>gap cover and the operations on gap lists\<close>

lemma gap_covers_append [gap_simps]:
  "gap_covers_epoch (gs @ hs) tid e x \<longleftrightarrow> gap_covers_epoch gs tid e x \<or> gap_covers_epoch hs tid e x"
  by (simp add: gap_covers_epoch_def)

lemma gap_covers_Nil [gap_simps]: "\<not> gap_covers_epoch [] tid e x"
  by (simp add: gap_covers_epoch_def)

lemma gap_covers_missing [gap_simps]:
  "gap_covers_epoch [missing_gap now tid e reason a b] tk ep x \<longleftrightarrow> tk = tid \<and> ep = e \<and> a \<le> x \<and> x \<le> b"
  by (auto simp: gap_covers_epoch_def missing_gap_def)

lemma blocked_intervals_mem:
  assumes "lo \<le> x" "x \<le> hi"
  shows "(\<exists>(s, e) \<in> set (blocked_intervals tid epoch lo hi captured gaps). s \<le> x \<and> x \<le> e)
     \<longleftrightarrow> x \<in> set captured \<or> gap_covers_epoch gaps tid epoch x"
proof -
  have clip: "(if gap_from g < lo then lo else gap_from g) \<le> x \<longleftrightarrow> gap_from g \<le> x"
    "x \<le> (if hi < gap_to g then hi else gap_to g) \<longleftrightarrow> x \<le> gap_to g" for g
    using assms by auto
  show ?thesis
    using assms unfolding blocked_intervals_def gap_covers_epoch_def list_ex_iff
    by (simp add: bex_Un clip) (auto simp: not_less intro: order.trans)
qed

lemma blocked_intervals_start:
  "lo \<le> hi \<Longrightarrow> (s, e) \<in> set (blocked_intervals tid epoch lo hi captured gaps) \<Longrightarrow> s \<le> hi"
  by (auto simp: blocked_intervals_def split: if_splits)

text \<open>One interval either ends the sweep or advances the cursor behind it.\<close>

lemma fill_missing_finish:
  "\<not> e < c \<Longrightarrow> e = max_u64 \<or> hi < e + 1 \<Longrightarrow>
     fill_missing mk hi c ((s, e) # rest) gs = (if c < s then gs @ [mk c (s - 1)] else gs)"
  by (auto simp: Let_def)

lemma fill_missing_advance:
  "\<not> e < c \<Longrightarrow> e \<noteq> max_u64 \<Longrightarrow> \<not> hi < e + 1 \<Longrightarrow>
     fill_missing mk hi c ((s, e) # rest) gs
       = fill_missing mk hi (e + 1) rest (if c < s then gs @ [mk c (s - 1)] else gs)"
  by (auto simp: Let_def)

lemma fill_missing_covers:
  assumes "sorted (map fst bl)" "\<forall>(s, e) \<in> set bl. s \<le> hi"
    and "mk = missing_gap now tid epoch reason"
  shows "gap_covers_epoch (fill_missing mk hi c bl gs) tk ep x \<longleftrightarrow>
     gap_covers_epoch gs tk ep x \<or>
     (tk = tid \<and> ep = epoch \<and> c \<le> x \<and> x \<le> hi \<and> (\<forall>(s, e) \<in> set bl. \<not> (s \<le> x \<and> x \<le> e)))"
  using assms
proof (induction mk hi c bl gs rule: fill_missing.induct)
  case (1 mk hi c gs)
  then show ?case by (auto simp: gap_simps)
next
  case (2 mk hi c s e rest gs)
  let ?gs = "if c < s then gs @ [mk c (s - 1)] else gs"
  have tail: "sorted (map fst rest)" "\<forall>(s', e') \<in> set rest. s' \<le> hi" "s \<le> hi"
    and above: "\<forall>(s', e') \<in> set rest. s \<le> s'"
    using "2.prems" by auto
  have here: "gap_covers_epoch ?gs tk ep x \<longleftrightarrow>
      gap_covers_epoch gs tk ep x \<or> (tk = tid \<and> ep = epoch \<and> c \<le> x \<and> x < s)"
    by (auto simp: gap_simps "2.prems"(3) u64_simps)
  show ?case
  proof (cases "e < c")
    case True
    then show ?thesis
      using "2.IH"(1) tail "2.prems"(3) by auto
  next
    case False
    have none_below: "x < s \<Longrightarrow> \<forall>(s', e') \<in> set rest. \<not> (s' \<le> x \<and> x \<le> e')"
      using above by fastforce
    show ?thesis
    proof (cases "e = max_u64 \<or> hi < e + 1")
      case True
      then have stop: "x \<le> hi \<Longrightarrow> x \<le> e"
        by (cases "e = max_u64") (auto simp: u64_simps)
      from True False have "fill_missing mk hi c ((s, e) # rest) gs = ?gs"
        by (intro fill_missing_finish) auto
      with here stop none_below \<open>s \<le> hi\<close> show ?thesis by auto
    next
      case inner: False
      have step: "fill_missing mk hi c ((s, e) # rest) gs = fill_missing mk hi (e + 1) rest ?gs"
        using False inner by (intro fill_missing_advance) auto
      have "gap_covers_epoch (fill_missing mk hi (e + 1) rest ?gs) tk ep x \<longleftrightarrow>
         gap_covers_epoch ?gs tk ep x \<or>
         (tk = tid \<and> ep = epoch \<and> e + 1 \<le> x \<and> x \<le> hi \<and> (\<forall>(s, e) \<in> set rest. \<not> (s \<le> x \<and> x \<le> e)))"
        using "2.IH"(2) [OF False refl _ refl, unfolded if_P [OF leI [OF False]]]
          inner tail(1,2) "2.prems"(3) by blast
      with here none_below False inner \<open>s \<le> hi\<close> show ?thesis
        unfolding step by (auto simp: u64_simps)
    qed
  qed
qed

lemma gap_covers_add_missing [gap_simps]:
  "gap_covers_epoch (add_missing_ranges now tid epoch lo hi reason captured gaps) tk ep x \<longleftrightarrow>
     gap_covers_epoch gaps tk ep x \<or>
     (tk = tid \<and> ep = epoch \<and> lo \<le> x \<and> x \<le> hi \<and> x \<notin> set captured)"
proof (cases "lo \<le> hi")
  case True
  let ?bl = "blocked_intervals tid epoch lo hi captured gaps"
  have start: "\<forall>(s, e) \<in> set (sort_key fst ?bl). s \<le> hi"
    using blocked_intervals_start [OF True] by auto
  have "gap_covers_epoch (add_missing_ranges now tid epoch lo hi reason captured gaps) tk ep x \<longleftrightarrow>
     gap_covers_epoch gaps tk ep x \<or>
     (tk = tid \<and> ep = epoch \<and> lo \<le> x \<and> x \<le> hi \<and> (\<forall>(s, e) \<in> set ?bl. \<not> (s \<le> x \<and> x \<le> e)))"
    using True fill_missing_covers [OF sorted_sort_key start refl] leD [OF True]
    by (simp add: add_missing_ranges_def)
  then show ?thesis
    using blocked_intervals_mem [of lo x hi tid epoch captured gaps] by blast
next
  case False
  then show ?thesis by (auto simp: add_missing_ranges_def)
qed

section \<open>Gaps never overlap\<close>

definition gap_overlap :: "gap \<Rightarrow> gap \<Rightarrow> bool" where
  "gap_overlap g h \<longleftrightarrow> gap_track_id g = gap_track_id h \<and> gap_source_epoch g = gap_source_epoch h \<and>
     gap_from g \<le> gap_to h \<and> gap_from h \<le> gap_to g"

definition gaps_wf :: "gap list \<Rightarrow> bool" where
  "gaps_wf gaps \<longleftrightarrow> list_all (\<lambda>g. gap_from g \<le> gap_to g) gaps \<and>
     sorted_wrt (\<lambda>g h. \<not> gap_overlap g h) gaps"

lemma gaps_wf_snoc:
  "gaps_wf (gs @ [missing_gap now tid epoch reason a b]) \<longleftrightarrow>
     gaps_wf gs \<and> a \<le> b \<and> (\<forall>x. a \<le> x \<and> x \<le> b \<longrightarrow> \<not> gap_covers_epoch gs tid epoch x)"
proof -
  have "gap_from g \<le> gap_to g \<Longrightarrow> a \<le> b \<Longrightarrow> gap_from g \<le> b \<and> a \<le> gap_to g \<longleftrightarrow>
     (\<exists>x. a \<le> x \<and> x \<le> b \<and> gap_from g \<le> x \<and> x \<le> gap_to g)" for g
    by (meson order.trans linorder_linear)
  then show ?thesis
    unfolding gaps_wf_def gap_covers_epoch_def gap_overlap_def list_ex_iff list_all_iff
    by (auto simp: sorted_wrt_append missing_gap_def)
qed

lemma fill_missing_wf:
  assumes "sorted (map fst bl)" "\<forall>(s, e) \<in> set bl. s \<le> hi \<and> s \<le> e"
    and "mk = missing_gap now tid epoch reason"
    and "gaps_wf gs" "c \<le> hi"
    and "\<forall>x. c \<le> x \<and> x \<le> hi \<and> gap_covers_epoch gs tid epoch x \<longrightarrow> (\<exists>(s, e) \<in> set bl. s \<le> x \<and> x \<le> e)"
  shows "gaps_wf (fill_missing mk hi c bl gs)"
  using assms
proof (induction mk hi c bl gs rule: fill_missing.induct)
  case (1 mk hi c gs)
  then show ?case by (simp add: gaps_wf_snoc)
next
  case (2 mk hi c s e rest gs)
  let ?gs = "if c < s then gs @ [mk c (s - 1)] else gs"
  have above: "\<forall>(s', e') \<in> set rest. s \<le> s'" and "s \<le> hi"
    using "2.prems"(1,2) by auto
  have free: "\<not> gap_covers_epoch gs tid epoch x" if "c \<le> x" "x < s" for x
  proof
    assume "gap_covers_epoch gs tid epoch x"
    moreover have "x \<le> hi"
      using \<open>x < s\<close> \<open>s \<le> hi\<close> by simp
    ultimately obtain s' e' where "(s', e') \<in> set ((s, e) # rest)" "s' \<le> x"
      using "2.prems"(6) \<open>c \<le> x\<close> by blast
    with above \<open>x < s\<close> show False by auto
  qed
  have wf: "gaps_wf ?gs"
    using "2.prems"(3,4) free by (auto simp: gaps_wf_snoc u64_simps)
  show ?case
  proof (cases "e < c")
    case True
    have "\<forall>x. c \<le> x \<and> x \<le> hi \<and> gap_covers_epoch gs tid epoch x \<longrightarrow> (\<exists>(s, e) \<in> set rest. s \<le> x \<and> x \<le> e)"
      using "2.prems"(6) True by auto
    then have "gaps_wf (fill_missing mk hi c rest gs)"
      using "2.IH"(1) [OF True] "2.prems"(1-5) by simp
    with True show ?thesis by simp
  next
    case ge: False
    show ?thesis
    proof (cases "e = max_u64 \<or> hi < e + 1")
      case True
      with wf show ?thesis by (simp only: fill_missing_finish [OF ge True])
    next
      case False
      then have "e \<noteq> max_u64" "c \<le> e" "\<not> hi < e + 1"
        using ge by auto
      have rest: "\<exists>(s, e) \<in> set rest. s \<le> x \<and> x \<le> e"
        if x: "e + 1 \<le> x" "x \<le> hi" and cov: "gap_covers_epoch ?gs tid epoch x" for x
      proof -
        have "e < x" using x(1) \<open>e \<noteq> max_u64\<close> by (simp add: u64_simps)
        moreover have "\<not> (c < s \<and> x \<le> s - 1)"
          using \<open>e < x\<close> "2.prems"(2) by (auto simp: u64_simps)
        ultimately have "gap_covers_epoch gs tid epoch x"
          using cov "2.prems"(3) by (auto simp: gap_simps split: if_splits)
        moreover have "c \<le> x"
          using \<open>e < x\<close> \<open>c \<le> e\<close> by simp
        ultimately show ?thesis
          using "2.prems"(6) x(2) \<open>e < x\<close> by auto
      qed
      have "gaps_wf (fill_missing mk hi (e + 1) rest ?gs)"
        using "2.IH"(2) [OF ge refl _ refl, unfolded if_P [OF leI [OF ge]]]
          "2.prems"(1-3) wf \<open>e \<noteq> max_u64\<close> \<open>\<not> hi < e + 1\<close> rest
        by (simp only: sorted_simps list.map not_less list.set ball_simps if_cancel) auto
      with fill_missing_advance [OF ge \<open>e \<noteq> max_u64\<close> \<open>\<not> hi < e + 1\<close>] show ?thesis by simp
    qed
  qed
qed

lemma blocked_intervals_wf:
  assumes "lo \<le> hi" "gaps_wf gaps" "(s, e) \<in> set (blocked_intervals tid epoch lo hi captured gaps)"
  shows "s \<le> e"
  using assms by (auto simp: blocked_intervals_def gaps_wf_def list_all_iff split: if_splits)

lemma gaps_wf_add_missing [gap_simps]:
  assumes "gaps_wf gaps"
  shows "gaps_wf (add_missing_ranges now tid epoch lo hi reason captured gaps)"
proof (cases "lo \<le> hi")
  case True
  let ?bl = "blocked_intervals tid epoch lo hi captured gaps"
  have "\<forall>(s, e) \<in> set (sort_key fst ?bl). s \<le> hi \<and> s \<le> e"
    using blocked_intervals_start [OF True] blocked_intervals_wf [OF True assms] by fastforce
  moreover have "\<forall>x. lo \<le> x \<and> x \<le> hi \<and> gap_covers_epoch gaps tid epoch x \<longrightarrow>
      (\<exists>(s, e) \<in> set (sort_key fst ?bl). s \<le> x \<and> x \<le> e)"
    using blocked_intervals_mem [of lo _ hi tid epoch captured gaps] by auto
  ultimately have "gaps_wf (fill_missing (missing_gap now tid epoch reason) hi lo (sort_key fst ?bl) gaps)"
    using assms True by (intro fill_missing_wf) (auto simp: sorted_sort_key)
  with leD [OF True] show ?thesis by (simp add: add_missing_ranges_def)
next
  case False
  with assms show ?thesis by (auto simp: add_missing_ranges_def)
qed

section \<open>The order of ties does not matter\<close>

text \<open>
  The blocked intervals reach the loop in an unspecified order among equal starts: Go visits the
  map of captured sequences in random order and \<^verbatim>\<open>sort.Slice\<close> is not stable.
\<close>

lemma fill_missing_absorb:
  assumes "s \<le> e" "s \<le> e'"
  shows "fill_missing mk hi c ((s, e) # (s, e') # r) gs = fill_missing mk hi c ((s, max e e') # r) gs"
proof (cases "e < c")
  case True
  then show ?thesis
    by (cases "e' < c") (auto simp: max_def)
next
  case ge: False
  then have max_ge: "\<not> max e e' < c"
    by auto
  show ?thesis
  proof (cases "e = max_u64 \<or> hi < e + 1")
    case True
    then have stop: "max e e' = max_u64 \<or> hi < max e e' + 1"
      by (cases "e = max_u64"; cases "max e e' = max_u64") (auto simp: u64_simps not_less max_def not_le)
    show ?thesis
      by (simp only: fill_missing_finish [OF ge True] fill_missing_finish [OF max_ge stop])
  next
    case False
    then have e: "e \<noteq> max_u64" "s < e + 1" "\<not> hi < e + 1"
      using assms(1) by (auto simp: u64_simps)
    note above = less_imp_not_less [OF e(2)]
    define gs' where "gs' = (if c < s then gs @ [mk c (s - 1)] else gs)"
    have "fill_missing mk hi c ((s, e) # (s, e') # r) gs = fill_missing mk hi (e + 1) ((s, e') # r) gs'"
      unfolding gs'_def using ge e(1,3) by (rule fill_missing_advance)
    also have "\<dots> = fill_missing mk hi c ((s, max e e') # r) gs"
    proof (cases "e' \<le> e")
      case True
      then have "e' < e + 1" "max e e' = e"
        using e(1) by (auto simp: u64_simps max_def)
      then show ?thesis
        using fill_missing_advance [OF ge e(1,3), of mk s r gs] by (simp add: gs'_def)
    next
      case False
      then have e': "\<not> e' < e + 1" "max e e' = e'" "\<not> e' < c"
        using e(1) ge by (auto simp: u64_simps max_def not_less not_le)
      show ?thesis
      proof (cases "e' = max_u64 \<or> hi < e' + 1")
        case True
        with fill_missing_finish [OF e'(1) True] fill_missing_finish [OF e'(3) True] above e'(2)
        show ?thesis by (simp add: gs'_def del: fill_missing.simps)
      next
        case False
        with fill_missing_advance [OF e'(1), of hi] fill_missing_advance [OF e'(3), of hi] above e'(2)
        show ?thesis by (simp add: gs'_def del: fill_missing.simps)
      qed
    qed
    finally show ?thesis .
  qed
qed

lemma fill_missing_swap:
  assumes "s \<le> e" "s \<le> e'"
  shows "fill_missing mk hi c ((s, e) # (s, e') # r) gs = fill_missing mk hi c ((s, e') # (s, e) # r) gs"
  using assms by (simp add: fill_missing_absorb max.commute del: fill_missing.simps)

lemma fill_missing_step_cong:
  assumes "\<And>c gs. fill_missing mk hi c r gs = fill_missing mk hi c r' gs"
  shows "fill_missing mk hi c (p # r) gs = fill_missing mk hi c (p # r') gs"
  using assms by (cases p) (simp add: Let_def)

lemma fill_missing_front:
  assumes "p \<in> set bl" "sorted (map fst bl)" "\<forall>(s, e) \<in> set bl. s \<le> e" "\<forall>q \<in> set bl. fst p \<le> fst q"
  shows "fill_missing mk hi c bl gs = fill_missing mk hi c (p # remove1 p bl) gs"
  using assms
proof (induction bl arbitrary: c gs)
  case (Cons q bl)
  show ?case
  proof (cases "q = p")
    case False
    with Cons.prems have p: "p \<in> set bl" and "fst q = fst p"
      by (auto intro: order.antisym)
    have "fill_missing mk hi c (q # bl) gs = fill_missing mk hi c (q # p # remove1 p bl) gs"
      using Cons.prems p by (intro fill_missing_step_cong Cons.IH) auto
    also have "\<dots> = fill_missing mk hi c (p # q # remove1 p bl) gs"
      using \<open>fst q = fst p\<close> Cons.prems(1,3)
      by (cases p; cases q) (auto intro!: fill_missing_swap simp del: fill_missing.simps)
    finally show ?thesis using False by simp
  qed simp
qed simp

lemma fill_missing_tie_order:
  assumes "mset bl = mset bl'" "sorted (map fst bl)" "sorted (map fst bl')" "\<forall>(s, e) \<in> set bl. s \<le> e"
  shows "fill_missing mk hi c bl gs = fill_missing mk hi c bl' gs"
  using assms
proof (induction bl arbitrary: bl' c gs)
  case (Cons p bl)
  have same: "set bl' = set (p # bl)"
    using Cons.prems(1) by (metis set_mset_mset)
  have "fill_missing mk hi c (p # bl) gs = fill_missing mk hi c (p # remove1 p bl') gs"
  proof (rule fill_missing_step_cong, rule Cons.IH)
    show "mset bl = mset (remove1 p bl')"
      using Cons.prems(1) by (metis add_mset_remove_trivial mset.simps(2) mset_remove1)
    show "sorted (map fst (remove1 p bl'))"
      using Cons.prems(3) by (rule sorted_map_remove1)
  qed (use Cons.prems in auto)
  also have "\<dots> = fill_missing mk hi c bl' gs"
    using Cons.prems same by (intro fill_missing_front [symmetric]) auto
  finally show ?case .
qed simp

section \<open>Properties\<close>

text \<open>C20: addMissingRanges adds cover for exactly the sequences of the requested range, track and epoch
  that are not captured: nothing captured is ever declared lost, nothing missing is left out, and no
  cover that existed before disappears.  This holds for every range, also ones that end at the
  largest \<^verbatim>\<open>uint64\<close>, and for every gap list the document may hold.\<close>

theorem add_missing_ranges_exact:
  "gap_covers_epoch (add_missing_ranges now tid epoch lo hi reason captured gaps) tk ep x \<longleftrightarrow>
     gap_covers_epoch gaps tk ep x \<or>
     (tk = tid \<and> ep = epoch \<and> lo \<le> x \<and> x \<le> hi \<and> x \<notin> set captured)"
  by (rule gap_covers_add_missing)

text \<open>C21: The gap list stays well formed: every gap is a nonempty range and no two gaps of the same
  track and epoch overlap, so each missing sequence is reported by exactly one gap.\<close>

theorem add_missing_ranges_disjoint:
  assumes "gaps_wf gaps"
  shows "gaps_wf (add_missing_ranges now tid epoch lo hi reason captured gaps)"
  using assms by (rule gaps_wf_add_missing)

theorem add_missing_ranges_disjoint_witness:
  "gaps_wf (add_missing_ranges 5 ''main'' 0 3 9 ''r'' [6] [missing_gap 1 ''main'' 0 ''old'' 2 4])"
  by (rule add_missing_ranges_disjoint) (simp add: gaps_wf_def missing_gap_def)

lemma mset_blocked_intervals:
  "mset captured = mset captured' \<Longrightarrow>
     mset (blocked_intervals tid epoch lo hi captured gaps) = mset (blocked_intervals tid epoch lo hi captured' gaps)"
  by (simp add: blocked_intervals_def)

text \<open>The result does not depend on the order in which Go visits the map of captured sequences,
  nor on how its unstable sort arranges intervals with equal starts.\<close>

theorem add_missing_ranges_map_order:
  assumes "gaps_wf gaps" "mset captured = mset captured'"
  shows "add_missing_ranges now tid epoch lo hi reason captured gaps =
         add_missing_ranges now tid epoch lo hi reason captured' gaps"
proof (cases "hi < lo")
  case False
  then have "\<forall>(s, e) \<in> set (sort_key fst (blocked_intervals tid epoch lo hi captured gaps)). s \<le> e"
    using blocked_intervals_wf [OF _ assms(1), of lo hi] by (auto simp: not_less)
  then have "fill_missing (missing_gap now tid epoch reason) hi lo
        (sort_key fst (blocked_intervals tid epoch lo hi captured gaps)) gaps =
      fill_missing (missing_gap now tid epoch reason) hi lo
        (sort_key fst (blocked_intervals tid epoch lo hi captured' gaps)) gaps"
    using mset_blocked_intervals [OF assms(2)] by (intro fill_missing_tie_order) (auto simp: sorted_sort_key)
  with False show ?thesis by (simp add: add_missing_ranges_def)
qed (simp add: add_missing_ranges_def)

theorem add_missing_ranges_map_order_witness:
  "add_missing_ranges 5 ''main'' 0 3 9 ''r'' [6, 4] [] = add_missing_ranges 5 ''main'' 0 3 9 ''r'' [4, 6] []"
  by (rule add_missing_ranges_map_order) (simp_all add: gaps_wf_def add_mset_commute)

end
