(* ===== verification/Pending_Ledger.thy ===== *)
theory Pending_Ledger
  imports Gap_Ledger
begin

text \<open>
  The pending lists of a track and the operations of \<^verbatim>\<open>internal/acquire/worker.go\<close> that move a
  sequence number between its three fates: captured, pending, covered by a gap.  An operation on the
  recording document is a function from the document to \<open>string + recording\<close>; the string is the
  error text.  The classification of acquisition failures that ends up in \<^verbatim>\<open>LastError\<close> is here too.
\<close>

section \<open>Failures\<close>

record fetch_error =
  fe_operation :: string
  fe_http_status :: int
  fe_retryable :: bool
  fe_url_classification :: string
  fe_status_response :: bool

definition new_fetch_error :: "string \<Rightarrow> int \<Rightarrow> bool \<Rightarrow> bool \<Rightarrow> fetch_error" where
  "new_fetch_error operation status retryable response =
     \<lparr>fe_operation = operation, fe_http_status = status, fe_retryable = retryable,
      fe_url_classification = operation, fe_status_response = response\<rparr>"

definition fetch_error_text :: "fetch_error option \<Rightarrow> string" where
  "fetch_error_text e =
     (case e of
        None \<Rightarrow> ''media request failed''
      | Some f \<Rightarrow>
          if fe_http_status f > 0
          then fe_operation f @ '' request failed (HTTP '' @ dec_nat (nat (fe_http_status f)) @ '')''
          else fe_operation f @ '' request failed'')"

definition refresh_status :: "fetch_error option \<Rightarrow> int" where
  "refresh_status e =
     (case e of None \<Rightarrow> 0 | Some f \<Rightarrow> if fe_status_response f then fe_http_status f else 0)"

definition is_retryable_status :: "int \<Rightarrow> bool" where
  "is_retryable_status status \<longleftrightarrow> status = 408 \<or> status = 425 \<or> status = 429 \<or> 500 \<le> status"

text \<open>
  The error values acquisition distinguishes with \<^verbatim>\<open>errors.Is\<close> and \<^verbatim>\<open>errors.As\<close>; a refresh trigger
  unwraps to the fetch error it carries.
\<close>

datatype acquire_failure =
    StorageCommit
  | Fetch fetch_error
  | RefreshTrigger u64 u64 fetch_error
  | Canceled
  | OtherFailure string

definition as_fetch_error :: "acquire_failure \<Rightarrow> fetch_error option" where
  "as_fetch_error err =
     (case err of Fetch f \<Rightarrow> Some f | RefreshTrigger _ _ f \<Rightarrow> Some f | _ \<Rightarrow> None)"

definition make_segment_refresh_trigger :: "u64 \<Rightarrow> u64 \<Rightarrow> acquire_failure \<Rightarrow> acquire_failure" where
  "make_segment_refresh_trigger epoch sequence err =
     (case as_fetch_error err of
        Some f \<Rightarrow> RefreshTrigger epoch sequence f
      | None \<Rightarrow> RefreshTrigger epoch sequence (new_fetch_error ''segment'' 0 False False))"

definition should_refresh :: "int list option \<Rightarrow> acquire_failure \<Rightarrow> bool" where
  "should_refresh on_http_status err =
     (case as_fetch_error err of
        None \<Rightarrow> False
      | Some f \<Rightarrow>
          if refresh_status (Some f) = 0 then False
          else (case on_http_status of
                  None \<Rightarrow> False
                | Some statuses \<Rightarrow> list_ex (\<lambda>status. status = refresh_status (Some f)) statuses))"

definition safe_failure_description :: "acquire_failure \<Rightarrow> string" where
  "safe_failure_description err =
     (if err = StorageCommit then ''recording storage commit failed''
      else case as_fetch_error err of
        Some f \<Rightarrow> fetch_error_text (Some f)
      | None \<Rightarrow> if err = Canceled then ''recording stopped'' else ''recording acquisition failed'')"

section \<open>Pending lists\<close>

definition remove_pending :: "pending_sequence list \<Rightarrow> u64 \<Rightarrow> u64 \<Rightarrow> pending_sequence list" where
  "remove_pending values epoch sequence =
     filter (\<lambda>v. pend_epoch v \<noteq> epoch \<or> pend_seq v \<noteq> sequence) values"

definition remove_sequence :: "u64 list \<Rightarrow> u64 \<Rightarrow> u64 list" where
  "remove_sequence values target = filter (\<lambda>v. v \<noteq> target) values"

definition main_track :: string where
  "main_track = ''main''"

definition missing_track :: string where
  "missing_track = ''main track is missing''"

text \<open>The in-place update of the main track: \<^verbatim>\<open>t := r.Tracks["main"]\<close>, then writes through \<open>t\<close>.\<close>

definition put_main :: "track \<Rightarrow> recording \<Rightarrow> recording" where
  "put_main t r = r\<lparr>rec_tracks := AList.update main_track t (rec_tracks r)\<rparr>"

definition mark_pending :: "u64 \<Rightarrow> u64 \<Rightarrow> acquire_failure \<Rightarrow> recording \<Rightarrow> string + recording" where
  "mark_pending epoch seq err r =
     (case map_of (rec_tracks r) main_track of
        None \<Rightarrow> Inl missing_track
      | Some t \<Rightarrow>
          if list_ex (\<lambda>p. pend_epoch p = epoch \<and> pend_seq p = seq) (trk_pending_segments t)
          then Inr (r\<lparr>rec_last_error := safe_failure_description err\<rparr>)
          else Inr (put_main
                 (t\<lparr>trk_pending_segments :=
                    sort (trk_pending_segments t @ [PendingSequence epoch seq])\<rparr>)
                 (r\<lparr>rec_last_error := safe_failure_description err\<rparr>)))"

definition mark_gap :: "instant \<Rightarrow> u64 \<Rightarrow> u64 \<Rightarrow> string \<Rightarrow> recording \<Rightarrow> string + recording" where
  "mark_gap now epoch sequence reason r =
     (case map_of (rec_tracks r) main_track of
        None \<Rightarrow> Inl missing_track
      | Some t \<Rightarrow>
          let captured = captured_sequence_set t epoch;
              gaps = add_missing_ranges now (trk_id t) epoch sequence sequence reason captured (rec_gaps r);
              t1 = t\<lparr>trk_pending_segments := remove_pending (trk_pending_segments t) epoch sequence\<rparr>;
              t2 = (if epoch = 0
                    then t1\<lparr>trk_pending_sequences := remove_sequence (trk_pending_sequences t1) sequence\<rparr>
                    else t1)
          in Inr (put_main t2 (r\<lparr>rec_gaps := gaps\<rparr>)))"

text \<open>The loop of markRemainingPending: append every announced, uncaptured, not yet pending entry.\<close>

fun add_remaining ::
    "u64 \<Rightarrow> u64 list \<Rightarrow> media_segment list \<Rightarrow> u64 list \<Rightarrow> pending_sequence list \<Rightarrow> pending_sequence list" where
  "add_remaining epoch captured [] pending acc = acc"
| "add_remaining epoch captured (source # rest) pending acc =
     (if ms_gap source \<or> ms_sequence source \<in> set captured \<or> ms_sequence source \<in> set pending
      then add_remaining epoch captured rest pending acc
      else add_remaining epoch captured rest (ms_sequence source # pending)
             (acc @ [PendingSequence epoch (ms_sequence source)]))"

definition mark_remaining_pending ::
    "u64 \<Rightarrow> media_segment list \<Rightarrow> acquire_failure \<Rightarrow> recording \<Rightarrow> string + recording" where
  "mark_remaining_pending epoch segments err r =
     (if segments = [] then Inr r
      else case map_of (rec_tracks r) main_track of
        None \<Rightarrow> Inl missing_track
      | Some t \<Rightarrow>
          let captured = captured_sequence_set t epoch;
              pending = map pend_seq (filter (\<lambda>p. pend_epoch p = epoch) (trk_pending_segments t));
              items = add_remaining epoch captured segments pending (trk_pending_segments t)
          in Inr (put_main (t\<lparr>trk_pending_segments := sort items\<rparr>)
                   (r\<lparr>rec_last_error := safe_failure_description err\<rparr>)))"

section \<open>Finalising pending entries\<close>

text \<open>
  \<open>mark_one seq gaps\<close> is the call \<^verbatim>\<open>addMissingRanges(r, t, epoch, seq, seq, reason, captured)\<close>.
\<close>

fun finalize_segments ::
    "(u64 \<Rightarrow> gap list \<Rightarrow> gap list) \<Rightarrow> u64 \<Rightarrow> u64 list \<Rightarrow> pending_sequence list \<Rightarrow> gap list
       \<Rightarrow> pending_sequence list \<times> gap list" where
  "finalize_segments mark_one epoch protected [] gaps = ([], gaps)"
| "finalize_segments mark_one epoch protected (item # rest) gaps =
     (if pend_epoch item \<noteq> epoch \<or> pend_seq item \<in> set protected
      then (let (remaining, gaps') = finalize_segments mark_one epoch protected rest gaps
            in (item # remaining, gaps'))
      else finalize_segments mark_one epoch protected rest (mark_one (pend_seq item) gaps))"

fun finalize_legacy ::
    "(u64 \<Rightarrow> gap list \<Rightarrow> gap list) \<Rightarrow> u64 list \<Rightarrow> u64 list \<Rightarrow> gap list \<Rightarrow> u64 list \<times> gap list" where
  "finalize_legacy mark_one protected [] gaps = ([], gaps)"
| "finalize_legacy mark_one protected (seq # rest) gaps =
     (if seq \<in> set protected
      then (let (legacy, gaps') = finalize_legacy mark_one protected rest gaps in (seq # legacy, gaps'))
      else finalize_legacy mark_one protected rest (mark_one seq gaps))"

definition finalize_pending_epoch_except ::
    "instant \<Rightarrow> u64 \<Rightarrow> string \<Rightarrow> u64 list \<Rightarrow> track \<times> gap list \<Rightarrow> track \<times> gap list" where
  "finalize_pending_epoch_except now epoch reason protected tg =
     (let t = fst tg;
          captured = captured_sequence_set t epoch;
          mark_one = (\<lambda>seq. add_missing_ranges now (trk_id t) epoch seq seq reason captured);
          (remaining, gaps) = finalize_segments mark_one epoch protected (trk_pending_segments t) (snd tg);
          t = t\<lparr>trk_pending_segments := remaining\<rparr>
      in if epoch = 0
         then (let (legacy, gaps) = finalize_legacy mark_one protected (trk_pending_sequences t) gaps
               in (t\<lparr>trk_pending_sequences := legacy\<rparr>, gaps))
         else (t, gaps))"

definition finalize_pending_epoch ::
    "instant \<Rightarrow> u64 \<Rightarrow> string \<Rightarrow> track \<times> gap list \<Rightarrow> track \<times> gap list" where
  "finalize_pending_epoch now epoch reason tg = finalize_pending_epoch_except now epoch reason [] tg"

definition pending_epochs :: "track \<Rightarrow> u64 list" where
  "pending_epochs t =
     sort (remdups (trk_source_epoch t # map pend_epoch (trk_pending_segments t)
                    @ (if trk_pending_sequences t \<noteq> [] then [0] else [])))"

definition finalize_track :: "instant \<Rightarrow> string \<Rightarrow> track \<times> gap list \<Rightarrow> track \<times> gap list" where
  "finalize_track now reason tg =
     fold (\<lambda>epoch. finalize_pending_epoch now epoch reason) (pending_epochs (fst tg)) tg"

fun finalize_tracks ::
    "instant \<Rightarrow> string \<Rightarrow> (string, track) gomap \<Rightarrow> gap list \<Rightarrow> (string, track) gomap \<times> gap list" where
  "finalize_tracks now reason [] gaps = ([], gaps)"
| "finalize_tracks now reason ((name, t) # rest) gaps =
     (let (t', gaps1) = finalize_track now reason (t, gaps);
          (rest', gaps2) = finalize_tracks now reason rest gaps1
      in ((name, t') # rest', gaps2))"

definition finalize_pending :: "instant \<Rightarrow> string \<Rightarrow> recording \<Rightarrow> recording" where
  "finalize_pending now reason r =
     (let (tracks, gaps) = finalize_tracks now reason (rec_tracks r) (rec_gaps r)
      in r\<lparr>rec_tracks := tracks, rec_gaps := gaps\<rparr>)"

section \<open>Marking single sequences\<close>

text \<open>
  The contract of \<^verbatim>\<open>addMissingRanges\<close> on a one-element range, which is all the loops over pending
  entries rely on.
\<close>

locale gap_marker =
  fixes mark :: "u64 \<Rightarrow> gap list \<Rightarrow> gap list"
    and covered :: "gap list \<Rightarrow> string \<Rightarrow> u64 \<Rightarrow> u64 \<Rightarrow> bool"
    and wf :: "gap list \<Rightarrow> bool"
    and tid :: string and epoch :: u64 and captured :: "u64 set"
  assumes covered_mark: "covered (mark s gaps) tk ep x \<longleftrightarrow>
      covered gaps tk ep x \<or> (tk = tid \<and> ep = epoch \<and> x = s \<and> s \<notin> captured)"
    and wf_mark: "wf gaps \<Longrightarrow> wf (mark s gaps)"
begin

lemma covered_fold: "covered (fold mark xs gaps) tk ep x \<longleftrightarrow>
    covered gaps tk ep x \<or> (tk = tid \<and> ep = epoch \<and> x \<in> set xs \<and> x \<notin> captured)"
  by (induction xs arbitrary: gaps) (auto simp: covered_mark)

lemma wf_fold: "wf gaps \<Longrightarrow> wf (fold mark xs gaps)"
  by (induction xs arbitrary: gaps) (auto simp: wf_mark)

lemma all_marked: "x \<in> set xs \<Longrightarrow> x \<in> captured \<or> covered (fold mark xs gaps) tid epoch x"
  by (auto simp: covered_fold)

end

interpretation seq_marker:
  gap_marker "\<lambda>seq. add_missing_ranges now tid epoch seq seq reason captured"
    gap_covers_epoch gaps_wf tid epoch "set captured"
  for now tid epoch reason captured
  by unfold_locales (auto simp: gap_simps)

section \<open>Closed forms of the loops\<close>

lemma finalize_segments_eq:
  "finalize_segments mark_one epoch protected items gaps =
     (filter (\<lambda>p. pend_epoch p \<noteq> epoch \<or> pend_seq p \<in> set protected) items,
      fold mark_one (map pend_seq
        (filter (\<lambda>p. \<not> (pend_epoch p \<noteq> epoch \<or> pend_seq p \<in> set protected)) items)) gaps)"
  by (induction items arbitrary: gaps) (auto split: prod.splits)

lemma finalize_legacy_eq:
  "finalize_legacy mark_one protected items gaps =
     (filter (\<lambda>s. s \<in> set protected) items,
      fold mark_one (filter (\<lambda>s. s \<notin> set protected) items) gaps)"
  by (induction items arbitrary: gaps) (auto split: prod.splits)

lemma captured_sequence_set_mem:
  "x \<in> set (captured_sequence_set t epoch) \<longleftrightarrow>
     (\<exists>s \<in> set (trk_segments t). seg_source_epoch s = epoch \<and> seg_sequence s = x)"
  by (auto simp: captured_sequence_set_def)

section \<open>No pending entry is lost\<close>

text \<open>
  \<open>accounted\<close>: a sequence of an epoch is captured by the track, still pending in it, or covered by
  a gap.  Losing media silently would be a step from an accounted sequence to an unaccounted one.
\<close>

definition is_pending :: "track \<Rightarrow> u64 \<Rightarrow> u64 \<Rightarrow> bool" where
  "is_pending t epoch seq \<longleftrightarrow>
     PendingSequence epoch seq \<in> set (trk_pending_segments t) \<or>
     (epoch = 0 \<and> seq \<in> set (trk_pending_sequences t))"

definition is_captured :: "track \<Rightarrow> u64 \<Rightarrow> u64 \<Rightarrow> bool" where
  "is_captured t epoch seq \<longleftrightarrow> seq \<in> set (captured_sequence_set t epoch)"

definition accounted :: "track \<times> gap list \<Rightarrow> u64 \<Rightarrow> u64 \<Rightarrow> bool" where
  "accounted tg epoch seq \<longleftrightarrow> is_captured (fst tg) epoch seq \<or> is_pending (fst tg) epoch seq \<or>
     gap_covers_epoch (snd tg) (trk_id (fst tg)) epoch seq"

lemma is_captured_cong: "trk_segments t' = trk_segments t \<Longrightarrow> is_captured t' = is_captured t"
  by (simp add: fun_eq_iff is_captured_def captured_sequence_set_def)

text \<open>What finalising one epoch does to segments, pending entries and gaps.\<close>

lemma finalize_epoch_fields:
  assumes "finalize_pending_epoch_except now epoch reason protected (t, gaps) = (t', gaps')"
  shows "trk_id t' = trk_id t" "trk_segments t' = trk_segments t"
    "trk_source_epoch t' = trk_source_epoch t"
    "trk_has_last_observed t' = trk_has_last_observed t" "trk_last_observed t' = trk_last_observed t"
    "trk_next_archive_ordinal t' = trk_next_archive_ordinal t"
    "is_pending t' ep seq \<longleftrightarrow> is_pending t ep seq \<and> (ep = epoch \<longrightarrow> seq \<in> set protected)"
  using assms
  by (auto simp: finalize_pending_epoch_except_def Let_def finalize_segments_eq finalize_legacy_eq
      is_pending_def split: if_splits prod.splits)

lemma pending_image:
  "x \<in> pend_seq ` {p \<in> set ps. pend_epoch p = e \<and> pend_seq p \<notin> P} \<longleftrightarrow> PendingSequence e x \<in> set ps \<and> x \<notin> P"
  by (auto simp: image_iff intro!: bexI [of _ "PendingSequence e x"])

lemma finalize_epoch_gaps_eq:
  assumes "finalize_pending_epoch_except now epoch reason protected (t, gaps) = (t', gaps')"
  obtains xs where
    "gaps' = fold (\<lambda>seq. add_missing_ranges now (trk_id t) epoch seq seq reason
                (captured_sequence_set t epoch)) xs gaps"
    "\<And>x. x \<in> set xs \<longleftrightarrow> is_pending t epoch x \<and> x \<notin> set protected"
proof -
  let ?ps = "map pend_seq (filter (\<lambda>p. \<not> (pend_epoch p \<noteq> epoch \<or> pend_seq p \<in> set protected))
                (trk_pending_segments t))"
  let ?qs = "if epoch = 0 then filter (\<lambda>s. s \<notin> set protected) (trk_pending_sequences t) else []"
  have "gaps' = fold (\<lambda>seq. add_missing_ranges now (trk_id t) epoch seq seq reason
                (captured_sequence_set t epoch)) (?ps @ ?qs) gaps"
    using assms
    by (auto simp: finalize_pending_epoch_except_def Let_def finalize_segments_eq finalize_legacy_eq
        split: if_splits prod.splits)
  moreover have "x \<in> set (?ps @ ?qs) \<longleftrightarrow> is_pending t epoch x \<and> x \<notin> set protected" for x
    using pending_image [of x "trk_pending_segments t" epoch "set protected"]
    by (auto simp: is_pending_def)
  ultimately show thesis by (rule that)
qed

lemma finalize_epoch_gaps:
  assumes "finalize_pending_epoch_except now epoch reason protected (t, gaps) = (t', gaps')"
  shows "gap_covers_epoch gaps' tk ep x \<longleftrightarrow> gap_covers_epoch gaps tk ep x \<or>
      (tk = trk_id t \<and> ep = epoch \<and> is_pending t epoch x \<and> x \<notin> set protected \<and> \<not> is_captured t epoch x)"
    and "gaps_wf gaps \<Longrightarrow> gaps_wf gaps'"
proof -
  obtain xs where xs: "gaps' = fold (\<lambda>seq. add_missing_ranges now (trk_id t) epoch seq seq reason
                (captured_sequence_set t epoch)) xs gaps"
    "\<And>x. x \<in> set xs \<longleftrightarrow> is_pending t epoch x \<and> x \<notin> set protected"
    using finalize_epoch_gaps_eq [OF assms] by blast
  show "gap_covers_epoch gaps' tk ep x \<longleftrightarrow> gap_covers_epoch gaps tk ep x \<or>
      (tk = trk_id t \<and> ep = epoch \<and> is_pending t epoch x \<and> x \<notin> set protected \<and> \<not> is_captured t epoch x)"
    unfolding xs(1) seq_marker.covered_fold xs(2) is_captured_def by auto
  show "gaps_wf gaps \<Longrightarrow> gaps_wf gaps'"
    unfolding xs(1) by (rule seq_marker.wf_fold)
qed

text \<open>One pass over an epoch keeps every sequence accounted for.\<close>

lemma finalize_epoch_accounted:
  "accounted tg ep x \<Longrightarrow> accounted (finalize_pending_epoch_except now epoch reason protected tg) ep x"
proof -
  obtain t gaps where tg: "tg = (t, gaps)" by (cases tg)
  obtain t' gaps' where step: "finalize_pending_epoch_except now epoch reason protected (t, gaps) = (t', gaps')"
    by fastforce
  note f = finalize_epoch_fields [OF step] finalize_epoch_gaps [OF step]
  assume "accounted tg ep x"
  then show ?thesis
    unfolding tg step accounted_def fst_conv snd_conv f is_captured_cong [OF f(2)] by auto
qed

text \<open>A run over several epochs.\<close>

lemma finalize_epochs:
  assumes "fold (\<lambda>epoch. finalize_pending_epoch now epoch reason) es (t, gaps) = (t', gaps')"
  shows "trk_id t' = trk_id t \<and> trk_segments t' = trk_segments t \<and>
      trk_next_archive_ordinal t' = trk_next_archive_ordinal t \<and>
      (is_pending t' ep x \<longleftrightarrow> is_pending t ep x \<and> ep \<notin> set es) \<and>
      (gap_covers_epoch gaps' tk ep x \<longleftrightarrow> gap_covers_epoch gaps tk ep x \<or>
         (tk = trk_id t \<and> ep \<in> set es \<and> is_pending t ep x \<and> \<not> is_captured t ep x)) \<and>
      (gaps_wf gaps \<longrightarrow> gaps_wf gaps')"
  using assms
proof (induction es arbitrary: t gaps)
  case (Cons e es)
  obtain t1 gaps1 where step: "finalize_pending_epoch_except now e reason [] (t, gaps) = (t1, gaps1)"
    by fastforce
  have "fold (\<lambda>epoch. finalize_pending_epoch now epoch reason) es (t1, gaps1) = (t', gaps')"
    using Cons.prems step by (simp add: finalize_pending_epoch_def [of now e])
  note IH = Cons.IH [OF this]
  show ?case
    using IH finalize_epoch_fields [OF step] finalize_epoch_gaps [OF step] is_captured_cong [of t1 t]
    by auto
qed simp

definition no_pending :: "track \<Rightarrow> bool" where
  "no_pending t \<longleftrightarrow> trk_pending_segments t = [] \<and> trk_pending_sequences t = []"

lemma no_pending_iff: "no_pending t \<longleftrightarrow> (\<forall>ep x. \<not> is_pending t ep x)"
proof
  assume none: "\<forall>ep x. \<not> is_pending t ep x"
  have "p \<notin> set (trk_pending_segments t)" for p
    using none by (cases p) (auto simp: is_pending_def)
  moreover have "x \<notin> set (trk_pending_sequences t)" for x
    using none by (auto simp: is_pending_def)
  ultimately show "no_pending t"
    unfolding no_pending_def by (metis equals0I set_empty)
qed (simp add: no_pending_def is_pending_def)

lemma pending_epochs_complete: "is_pending t ep x \<Longrightarrow> ep \<in> set (pending_epochs t)"
  by (auto simp: is_pending_def pending_epochs_def image_iff intro!: bexI [of _ "PendingSequence ep x"])

lemma finalize_track_spec:
  assumes "finalize_track now reason (t, gaps) = (t', gaps')"
  shows "trk_id t' = trk_id t" "trk_segments t' = trk_segments t" "no_pending t'"
    "trk_next_archive_ordinal t' = trk_next_archive_ordinal t"
    "gap_covers_epoch gaps' tk ep x \<longleftrightarrow> gap_covers_epoch gaps tk ep x \<or>
       (tk = trk_id t \<and> is_pending t ep x \<and> \<not> is_captured t ep x)"
    "gaps_wf gaps \<Longrightarrow> gaps_wf gaps'"
proof -
  note F = finalize_epochs [OF assms [unfolded finalize_track_def fst_conv]]
  show "trk_id t' = trk_id t" "trk_segments t' = trk_segments t" "gaps_wf gaps \<Longrightarrow> gaps_wf gaps'"
    "trk_next_archive_ordinal t' = trk_next_archive_ordinal t"
    using F by blast+
  show "no_pending t'"
    unfolding no_pending_iff using F pending_epochs_complete by blast
  show "gap_covers_epoch gaps' tk ep x \<longleftrightarrow> gap_covers_epoch gaps tk ep x \<or>
       (tk = trk_id t \<and> is_pending t ep x \<and> \<not> is_captured t ep x)"
    using F pending_epochs_complete by blast
qed

lemma finalize_tracks_spec:
  assumes "finalize_tracks now reason ts gaps = (ts', gaps')"
  shows "list_all2 (\<lambda>(n, t) (n', t'). n' = n \<and> trk_id t' = trk_id t \<and>
            trk_segments t' = trk_segments t \<and> trk_next_archive_ordinal t' = trk_next_archive_ordinal t \<and>
            no_pending t') ts ts' \<and>
     (gap_covers_epoch gaps' tk ep x \<longleftrightarrow> gap_covers_epoch gaps tk ep x \<or>
       (\<exists>(n, t) \<in> set ts. tk = trk_id t \<and> is_pending t ep x \<and> \<not> is_captured t ep x)) \<and>
     (gaps_wf gaps \<longrightarrow> gaps_wf gaps')"
  using assms
proof (induction ts arbitrary: gaps ts')
  case (Cons nt rest)
  obtain name t where nt: "nt = (name, t)"
    by fastforce
  obtain t1 gaps1 where step: "finalize_track now reason (t, gaps) = (t1, gaps1)"
    by fastforce
  obtain rest1 gaps2 where tail: "finalize_tracks now reason rest gaps1 = (rest1, gaps2)"
    by fastforce
  have eq: "ts' = (name, t1) # rest1" "gaps' = gaps2"
    using Cons.prems by (simp_all add: nt step tail)
  note F = finalize_track_spec [OF step] and IH = Cons.IH [OF tail [folded eq(2)]]
  show ?case
    unfolding nt eq(1) using IH F by auto
qed simp

section \<open>Marking on the recording\<close>

lemma map_of_put_main [simp]: "map_of (rec_tracks (put_main t r)) main_track = Some t"
  by (simp add: put_main_def)

lemma put_main_sel [simp]:
  "rec_gaps (put_main t r) = rec_gaps r" "rec_last_error (put_main t r) = rec_last_error r"
  "rec_state (put_main t r) = rec_state r"
  by (simp_all add: put_main_def)

lemma is_pending_remove:
  "is_pending (t\<lparr>trk_pending_segments := remove_pending (trk_pending_segments t) epoch sequence\<rparr>) ep x
     \<longleftrightarrow> (PendingSequence ep x \<in> set (trk_pending_segments t) \<and> \<not> (ep = epoch \<and> x = sequence)) \<or>
         (ep = 0 \<and> x \<in> set (trk_pending_sequences t))"
  by (auto simp: is_pending_def remove_pending_def)

lemma is_pending_simps [simp]:
  "is_pending (t\<lparr>trk_pending_segments := ps\<rparr>) ep x \<longleftrightarrow>
     PendingSequence ep x \<in> set ps \<or> (ep = 0 \<and> x \<in> set (trk_pending_sequences t))"
  "is_pending (t\<lparr>trk_pending_sequences := qs\<rparr>) ep x \<longleftrightarrow>
     PendingSequence ep x \<in> set (trk_pending_segments t) \<or> (ep = 0 \<and> x \<in> set qs)"
  by (simp_all add: is_pending_def)

lemma is_captured_update [simp]:
  "is_captured (t\<lparr>trk_pending_segments := ps\<rparr>) = is_captured t"
  "is_captured (t\<lparr>trk_pending_sequences := qs\<rparr>) = is_captured t"
  by (rule is_captured_cong, simp)+

definition unmark :: "u64 \<Rightarrow> u64 \<Rightarrow> track \<Rightarrow> track" where
  "unmark epoch sequence t =
     (let t1 = t\<lparr>trk_pending_segments := remove_pending (trk_pending_segments t) epoch sequence\<rparr>
      in if epoch = 0
         then t1\<lparr>trk_pending_sequences := remove_sequence (trk_pending_sequences t1) sequence\<rparr>
         else t1)"

lemma unmark_simps [simp]:
  "trk_id (unmark epoch sequence t) = trk_id t"
  "trk_segments (unmark epoch sequence t) = trk_segments t"
  "trk_next_archive_ordinal (unmark epoch sequence t) = trk_next_archive_ordinal t"
  "is_captured (unmark epoch sequence t) = is_captured t"
  by (simp_all add: unmark_def Let_def)

lemma is_pending_unmark [simp]:
  "is_pending (unmark epoch sequence t) ep x \<longleftrightarrow> is_pending t ep x \<and> \<not> (ep = epoch \<and> x = sequence)"
  by (auto simp: unmark_def Let_def is_pending_def remove_pending_def remove_sequence_def)

lemma mark_gap_eq:
  "map_of (rec_tracks r) main_track = Some t \<Longrightarrow>
     mark_gap now epoch sequence reason r =
       Inr (put_main (unmark epoch sequence t) (r\<lparr>rec_gaps :=
         add_missing_ranges now (trk_id t) epoch sequence sequence reason
           (captured_sequence_set t epoch) (rec_gaps r)\<rparr>))"
  by (simp add: mark_gap_def unmark_def Let_def)

lemma add_remaining_mem:
  "PendingSequence ep x \<in> set (add_remaining epoch captured segs pending acc) \<longleftrightarrow>
     PendingSequence ep x \<in> set acc \<or>
     (ep = epoch \<and> x \<notin> set captured \<and> x \<notin> set pending \<and>
        (\<exists>m \<in> set segs. \<not> ms_gap m \<and> ms_sequence m = x))"
  by (induction segs arbitrary: pending acc) auto

section \<open>Properties\<close>

lemma finalize_pending_fields:
  assumes "finalize_tracks now reason (rec_tracks r) (rec_gaps r) = (ts, gaps)"
  shows "rec_tracks (finalize_pending now reason r) = ts" "rec_gaps (finalize_pending now reason r) = gaps"
  using assms by (simp_all add: finalize_pending_def)

text \<open>C25: Finalising a recording empties every pending list, leaves all captured segments in place and
  turns exactly the sequences that were pending and not captured into gaps of their track and epoch;
  the gap list stays free of overlaps.\<close>

theorem finalize_pending_exact:
  assumes "gaps_wf (rec_gaps r)"
  shows "list_all2 (\<lambda>(n, t) (n', t'). n' = n \<and> trk_id t' = trk_id t \<and> trk_segments t' = trk_segments t \<and>
           trk_next_archive_ordinal t' = trk_next_archive_ordinal t \<and> no_pending t') (rec_tracks r) (rec_tracks (finalize_pending now reason r)) \<and>
    (gap_covers_epoch (rec_gaps (finalize_pending now reason r)) tk ep x \<longleftrightarrow>
       gap_covers_epoch (rec_gaps r) tk ep x \<or>
       (\<exists>(n, t) \<in> set (rec_tracks r). tk = trk_id t \<and> is_pending t ep x \<and> \<not> is_captured t ep x)) \<and>
    gaps_wf (rec_gaps (finalize_pending now reason r))"
proof -
  obtain ts gaps where run: "finalize_tracks now reason (rec_tracks r) (rec_gaps r) = (ts, gaps)"
    by fastforce
  show ?thesis
    unfolding finalize_pending_fields [OF run] using finalize_tracks_spec [OF run] assms by blast
qed

definition sample_track :: track where
  "sample_track = \<lparr>trk_id = ''main'', trk_source_playlist_url = [], trk_bandwidth = 0, trk_source_epoch = 1,
     trk_next_archive_ordinal = 0, trk_has_last_observed = True, trk_last_observed = 7,
     trk_pending_sequences = [3], trk_pending_segments = [PendingSequence 1 6], trk_init_segments = [],
     trk_segments = []\<rparr>"

definition sample_recording :: recording where
  "sample_recording = \<lparr>rec_format_version = 1, rec_id = ''r'', rec_title = [], rec_adapter_id = [],
     rec_adapter = None, rec_resource = None, rec_source_uri_classification = [], rec_source_url = [],
     rec_state = StateRecording, rec_created_at = 0, rec_started_at = 0, rec_stopped_at = None,
     rec_tracks = [(main_track, sample_track)], rec_gaps = [], rec_snapshots = [], rec_last_error = [],
     rec_metadata_timeline = [], rec_metadata_timeline_truncated = False\<rparr>"

lemma sample_recording_simps [simp]:
  "rec_tracks sample_recording = [(main_track, sample_track)]" "rec_gaps sample_recording = []"
  "map_of (rec_tracks sample_recording) main_track = Some sample_track"
  by (simp_all add: sample_recording_def)

theorem finalize_pending_exact_witness:
  "gap_covers_epoch (rec_gaps (finalize_pending 9 ''stop'' sample_recording)) ''main'' 1 6"
  using finalize_pending_exact [where r = sample_recording and now = 9 and reason = "''stop''" and tk = "''main''" and ep = 1 and x = 6]
  by (simp add: gaps_wf_def is_pending_def is_captured_def captured_sequence_set_def sample_track_def)

text \<open>Giving up on one segment settles it: the sequence is no longer pending, it is captured or
  covered by a gap, every other sequence keeps its fate, and the operation fails only when the
  document has no main track.\<close>

theorem mark_gap_settles:
  assumes "map_of (rec_tracks r) main_track = Some t" "gaps_wf (rec_gaps r)"
  shows "\<exists>r' t'. mark_gap now epoch sequence reason r = Inr r' \<and>
    map_of (rec_tracks r') main_track = Some t' \<and> trk_segments t' = trk_segments t \<and>
    (is_pending t' ep x \<longleftrightarrow> is_pending t ep x \<and> (ep, x) \<noteq> (epoch, sequence)) \<and>
    (gap_covers_epoch (rec_gaps r') (trk_id t) ep x \<longleftrightarrow> gap_covers_epoch (rec_gaps r) (trk_id t) ep x \<or>
       ((ep, x) = (epoch, sequence) \<and> \<not> is_captured t ep x)) \<and>
    gaps_wf (rec_gaps r')"
  unfolding mark_gap_eq [OF assms(1)] using assms(2)
  by (auto simp: gap_simps is_captured_def)

theorem mark_gap_settles_witness:
  "\<exists>r' t'. mark_gap 5 1 6 ''gone'' sample_recording = Inr r' \<and>
     map_of (rec_tracks r') main_track = Some t' \<and> \<not> is_pending t' 1 6 \<and>
     gap_covers_epoch (rec_gaps r') ''main'' 1 6"
  using mark_gap_settles [where r = sample_recording and t = sample_track and now = 5 and epoch = 1 and sequence = 6
      and reason = "''gone''" and ep = 1 and x = 6]
  by (auto simp: gaps_wf_def is_captured_def captured_sequence_set_def sample_track_def)

lemma mark_pending_eq:
  "map_of (rec_tracks r) main_track = Some t \<Longrightarrow>
     \<exists>r' t'. mark_pending epoch seq err r = Inr r' \<and> map_of (rec_tracks r') main_track = Some t' \<and>
       trk_segments t' = trk_segments t \<and> trk_id t' = trk_id t \<and> rec_gaps r' = rec_gaps r \<and>
       rec_last_error r' = safe_failure_description err \<and>
       (t' = t \<and> PendingSequence epoch seq \<in> set (trk_pending_segments t) \<or>
        t' = t\<lparr>trk_pending_segments := sort (trk_pending_segments t @ [PendingSequence epoch seq])\<rparr>)"
  by (auto simp: mark_pending_def list_ex_iff pending_sequence.expand)

lemma mark_remaining_eq:
  "map_of (rec_tracks r) main_track = Some t \<Longrightarrow> segs \<noteq> [] \<Longrightarrow>
     mark_remaining_pending epoch segs err r =
       Inr (put_main (t\<lparr>trk_pending_segments := sort (add_remaining epoch (captured_sequence_set t epoch) segs
               (map pend_seq (filter (\<lambda>p. pend_epoch p = epoch) (trk_pending_segments t)))
               (trk_pending_segments t))\<rparr>)
             (r\<lparr>rec_last_error := safe_failure_description err\<rparr>))"
  by (simp add: mark_remaining_pending_def Let_def)

lemma pending_of_epoch:
  "x \<in> set (map pend_seq (filter (\<lambda>p. pend_epoch p = epoch) ps)) \<longleftrightarrow> PendingSequence epoch x \<in> set ps"
  by (auto simp: image_iff intro!: bexI [of _ "PendingSequence epoch x"])

text \<open>When discovery is cut short, every segment the playlist still announces is accounted for:
  after marking the remainder a sequence is pending exactly when it was pending before or the
  playlist lists it, not as a gap, and it is not captured; the pending list is sorted by epoch and
  sequence.\<close>

theorem mark_remaining_pending_exact:
  assumes "map_of (rec_tracks r) main_track = Some t" "segs \<noteq> []"
  shows "\<exists>r' t'. mark_remaining_pending epoch segs err r = Inr r' \<and>
    map_of (rec_tracks r') main_track = Some t' \<and> sorted (trk_pending_segments t') \<and>
    (PendingSequence ep x \<in> set (trk_pending_segments t') \<longleftrightarrow>
       PendingSequence ep x \<in> set (trk_pending_segments t) \<or>
       (ep = epoch \<and> \<not> is_captured t ep x \<and> list_ex (\<lambda>m. \<not> ms_gap m \<and> ms_sequence m = x) segs))"
proof -
  have "PendingSequence ep x \<in> set (add_remaining epoch (captured_sequence_set t epoch) segs
               (map pend_seq (filter (\<lambda>p. pend_epoch p = epoch) (trk_pending_segments t)))
               (trk_pending_segments t)) \<longleftrightarrow>
       PendingSequence ep x \<in> set (trk_pending_segments t) \<or>
       (ep = epoch \<and> \<not> is_captured t ep x \<and> list_ex (\<lambda>m. \<not> ms_gap m \<and> ms_sequence m = x) segs)"
    unfolding add_remaining_mem pending_of_epoch by (auto simp: is_captured_def list_ex_iff)
  then show ?thesis
    unfolding mark_remaining_eq [OF assms] by auto
qed

definition sample_media :: "u64 \<Rightarrow> media_segment" where
  "sample_media s = \<lparr>ms_sequence = s, ms_discontinuity_sequence = 0, ms_uri = ''u'', ms_duration = 4,
     ms_program_time = None, ms_init = None, ms_byte_range = None, ms_discontinuity = False, ms_gap = False\<rparr>"

lemma sample_media_simps [simp]: "ms_sequence (sample_media s) = s" "\<not> ms_gap (sample_media s)"
  by (simp_all add: sample_media_def)

theorem mark_remaining_pending_exact_witness:
  "\<exists>r' t'. mark_remaining_pending 1 [sample_media 6, sample_media 8] Canceled sample_recording = Inr r' \<and>
     map_of (rec_tracks r') main_track = Some t' \<and> PendingSequence 1 8 \<in> set (trk_pending_segments t')"
  using mark_remaining_pending_exact [where r = sample_recording and t = sample_track
      and segs = "[sample_media 6, sample_media 8]" and epoch = 1 and err = Canceled and ep = 1 and x = 8]
  by (auto simp: is_captured_def captured_sequence_set_def sample_track_def)

end
