(* ===== verification/Playlist_Observer.thy ===== *)
theory Playlist_Observer
  imports Pending_Ledger
begin

text \<open>
  \<^verbatim>\<open>observePlaylistAtGeneration\<close> of \<^verbatim>\<open>internal/acquire/worker.go\<close>: what one fetched media playlist
  does to the recording document.  It decides whether the source restarted its numbering (a new
  epoch), turns sequences that can no longer be fetched into gaps, sweeps the pending list and moves
  the high-water mark.

  \<open>url_parse\<close> and \<open>to_lower\<close> stand for \<^verbatim>\<open>net/url.Parse\<close> and Unicode lower-casing; nothing is
  assumed about them.  \<open>protected\<close> maps an epoch to the sequences the scheduler still works on.
\<close>

section \<open>Resource identity of a media URI\<close>

record go_url =
  url_scheme :: string
  url_hostname :: string
  url_port :: string
  url_user :: "string option"
  url_escaped_path :: string

definition source_uri_identity ::
    "(string \<Rightarrow> go_url option) \<Rightarrow> (string \<Rightarrow> string) \<Rightarrow> string \<Rightarrow> string" where
  "source_uri_identity url_parse to_lower raw =
     (case url_parse raw of
        None \<Rightarrow> raw
      | Some u \<Rightarrow>
          if url_scheme u = [] \<or> url_hostname u = [] then raw
          else
            let scheme = to_lower (url_scheme u);
                host = to_lower (url_hostname u);
                port = (if (scheme = ''http'' \<and> url_port u = ''80'') \<or>
                           (scheme = ''https'' \<and> url_port u = ''443'') then [] else url_port u);
                host = (if CHR '':'' \<in> set host then ''['' @ host @ '']'' else host);
                host = (if port \<noteq> [] then host @ '':'' @ port else host);
                host = (case url_user u of None \<Rightarrow> host | Some user \<Rightarrow> user @ ''@'' @ host)
            in scheme @ ''://'' @ host @ url_escaped_path u)"

section \<open>Detecting a restarted source\<close>

definition sequence_bounds :: "media_segment \<Rightarrow> media_segment list \<Rightarrow> u64 \<times> u64" where
  "sequence_bounds first segments =
     foldl (\<lambda>(lo, hi) seg.
         (if ms_sequence seg < lo then ms_sequence seg else lo,
          if hi < ms_sequence seg then ms_sequence seg else hi))
       (ms_sequence first, ms_sequence first) segments"

definition latest_captured :: "track \<Rightarrow> media_segment \<Rightarrow> segment option" where
  "latest_captured t incoming =
     List.find (\<lambda>c. seg_source_epoch c = trk_source_epoch t \<and> seg_sequence c = ms_sequence incoming)
       (trk_segments t)"

definition identity_changed :: "(string \<Rightarrow> string) \<Rightarrow> segment \<Rightarrow> media_segment \<Rightarrow> bool" where
  "identity_changed identity latest incoming \<longleftrightarrow>
     seg_discontinuity_sequence latest \<noteq> ms_discontinuity_sequence incoming \<or>
     (seg_source_uri latest \<noteq> [] \<and> ms_uri incoming \<noteq> [] \<and>
        identity (seg_source_uri latest) \<noteq> identity (ms_uri incoming)) \<or>
     (case (seg_program_date_time latest, ms_program_time incoming) of
        (Some a, Some b) \<Rightarrow> a \<noteq> b | _ \<Rightarrow> False)"

definition sequence_reset :: "(string \<Rightarrow> string) \<Rightarrow> track \<Rightarrow> media_segment list \<Rightarrow> u64 \<Rightarrow> bool" where
  "sequence_reset identity t segments max_seq \<longleftrightarrow>
     (trk_has_last_observed t \<and> max_seq < trk_last_observed t) \<or>
     list_ex (\<lambda>incoming. case latest_captured t incoming of
         None \<Rightarrow> False | Some latest \<Rightarrow> identity_changed identity latest incoming) segments"

section \<open>Turning missing media into gaps\<close>

definition protected_of :: "(u64, u64 list) gomap \<Rightarrow> u64 \<Rightarrow> u64 list" where
  "protected_of protected epoch = (case map_of protected epoch of None \<Rightarrow> [] | Some s \<Rightarrow> s)"

text \<open>\<open>add lo hi reason\<close> is \<^verbatim>\<open>addMissingRanges(r, t, epoch, lo, hi, reason, captured)\<close>.\<close>

type_synonym add_range = "u64 \<Rightarrow> u64 \<Rightarrow> string \<Rightarrow> gap list \<Rightarrow> gap list"

definition mark_manifest_gaps :: "add_range \<Rightarrow> media_segment list \<Rightarrow> gap list \<Rightarrow> gap list" where
  "mark_manifest_gaps add segments gaps =
     fold (\<lambda>seg gaps. if ms_gap seg
             then add (ms_sequence seg) (ms_sequence seg) ''source manifest marked segment as a gap'' gaps
             else gaps) segments gaps"

definition mark_window_advance :: "add_range \<Rightarrow> track \<Rightarrow> u64 \<Rightarrow> gap list \<Rightarrow> gap list" where
  "mark_window_advance add t min_seq gaps =
     (if trk_has_last_observed t \<and> trk_last_observed t < max_u64 \<and> trk_last_observed t < min_seq \<and>
         1 < min_seq - trk_last_observed t
      then add (trk_last_observed t + 1) (min_seq - 1) ''sequence advanced past uncaptured media'' gaps
      else gaps)"

fun mark_skipped :: "add_range \<Rightarrow> media_segment list \<Rightarrow> gap list \<Rightarrow> gap list" where
  "mark_skipped add (a # b # rest) gaps =
     (let prev = ms_sequence a; nxt = ms_sequence b in
      mark_skipped add (b # rest)
        (if prev < max_u64 \<and> prev < nxt \<and> 1 < nxt - prev
         then add (prev + 1) (nxt - 1) ''sequence skipped in manifest'' gaps else gaps))"
| "mark_skipped add _ gaps = gaps"

text \<open>
  The two loops over pending entries; \<open>seq_of\<close> and \<open>mine\<close> tell them apart: the structured list holds
  entries of every epoch, the legacy list only those of epoch 0.
\<close>

fun sweep_pending ::
    "add_range \<Rightarrow> u64 list \<Rightarrow> u64 list \<Rightarrow> u64 list \<Rightarrow> u64 \<Rightarrow> ('a \<Rightarrow> bool) \<Rightarrow> ('a \<Rightarrow> u64) \<Rightarrow> 'a list
       \<Rightarrow> gap list \<Rightarrow> 'a list \<times> gap list" where
  "sweep_pending add captured prot present max_seq mine seq_of [] gaps = ([], gaps)"
| "sweep_pending add captured prot present max_seq mine seq_of (item # rest) gaps =
     (let seq = seq_of item;
          keep = (\<lambda>gaps. (let (kept, gaps') =
             sweep_pending add captured prot present max_seq mine seq_of rest gaps
           in (item # kept, gaps')));
          drop_it = (\<lambda>gaps. sweep_pending add captured prot present max_seq mine seq_of rest gaps)
      in if \<not> mine item then keep gaps
         else if seq \<in> set captured then (if seq \<in> set prot then keep gaps else drop_it gaps)
         else if seq \<notin> set present \<and> seq < max_seq
         then drop_it (add seq seq ''media left the live window after retries'' gaps)
         else keep gaps)"

section \<open>The observation\<close>

definition begin_epoch ::
    "instant \<Rightarrow> (u64, u64 list) gomap \<Rightarrow> track \<times> gap list \<Rightarrow> string + track \<times> gap list" where
  "begin_epoch now protected tg =
     (let epoch = trk_source_epoch (fst tg);
          tg' = finalize_pending_epoch_except now epoch
            ''source sequence reset before pending media was captured'' (protected_of protected epoch) tg
      in if trk_source_epoch (fst tg') = max_u64 then Inl ''source sequence epoch overflow''
         else Inr ((fst tg')\<lparr>trk_source_epoch := trk_source_epoch (fst tg') + 1,
                             trk_has_last_observed := False\<rparr>, snd tg'))"

definition observe_epoch ::
    "instant \<Rightarrow> (u64, u64 list) gomap \<Rightarrow> media_segment list \<Rightarrow> u64 \<Rightarrow> u64 \<Rightarrow> track \<times> gap list
       \<Rightarrow> track \<times> gap list" where
  "observe_epoch now protected segments min_seq max_seq tg =
     (let t = fst tg;
          epoch = trk_source_epoch t;
          prot = protected_of protected epoch;
          captured = remdups (captured_sequence_set t epoch @ prot);
          add = (\<lambda>lo hi reason. add_missing_ranges now (trk_id t) epoch lo hi reason captured);
          gaps = mark_skipped add segments
                   (mark_window_advance add t min_seq (mark_manifest_gaps add segments (snd tg)));
          present = map ms_sequence segments;
          (pending, gaps) = sweep_pending add captured prot present max_seq
             (\<lambda>p. pend_epoch p = epoch) pend_seq (trk_pending_segments t) gaps;
          (legacy, gaps) =
            (if epoch = 0
             then sweep_pending add captured prot present max_seq (\<lambda>_. True) id
                    (trk_pending_sequences t) gaps
             else (trk_pending_sequences t, gaps));
          last = (if \<not> trk_has_last_observed t \<or> trk_last_observed t < max_seq
                  then max_seq else trk_last_observed t)
      in (t\<lparr>trk_pending_segments := pending, trk_pending_sequences := legacy,
            trk_last_observed := last, trk_has_last_observed := True\<rparr>, gaps))"

definition observe_track ::
    "(string \<Rightarrow> string) \<Rightarrow> instant \<Rightarrow> (u64, u64 list) gomap \<Rightarrow> media_segment \<Rightarrow> media_segment list
       \<Rightarrow> track \<times> gap list \<Rightarrow> string + track \<times> gap list" where
  "observe_track identity now protected first rest tg =
     (let segments = first # rest;
          (min_seq, max_seq) = sequence_bounds first segments
      in case (if sequence_reset identity (fst tg) segments max_seq
               then begin_epoch now protected tg else Inr tg) of
           Inl e \<Rightarrow> Inl e
         | Inr tg' \<Rightarrow> Inr (observe_epoch now protected segments min_seq max_seq tg'))"

definition observe_recording ::
    "(string \<Rightarrow> string) \<Rightarrow> instant \<Rightarrow> (u64, u64 list) gomap \<Rightarrow> media_segment \<Rightarrow> media_segment list
       \<Rightarrow> recording \<Rightarrow> string + recording" where
  "observe_recording identity now protected first rest r =
     (case map_of (rec_tracks r) main_track of
        None \<Rightarrow> Inl missing_track
      | Some t \<Rightarrow>
          (case observe_track identity now protected first rest (t, rec_gaps r) of
             Inl e \<Rightarrow> Inl e
           | Inr (t', gaps) \<Rightarrow> Inr (put_main t' (r\<lparr>rec_gaps := gaps\<rparr>))))"

text \<open>
  The surrounding method.  The entry's mutex is released while the document is computed and saved,
  so whether the entry is still current is read three times; the second and third reading, the
  scheduler's queue and the disk are the environment's.
\<close>

record observer_entry =
  oe_deleted :: bool
  oe_generation :: u64
  oe_recording :: recording

record observer_env =
  env_async :: bool
  env_queue_ok :: bool
  env_save_ok :: bool
  env_current_before_save :: bool
  env_current_after_save :: bool

definition observe_playlist_at_generation ::
    "(string \<Rightarrow> string) \<Rightarrow> instant \<Rightarrow> (u64, u64 list) gomap \<Rightarrow> observer_env \<Rightarrow> media_playlist \<Rightarrow> u64
       \<Rightarrow> observer_entry \<Rightarrow> (string + bool) \<times> observer_entry" where
  "observe_playlist_at_generation identity now protected env playlist generation e =
     (case mp_segments playlist of
        [] \<Rightarrow> (Inr True, e)
      | first # rest \<Rightarrow>
          if oe_deleted e \<or> oe_generation e \<noteq> generation then (Inr False, e)
          else case observe_recording identity now protected first rest (oe_recording e) of
              Inl err \<Rightarrow> (Inl err, e)
            | Inr r \<Rightarrow>
                if \<not> env_current_before_save env then (Inr False, e)
                else if env_async env
                then (if env_queue_ok env then Inr True else Inl ''segment scheduler is closed'',
                      e\<lparr>oe_recording := r\<rparr>)
                else if \<not> env_save_ok env then (Inl ''recording metadata persistence failed'', e)
                else if \<not> env_current_after_save env then (Inr False, e)
                else (Inr True, e\<lparr>oe_recording := r\<rparr>))"

section \<open>Bounds and ascending playlists\<close>

lemma sequence_bounds_fold:
  assumes "foldl (\<lambda>(lo, hi) seg. (if ms_sequence seg < lo then ms_sequence seg else lo,
          if hi < ms_sequence seg then ms_sequence seg else hi)) (a, b) segs = (lo, hi)"
  shows "lo \<le> a \<and> b \<le> hi \<and> (\<forall>m \<in> set segs. lo \<le> ms_sequence m \<and> ms_sequence m \<le> hi) \<and>
    (lo = a \<or> lo \<in> ms_sequence ` set segs) \<and> (hi = b \<or> hi \<in> ms_sequence ` set segs)"
  using assms
proof (induction segs arbitrary: a b)
  case (Cons m segs)
  let ?a = "if ms_sequence m < a then ms_sequence m else a"
  let ?b = "if b < ms_sequence m then ms_sequence m else b"
  have "foldl (\<lambda>(lo, hi) seg. (if ms_sequence seg < lo then ms_sequence seg else lo,
          if hi < ms_sequence seg then ms_sequence seg else hi)) (?a, ?b) segs = (lo, hi)"
    using Cons.prems by simp
  note IH = Cons.IH [OF this]
  then show ?case by (auto split: if_splits)
qed auto

lemma sequence_bounds_spec:
  assumes "sequence_bounds first (first # rest) = (lo, hi)"
  shows "lo \<in> ms_sequence ` set (first # rest)" "hi \<in> ms_sequence ` set (first # rest)"
    "\<And>m. m \<in> set (first # rest) \<Longrightarrow> lo \<le> ms_sequence m \<and> ms_sequence m \<le> hi"
  using sequence_bounds_fold [OF assms [unfolded sequence_bounds_def]] by auto

section \<open>The contract of addMissingRanges\<close>

text \<open>The sweep in closed form: which entries stay, and which become gaps.\<close>

lemma sweep_kept: "fst (sweep_pending add cs prot present hi mine seq_of items gaps) =
    filter (\<lambda>i. \<not> mine i \<or> (if seq_of i \<in> set cs then seq_of i \<in> set prot
                       else seq_of i \<in> set present \<or> hi \<le> seq_of i)) items"
  by (induction items arbitrary: gaps) (auto simp: Let_def not_less case_prod_beta)

lemma sweep_gaps: "snd (sweep_pending add cs prot present hi mine seq_of items gaps) =
    fold (\<lambda>i. add (seq_of i) (seq_of i) ''media left the live window after retries'')
      (filter (\<lambda>i. mine i \<and> seq_of i \<notin> set cs \<and> seq_of i \<notin> set present \<and> seq_of i < hi) items) gaps"
  by (induction items arbitrary: gaps) (simp_all add: Let_def case_prod_beta)

locale range_marker =
  fixes add :: add_range
    and covered :: "gap list \<Rightarrow> string \<Rightarrow> u64 \<Rightarrow> u64 \<Rightarrow> bool"
    and wf :: "gap list \<Rightarrow> bool"
    and tid :: string and epoch :: u64 and captured :: "u64 set"
  assumes covered_add: "covered (add lo hi reason gaps) tk ep x \<longleftrightarrow>
      covered gaps tk ep x \<or> (tk = tid \<and> ep = epoch \<and> lo \<le> x \<and> x \<le> hi \<and> x \<notin> captured)"
    and wf_add: "wf gaps \<Longrightarrow> wf (add lo hi reason gaps)"
begin

lemma covered_manifest: "covered (mark_manifest_gaps add segs gaps) tk ep x \<longleftrightarrow>
    covered gaps tk ep x \<or> (tk = tid \<and> ep = epoch \<and> x \<notin> captured \<and>
      (\<exists>m \<in> set segs. ms_gap m \<and> ms_sequence m = x))"
  unfolding mark_manifest_gaps_def
  by (induction segs arbitrary: gaps) (auto simp: covered_add)

lemma wf_manifest: "wf gaps \<Longrightarrow> wf (mark_manifest_gaps add segs gaps)"
  unfolding mark_manifest_gaps_def by (induction segs arbitrary: gaps) (auto simp: wf_add)

lemma covered_window: "covered (mark_window_advance add t lo gaps) tk ep x \<longleftrightarrow>
    covered gaps tk ep x \<or> (tk = tid \<and> ep = epoch \<and> x \<notin> captured \<and>
      trk_has_last_observed t \<and> trk_last_observed t < x \<and> x < lo)"
  unfolding mark_window_advance_def
  by (auto simp: covered_add u64_between)

lemma wf_window: "wf gaps \<Longrightarrow> wf (mark_window_advance add t lo gaps)"
  by (auto simp: mark_window_advance_def wf_add)

lemma covered_skipped: "covered gaps tk ep x \<Longrightarrow> covered (mark_skipped add segs gaps) tk ep x"
  by (induction segs arbitrary: gaps rule: induct_list012) (auto simp: covered_add Let_def)

lemma covered_skipped_only: "covered (mark_skipped add segs gaps) tk ep x \<Longrightarrow>
    covered gaps tk ep x \<or> (tk = tid \<and> ep = epoch \<and> x \<notin> captured)"
proof (induction segs arbitrary: gaps rule: induct_list012)
  case (3 a b rest)
  let ?g = "if ms_sequence a < max_u64 \<and> ms_sequence a < ms_sequence b \<and> 1 < ms_sequence b - ms_sequence a
      then add (ms_sequence a + 1) (ms_sequence b - 1) ''sequence skipped in manifest'' gaps else gaps"
  have "covered (mark_skipped add (b # rest) ?g) tk ep x"
    using "3.prems" by (simp add: Let_def)
  from "3.IH"(2) [OF this] show ?case
    by (auto simp: covered_add split: if_splits)
qed auto

lemma covered_skipped_between:
  "sorted_wrt (<) (map ms_sequence (m # segs)) \<Longrightarrow> ms_sequence m < x \<Longrightarrow> x < b \<Longrightarrow>
   b \<in> ms_sequence ` set (m # segs) \<Longrightarrow> x \<notin> ms_sequence ` set segs \<Longrightarrow> x \<notin> captured \<Longrightarrow>
     covered (mark_skipped add (m # segs) gaps) tid epoch x"
proof (induction segs arbitrary: m gaps)
  case (Cons n segs)
  show ?case
  proof (cases "x < ms_sequence n")
    case True
    then have "ms_sequence m < max_u64" "ms_sequence m < ms_sequence n" "1 < ms_sequence n - ms_sequence m"
      using Cons.prems(2) u64_between [of "ms_sequence m" x "ms_sequence n"] by auto
    then show ?thesis
      using True Cons.prems(2,6) u64_between [of "ms_sequence m" x "ms_sequence n"]
      by (auto simp: Let_def covered_add intro: covered_skipped)
  next
    case False
    then have "ms_sequence n < x"
      using Cons.prems(5) by auto
    moreover have "b \<in> ms_sequence ` set (n # segs)"
      using Cons.prems(2-4) by auto
    ultimately show ?thesis
      using Cons.prems(1,3,5,6) by (auto simp: Let_def intro!: Cons.IH)
  qed
qed auto

lemma wf_skipped: "wf gaps \<Longrightarrow> wf (mark_skipped add segs gaps)"
  by (induction segs arbitrary: gaps rule: induct_list012) (auto simp: Let_def wf_add)

lemma covered_fold_add:
  "covered (fold (\<lambda>i. add (f i) (f i) (reason i)) items gaps) tk ep x \<longleftrightarrow>
     covered gaps tk ep x \<or> (tk = tid \<and> ep = epoch \<and> x \<notin> captured \<and> x \<in> f ` set items)"
  by (induction items arbitrary: gaps) (auto simp: covered_add)

lemma wf_fold_add: "wf gaps \<Longrightarrow> wf (fold (\<lambda>i. add (f i) (f i) (reason i)) items gaps)"
  by (induction items arbitrary: gaps) (auto simp: wf_add)

lemma covered_sweep:
  "covered (snd (sweep_pending add cs prot present hi mine seq_of items gaps)) tk ep x \<longleftrightarrow>
    covered gaps tk ep x \<or> (tk = tid \<and> ep = epoch \<and> x \<notin> captured \<and> x \<notin> set cs \<and> x \<notin> set present \<and>
       x < hi \<and> (\<exists>i \<in> set items. mine i \<and> seq_of i = x))"
  unfolding sweep_gaps covered_fold_add by auto

lemma wf_sweep: "wf gaps \<Longrightarrow> wf (snd (sweep_pending add cs prot present hi mine seq_of items gaps))"
  unfolding sweep_gaps by (rule wf_fold_add)

end

interpretation epoch_ranges:
  range_marker "\<lambda>lo hi reason. add_missing_ranges now tid epoch lo hi reason captured"
    gap_covers_epoch gaps_wf tid epoch "set captured"
  for now tid epoch captured
  by unfold_locales (auto simp: gap_simps)

section \<open>What one observation does\<close>

text \<open>The gap list after the observation, as a composition of the passes.\<close>

definition observed_gaps ::
    "add_range \<Rightarrow> u64 list \<Rightarrow> u64 list \<Rightarrow> media_segment list \<Rightarrow> u64 \<Rightarrow> u64 \<Rightarrow> track \<Rightarrow> gap list \<Rightarrow> gap list" where
  "observed_gaps add cs prot segments lo hi t gaps =
     (let present = map ms_sequence segments;
          g1 = mark_skipped add segments (mark_window_advance add t lo (mark_manifest_gaps add segments gaps));
          g2 = snd (sweep_pending add cs prot present hi (\<lambda>p. pend_epoch p = trk_source_epoch t) pend_seq
                      (trk_pending_segments t) g1)
      in if trk_source_epoch t = 0
         then snd (sweep_pending add cs prot present hi (\<lambda>_. True) id (trk_pending_sequences t) g2)
         else g2)"

context range_marker begin

lemma observed_mono: "covered gaps tk ep x \<Longrightarrow> covered (observed_gaps add cs prot segs lo hi t gaps) tk ep x"
  by (simp add: observed_gaps_def Let_def covered_sweep covered_skipped covered_window covered_manifest)

lemma observed_only: "covered (observed_gaps add cs prot segs lo hi t gaps) tk ep x \<Longrightarrow>
    covered gaps tk ep x \<or> (tk = tid \<and> ep = epoch \<and> x \<notin> captured)"
  by (auto simp: observed_gaps_def Let_def covered_sweep covered_window covered_manifest
      dest!: covered_skipped_only split: if_splits)

lemma observed_window:
  "trk_has_last_observed t \<Longrightarrow> trk_last_observed t < x \<Longrightarrow> x < lo \<Longrightarrow> x \<notin> captured \<Longrightarrow>
     covered (observed_gaps add cs prot segs lo hi t gaps) tid epoch x"
  by (simp add: observed_gaps_def Let_def covered_sweep covered_skipped covered_window)

lemma observed_manifest:
  "m \<in> set segs \<Longrightarrow> ms_gap m \<Longrightarrow> ms_sequence m \<notin> captured \<Longrightarrow>
     covered (observed_gaps add cs prot segs lo hi t gaps) tid epoch (ms_sequence m)"
  unfolding observed_gaps_def Let_def
  by (auto simp: covered_sweep covered_window covered_manifest intro!: covered_skipped)

lemma observed_between:
  "sorted_wrt (<) (map ms_sequence (m # segs)) \<Longrightarrow> ms_sequence m < x \<Longrightarrow> x < b \<Longrightarrow>
   b \<in> ms_sequence ` set (m # segs) \<Longrightarrow> x \<notin> ms_sequence ` set segs \<Longrightarrow> x \<notin> captured \<Longrightarrow>
     covered (observed_gaps add cs prot (m # segs) lo hi t gaps) tid epoch x"
  unfolding observed_gaps_def Let_def
  by (auto simp: covered_sweep intro!: covered_skipped_between)

lemma observed_pending:
  "is_pending t (trk_source_epoch t) x \<Longrightarrow> x \<notin> captured \<Longrightarrow> set cs = captured \<Longrightarrow>
   x \<notin> ms_sequence ` set segs \<Longrightarrow> x < hi \<Longrightarrow>
     covered (observed_gaps add cs prot segs lo hi t gaps) tid epoch x"
  by (force simp: observed_gaps_def Let_def covered_sweep is_pending_def)

lemma observed_wf: "wf gaps \<Longrightarrow> wf (observed_gaps add cs prot segs lo hi t gaps)"
  by (simp add: observed_gaps_def Let_def wf_sweep wf_skipped wf_window wf_manifest)

end

lemma observe_epoch_gaps:
  "snd (observe_epoch now protected segs lo hi (t, gaps)) =
     (let cs = remdups (captured_sequence_set t (trk_source_epoch t) @ protected_of protected (trk_source_epoch t))
      in observed_gaps (\<lambda>lo hi reason. add_missing_ranges now (trk_id t) (trk_source_epoch t) lo hi reason cs)
           cs (protected_of protected (trk_source_epoch t)) segs lo hi t gaps)"
  by (simp add: observe_epoch_def observed_gaps_def Let_def case_prod_beta)

definition stays_pending :: "track \<Rightarrow> u64 list \<Rightarrow> u64 set \<Rightarrow> u64 \<Rightarrow> u64 \<Rightarrow> bool" where
  "stays_pending t prot present hi x \<longleftrightarrow>
     x \<in> set prot \<or> (\<not> is_captured t (trk_source_epoch t) x \<and> (x \<in> present \<or> hi \<le> x))"

lemma observe_epoch_closed:
  "fst (observe_epoch now protected segs lo hi (t, gaps)) =
     (let stays = stays_pending t (protected_of protected (trk_source_epoch t)) (ms_sequence ` set segs) hi
      in t\<lparr>trk_pending_segments :=
             filter (\<lambda>p. pend_epoch p = trk_source_epoch t \<longrightarrow> stays (pend_seq p)) (trk_pending_segments t),
           trk_pending_sequences :=
             (if trk_source_epoch t = 0 then filter stays (trk_pending_sequences t) else trk_pending_sequences t),
           trk_last_observed := (if \<not> trk_has_last_observed t \<or> trk_last_observed t < hi then hi
                                 else trk_last_observed t),
           trk_has_last_observed := True\<rparr>)"
  unfolding observe_epoch_def Let_def fst_conv case_prod_beta if_distrib [of fst] sweep_kept
    stays_pending_def is_captured_def
  by (intro arg_cong2 [of _ _ _ _ "\<lambda>a b. t\<lparr>trk_pending_segments := a, trk_pending_sequences := b,
        trk_last_observed := _, trk_has_last_observed := True\<rparr>"])
     (auto intro!: filter_cong)

lemma observe_epoch_track:
  assumes "fst (observe_epoch now protected segs lo hi (t, gaps)) = t'"
  shows "trk_id t' = trk_id t" "trk_segments t' = trk_segments t" "trk_source_epoch t' = trk_source_epoch t"
    "trk_next_archive_ordinal t' = trk_next_archive_ordinal t" "trk_has_last_observed t'"
    "trk_last_observed t' =
       (if \<not> trk_has_last_observed t \<or> trk_last_observed t < hi then hi else trk_last_observed t)"
    "is_pending t' ep x \<longleftrightarrow> is_pending t ep x \<and> (ep = trk_source_epoch t \<longrightarrow>
       stays_pending t (protected_of protected (trk_source_epoch t)) (ms_sequence ` set segs) hi x)"
  unfolding assms [symmetric] observe_epoch_closed Let_def
  by (auto simp: is_pending_def)

lemma begin_epoch_spec:
  assumes "begin_epoch now protected (t, gaps) = Inr (t1, gaps1)"
  shows "trk_id t1 = trk_id t" "trk_segments t1 = trk_segments t"
    "trk_source_epoch t1 = trk_source_epoch t + 1" "trk_source_epoch t \<noteq> max_u64"
    "\<not> trk_has_last_observed t1"
    "is_pending t1 ep x \<longleftrightarrow> is_pending t ep x \<and>
       (ep = trk_source_epoch t \<longrightarrow> x \<in> set (protected_of protected (trk_source_epoch t)))"
    "gap_covers_epoch gaps1 tk ep x \<longleftrightarrow> gap_covers_epoch gaps tk ep x \<or>
      (tk = trk_id t \<and> ep = trk_source_epoch t \<and> is_pending t ep x \<and>
       x \<notin> set (protected_of protected ep) \<and> \<not> is_captured t ep x)"
    "gaps_wf gaps \<Longrightarrow> gaps_wf gaps1"
proof -
  obtain t0 gaps0 where step0: "finalize_pending_epoch_except now (trk_source_epoch t)
      ''source sequence reset before pending media was captured''
      (protected_of protected (trk_source_epoch t)) (t, gaps) = (t0, gaps0)"
    by fastforce
  then have "gaps0 = gaps1" and t1: "t1 = t0\<lparr>trk_source_epoch := trk_source_epoch t0 + 1, trk_has_last_observed := False\<rparr>"
    and max: "trk_source_epoch t0 \<noteq> max_u64"
    using assms by (simp_all add: begin_epoch_def Let_def split: if_splits)
  note step = step0 [unfolded \<open>gaps0 = gaps1\<close>]
  note F = finalize_epoch_fields [OF step] finalize_epoch_gaps [OF step]
  show "trk_id t1 = trk_id t" "trk_segments t1 = trk_segments t"
    "trk_source_epoch t1 = trk_source_epoch t + 1" "trk_source_epoch t \<noteq> max_u64"
    "\<not> trk_has_last_observed t1"
    using F(1-3) max by (simp_all add: t1)
  have "is_pending t1 ep x = is_pending t0 ep x"
    by (simp add: t1 is_pending_def)
  then show "is_pending t1 ep x \<longleftrightarrow> is_pending t ep x \<and>
       (ep = trk_source_epoch t \<longrightarrow> x \<in> set (protected_of protected (trk_source_epoch t)))"
    using F(7) by simp
  show "gap_covers_epoch gaps1 tk ep x \<longleftrightarrow> gap_covers_epoch gaps tk ep x \<or>
      (tk = trk_id t \<and> ep = trk_source_epoch t \<and> is_pending t ep x \<and>
       x \<notin> set (protected_of protected ep) \<and> \<not> is_captured t ep x)"
    using F(8) by auto
  show "gaps_wf gaps \<Longrightarrow> gaps_wf gaps1"
    by (rule F(9))
qed

lemma observe_epoch_accounted:
  assumes "accounted (t, gaps) ep x"
  shows "accounted (observe_epoch now protected segs lo hi (t, gaps)) ep x"
proof -
  let ?cs = "remdups (captured_sequence_set t (trk_source_epoch t) @ protected_of protected (trk_source_epoch t))"
  let ?r = "observe_epoch now protected segs lo hi (t, gaps)"
  note T = observe_epoch_track [OF refl, of now protected segs lo hi t gaps]
  note G = observe_epoch_gaps [unfolded Let_def, of now protected segs lo hi t gaps]
  consider "is_captured t ep x" | "gap_covers_epoch gaps (trk_id t) ep x"
    | (pending) "is_pending t ep x" "\<not> is_captured t ep x"
    using assms by (auto simp: accounted_def)
  then show ?thesis
  proof cases
    case 1
    then show ?thesis
      using is_captured_cong [OF T(2)] by (simp add: accounted_def)
  next
    case 2
    then show ?thesis
      unfolding accounted_def G T(1) by (simp add: epoch_ranges.observed_mono)
  next
    case pending
    show ?thesis
    proof (cases "is_pending (fst ?r) ep x")
      case False
      then have "ep = trk_source_epoch t" "x \<notin> ms_sequence ` set segs" "x < hi"
        "x \<notin> set (protected_of protected (trk_source_epoch t))"
        using pending unfolding T(7) stays_pending_def by (auto simp: not_le)
      moreover from this have "x \<notin> set ?cs"
        using pending by (simp add: is_captured_def)
      ultimately have "gap_covers_epoch (snd ?r) (trk_id t) ep x"
        unfolding G using pending by (metis epoch_ranges.observed_pending)
      then show ?thesis
        unfolding accounted_def T(1) by simp
    qed (simp add: accounted_def)
  qed
qed

text \<open>The two stages of an observation: an optional new epoch, then the pass over the playlist.\<close>

lemma observe_track_cases:
  assumes "observe_track identity now protected first rest tg = Inr tg'"
  obtains lo hi tg1 where "sequence_bounds first (first # rest) = (lo, hi)"
    "tg' = observe_epoch now protected (first # rest) lo hi tg1"
    "sequence_reset identity (fst tg) (first # rest) hi \<and> begin_epoch now protected tg = Inr tg1 \<or>
     \<not> sequence_reset identity (fst tg) (first # rest) hi \<and> tg1 = tg"
  using assms unfolding observe_track_def Let_def
  by (auto split: prod.splits if_splits sum.splits)

lemma begin_epoch_accounted:
  assumes "begin_epoch now protected tg = Inr tg1" "accounted tg ep x"
  shows "accounted tg1 ep x"
proof -
  obtain t gaps t1 gaps1 where eq: "tg = (t, gaps)" "tg1 = (t1, gaps1)"
    by (cases tg, cases tg1) auto
  note B = begin_epoch_spec [OF assms(1) [unfolded eq]]
  show ?thesis
    using assms(2) is_captured_cong [OF B(2)] unfolding eq accounted_def fst_conv snd_conv B(1,6,7)
    by auto
qed

lemma observe_recording_cases:
  assumes "observe_recording identity now protected first rest r = Inr r'"
  obtains t t' where "map_of (rec_tracks r) main_track = Some t" "map_of (rec_tracks r') main_track = Some t'"
    "observe_track identity now protected first rest (t, rec_gaps r) = Inr (t', rec_gaps r')"
  using assms unfolding observe_recording_def
  by (auto split: option.splits sum.splits prod.splits)

lemma observe_track_accounted:
  assumes "observe_track identity now protected first rest tg = Inr tg'" "accounted tg ep x"
  shows "accounted tg' ep x"
  using observe_track_cases [OF assms(1)]
  by (metis assms(2) begin_epoch_accounted observe_epoch_accounted prod.collapse)

lemma observe_epoch_wf:
  "gaps_wf gaps \<Longrightarrow> gaps_wf (snd (observe_epoch now protected segs lo hi (t, gaps)))"
  by (simp add: observe_epoch_gaps Let_def epoch_ranges.observed_wf)

lemma observe_track_wf:
  assumes "observe_track identity now protected first rest tg = Inr tg'" "gaps_wf (snd tg)"
  shows "gaps_wf (snd tg')"
proof -
  obtain lo hi tg1 where eq: "tg' = observe_epoch now protected (first # rest) lo hi tg1"
    and step: "begin_epoch now protected tg = Inr tg1 \<or> tg1 = tg"
    using observe_track_cases [OF assms(1)] by metis
  obtain t gaps t1 gaps1 where pairs: "tg = (t, gaps)" "tg1 = (t1, gaps1)"
    by (cases tg, cases tg1) auto
  have "gaps_wf gaps1"
    using step assms(2) begin_epoch_spec(8) [of now protected t gaps t1 gaps1] by (auto simp: pairs)
  then show ?thesis
    by (simp add: eq pairs observe_epoch_wf)
qed

section \<open>Properties\<close>

lemma ascending_le_last:
  "sorted_wrt (<) (map f xs) \<Longrightarrow> m \<in> set xs \<Longrightarrow> f m \<le> f (last xs)" for f :: "'a \<Rightarrow> 'b::linorder"
  by (induction xs rule: rev_induct) (auto simp: sorted_wrt_append)

lemma sorted_playlist_bounds:
  assumes "sorted_wrt (<) (map ms_sequence (first # rest))"
    "sequence_bounds first (first # rest) = (lo, hi)"
  shows "lo = ms_sequence first" "hi \<in> ms_sequence ` set (first # rest)" "hi = ms_sequence (last (first # rest))"
proof -
  note S = sequence_bounds_spec [OF assms(2)]
  show "hi \<in> ms_sequence ` set (first # rest)" by (rule S(2))
  have "ms_sequence first \<le> y" if "y \<in> ms_sequence ` set (first # rest)" for y
    using assms(1) that by auto
  then show "lo = ms_sequence first"
    using S(1) S(3) [of first] by (intro order.antisym) auto
  have "y \<le> ms_sequence (last (first # rest))" if "y \<in> ms_sequence ` set (first # rest)" for y
    using ascending_le_last [OF assms(1)] that by blast
  then show "hi = ms_sequence (last (first # rest))"
    using S(2) S(3) [OF last_in_set [OF list.distinct(2)]] by (intro order.antisym) blast+
qed

lemma observe_epoch_no_loss:
  assumes "sorted_wrt (<) (map ms_sequence (first # rest))"
    "sequence_bounds first (first # rest) = (lo, hi)" "x \<le> hi"
    "if trk_has_last_observed t then trk_last_observed t < x else lo \<le> x"
    "x \<notin> set (captured_sequence_set t (trk_source_epoch t) @ protected_of protected (trk_source_epoch t))"
    "\<nexists>m. m \<in> set (first # rest) \<and> ms_sequence m = x \<and> \<not> ms_gap m"
  shows "gap_covers_epoch (snd (observe_epoch now protected (first # rest) lo hi (t, gaps)))
    (trk_id t) (trk_source_epoch t) x"
proof -
  note B = sorted_playlist_bounds [OF assms(1,2)]
  let ?cs = "remdups (captured_sequence_set t (trk_source_epoch t) @ protected_of protected (trk_source_epoch t))"
  have x: "x \<notin> set ?cs"
    using assms(5) by simp
  consider "trk_has_last_observed t" "trk_last_observed t < x" "x < lo"
    | m where "m \<in> set (first # rest)" "ms_gap m" "ms_sequence m = x"
    | "lo < x" "x < hi" "x \<notin> ms_sequence ` set (first # rest)"
  proof (cases "x \<in> ms_sequence ` set (first # rest)")
    case False
    then have "x \<noteq> lo" "x \<noteq> hi"
      using sequence_bounds_spec(1,2) [OF assms(2)] by auto
    with False assms(3,4) that(1,3) show ?thesis
      by (cases "x < lo") (auto simp: not_less split: if_splits)
  qed (use assms(6) that(2) in blast)
  then show ?thesis
    unfolding observe_epoch_gaps Let_def
  proof cases
    case 1
    with x show "gap_covers_epoch (observed_gaps (\<lambda>lo hi reason. add_missing_ranges now (trk_id t)
        (trk_source_epoch t) lo hi reason ?cs) ?cs (protected_of protected (trk_source_epoch t))
        (first # rest) lo hi t gaps) (trk_id t) (trk_source_epoch t) x"
      by (intro epoch_ranges.observed_window)
  next
    case (2 m)
    with x show "gap_covers_epoch (observed_gaps (\<lambda>lo hi reason. add_missing_ranges now (trk_id t)
        (trk_source_epoch t) lo hi reason ?cs) ?cs (protected_of protected (trk_source_epoch t))
        (first # rest) lo hi t gaps) (trk_id t) (trk_source_epoch t) x"
      using epoch_ranges.observed_manifest by metis
  next
    case 3
    with x B show "gap_covers_epoch (observed_gaps (\<lambda>lo hi reason. add_missing_ranges now (trk_id t)
        (trk_source_epoch t) lo hi reason ?cs) ?cs (protected_of protected (trk_source_epoch t))
        (first # rest) lo hi t gaps) (trk_id t) (trk_source_epoch t) x"
      using assms(1) by (intro epoch_ranges.observed_between) auto
  qed
qed

text \<open>C2: No silent loss.  After a playlist with ascending sequence numbers has been observed, every
  sequence between the previous high-water mark (or, in a new epoch or a first observation, the
  playlist's first sequence) and the playlist's last one is announced by the playlist, captured,
  still being worked on by the scheduler, or covered by a gap of the current epoch.\<close>

theorem observe_no_silent_loss:
  assumes "observe_track identity now protected first rest (t, gaps) = Inr (t', gaps')"
    "sorted_wrt (<) (map ms_sequence (first # rest))"
    "x \<le> ms_sequence (last (first # rest))"
    "if trk_has_last_observed t \<and> trk_source_epoch t' = trk_source_epoch t
     then trk_last_observed t < x else ms_sequence first \<le> x"
  shows "list_ex (\<lambda>m. ms_sequence m = x \<and> \<not> ms_gap m) (first # rest) \<or>
    is_captured t' (trk_source_epoch t') x \<or>
    x \<in> set (protected_of protected (trk_source_epoch t')) \<or>
    gap_covers_epoch gaps' (trk_id t') (trk_source_epoch t') x"
proof -
  obtain lo hi tg1 where b: "sequence_bounds first (first # rest) = (lo, hi)"
    and eq: "(t', gaps') = observe_epoch now protected (first # rest) lo hi tg1"
    and step: "begin_epoch now protected (t, gaps) = Inr tg1 \<or> tg1 = (t, gaps)"
    using observe_track_cases [OF assms(1)] by metis
  obtain t1 gaps1 where tg1: "tg1 = (t1, gaps1)" by (cases tg1)
  note T = observe_epoch_track [of now protected "first # rest" lo hi t1 gaps1 t']
  have ids: "trk_id t' = trk_id t1" "trk_source_epoch t' = trk_source_epoch t1" "trk_segments t' = trk_segments t1"
    using T(1-3) eq by (metis fst_conv tg1)+
  have bound: "x \<le> hi"
    using assms(3) sorted_playlist_bounds(3) [OF assms(2) b] by simp
  have from_lo: "if trk_has_last_observed t1 then trk_last_observed t1 < x else lo \<le> x"
    using step
  proof
    assume "begin_epoch now protected (t, gaps) = Inr tg1"
    then have "\<not> trk_has_last_observed t1" "trk_source_epoch t1 \<noteq> trk_source_epoch t"
      using begin_epoch_spec(3,5) unfolding tg1 by fastforce+
    then show ?thesis
      using assms(4) ids(2) sorted_playlist_bounds(1) [OF assms(2) b] by simp
  next
    assume "tg1 = (t, gaps)"
    then have "t1 = t" by (simp add: tg1)
    then show ?thesis
      using assms(4) ids(2) sorted_playlist_bounds(1) [OF assms(2) b] by simp
  qed
  show ?thesis
  proof (rule ccontr)
    assume lost: "\<not> ?thesis"
    then have "x \<notin> set (captured_sequence_set t1 (trk_source_epoch t1) @ protected_of protected (trk_source_epoch t1))"
      "\<nexists>m. m \<in> set (first # rest) \<and> ms_sequence m = x \<and> \<not> ms_gap m"
      using ids is_captured_cong [OF ids(3)] by (auto simp: is_captured_def list_ex_iff)
    from observe_epoch_no_loss [OF assms(2) b bound from_lo this, of now gaps1]
    have "gap_covers_epoch gaps' (trk_id t') (trk_source_epoch t') x"
      using eq ids by (metis snd_conv tg1)
    with lost show False by simp
  qed
qed

definition sample_after :: "track \<times> gap list" where
  "sample_after = observe_epoch 20 [] [sample_media 9, sample_media 11] 9 11 (sample_track, [])"

lemma sample_observed: "observe_track id 20 [] (sample_media 9) [sample_media 11] (sample_track, []) = Inr sample_after"
  by (simp add: observe_track_def sequence_bounds_def sequence_reset_def latest_captured_def sample_track_def
      sample_after_def)

theorem observe_no_silent_loss_witness:
  "gap_covers_epoch (snd sample_after) ''main'' 1 10"
  using observe_no_silent_loss [of id 20 "[]" "sample_media 9" "[sample_media 11]" sample_track "[]"
      "fst sample_after" "snd sample_after" 10] sample_observed
    observe_epoch_track(1-3) [OF refl, of 20 "[]" "[sample_media 9, sample_media 11]" 9 11 sample_track "[]"]
  by (simp add: sample_after_def [symmetric] is_captured_def captured_sequence_set_def protected_of_def)
     (simp add: sample_track_def)

text \<open>C22: Nothing that was accounted for is forgotten: a sequence of any epoch that was captured, pending
  or covered by a gap before an observation still is one of these afterwards, across window moves and
  epoch changes, and the gap list stays free of overlaps.\<close>

theorem observe_keeps_accounted:
  assumes "observe_track identity now protected first rest tg = Inr tg'"
    "accounted tg ep x" "gaps_wf (snd tg)"
  shows "accounted tg' ep x \<and> gaps_wf (snd tg')"
  using observe_track_accounted [OF assms(1,2)] observe_track_wf [OF assms(1,3)] by simp

theorem observe_keeps_accounted_witness: "accounted sample_after 1 6 \<and> gaps_wf (snd sample_after)"
  by (rule observe_keeps_accounted [OF sample_observed])
     (simp_all add: accounted_def is_pending_def gaps_wf_def sample_track_def)

text \<open>C23: Epochs and the high-water mark.  An observation opens a new epoch exactly when the source
  restarted its numbering, and then by one; it fails exactly when the epoch counter is exhausted; the
  mark is the playlist's highest sequence in a new epoch and otherwise never moves back.\<close>

theorem observe_epoch_discipline:
  assumes "sequence_bounds first (first # rest) = (lo, hi)"
  shows "case observe_track identity now protected first rest (t, gaps) of
      Inl e \<Rightarrow> e = ''source sequence epoch overflow'' \<and> trk_source_epoch t = max_u64 \<and>
               sequence_reset identity t (first # rest) hi
    | Inr (t', gaps') \<Rightarrow>
        (if sequence_reset identity t (first # rest) hi
         then unat (trk_source_epoch t') = unat (trk_source_epoch t) + 1 \<and> trk_last_observed t' = hi
         else trk_source_epoch t' = trk_source_epoch t \<and>
              trk_last_observed t' = (if trk_has_last_observed t then max hi (trk_last_observed t) else hi)) \<and>
        trk_has_last_observed t'"
proof (cases "sequence_reset identity t (first # rest) hi")
  case True
  show ?thesis
  proof (cases "begin_epoch now protected (t, gaps)")
    case (Inl e)
    moreover obtain t0 gaps0 where "finalize_pending_epoch_except now (trk_source_epoch t)
      ''source sequence reset before pending media was captured''
      (protected_of protected (trk_source_epoch t)) (t, gaps) = (t0, gaps0)"
      by fastforce
    ultimately show ?thesis
      using True assms finalize_epoch_fields(3)
      by (fastforce simp: observe_track_def begin_epoch_def Let_def split: if_splits)
  next
    case (Inr tg1)
    obtain t1 gaps1 where tg1: "tg1 = (t1, gaps1)" by (cases tg1)
    note B = begin_epoch_spec [OF Inr [unfolded tg1]]
    note T = observe_epoch_track [OF refl, of now protected "first # rest" lo hi t1 gaps1]
    show ?thesis
      using True assms Inr B(3-5) T(3,5,6)
      by (simp add: observe_track_def tg1 case_prod_beta unat_succ_u64)
  qed
next
  case False
  then show ?thesis
    using assms observe_epoch_track(3,5,6) [OF refl, of now protected "first # rest" lo hi t gaps]
    by (auto simp: observe_track_def case_prod_beta max_def)
qed

theorem observe_epoch_discipline_witness:
  "case observe_track id 20 [] (sample_media 2) [] (sample_track, []) of
      Inl e \<Rightarrow> False | Inr (t', gaps') \<Rightarrow> unat (trk_source_epoch t') = 2 \<and> trk_last_observed t' = 2"
  using observe_epoch_discipline [where first = "sample_media 2" and rest = "[]" and lo = 2 and hi = 2
      and identity = id and now = 20 and protected = "[]" and t = sample_track and gaps = "[]"]
  by (auto simp: sequence_bounds_def sequence_reset_def sample_track_def max_u64_def
      split: sum.splits prod.splits)

text \<open>A playlist fetched from a media source that has been replaced, or for a deleted recording,
  never changes the recording; nor does an observation that fails or could not be saved.  When the
  recording changes, the entry was current at every reading and the new document is the observed
  one.\<close>

theorem observe_stale_generation_is_ignored:
  "case observe_playlist_at_generation identity now protected env playlist generation e of
     (res, e') \<Rightarrow> e' = e \<or>
       (e' = e\<lparr>oe_recording := oe_recording e'\<rparr> \<and> \<not> oe_deleted e \<and> oe_generation e = generation \<and>
        env_current_before_save env \<and> (env_async env \<or> (env_save_ok env \<and> env_current_after_save env)) \<and>
        (\<exists>first rest. mp_segments playlist = first # rest \<and>
           observe_recording identity now protected first rest (oe_recording e) = Inr (oe_recording e')))"
  by (auto simp: observe_playlist_at_generation_def split: list.splits sum.splits)

end
