(* ===== verification/Segment_Commit.thy ===== *)
theory Segment_Commit
  imports Playlist_Observer "HOL-Library.Product_Lexorder"
begin

text \<open>
  Committing a captured media segment to the recording document: \<^verbatim>\<open>persistSegment\<close> of
  \<^verbatim>\<open>internal/acquire/segments.go\<close> and the archive ordinals of \<^verbatim>\<open>internal/acquire/worker.go\<close>.
  Segments arrive out of order; the commit keeps the archive sorted by ordinal, moves the synthetic
  discontinuity of an epoch to its first segment and removes the pending entry.  The disk writes
  (payload, sidecars, root document) are the environment's: each may fail.
\<close>

section \<open>Reading the track\<close>

definition current_epoch :: "recording \<Rightarrow> u64" where
  "current_epoch r = (case map_of (rec_tracks r) main_track of Some t \<Rightarrow> trk_source_epoch t | None \<Rightarrow> 0)"

definition has_captured_epoch :: "recording \<Rightarrow> u64 \<Rightarrow> bool" where
  "has_captured_epoch r epoch \<longleftrightarrow>
     (case map_of (rec_tracks r) main_track of
        None \<Rightarrow> False
      | Some t \<Rightarrow> list_ex (\<lambda>s. seg_source_epoch s = epoch) (trk_segments t))"

definition has_sequence :: "recording \<Rightarrow> u64 \<Rightarrow> u64 \<Rightarrow> bool" where
  "has_sequence r epoch sequence \<longleftrightarrow>
     (case map_of (rec_tracks r) main_track of
        None \<Rightarrow> False
      | Some t \<Rightarrow> list_ex (\<lambda>s. seg_source_epoch s = epoch \<and> seg_sequence s = sequence) (trk_segments t))"

definition ordinal_overflow :: string where
  "ordinal_overflow = ''archive ordinal overflow''"

definition next_archive_ordinal :: "recording \<Rightarrow> string + u64" where
  "next_archive_ordinal r =
     (case map_of (rec_tracks r) main_track of
        None \<Rightarrow> Inl missing_track
      | Some t \<Rightarrow>
          if trk_next_archive_ordinal t > 0
          then (if trk_next_archive_ordinal t = max_u64 then Inl ordinal_overflow
                else Inr (trk_next_archive_ordinal t))
          else
            let maximum = foldl (\<lambda>m s. if m < seg_archive_ordinal s then seg_archive_ordinal s else m) 0
                            (trk_segments t)
            in if maximum > 0
               then (if maximum = max_u64 then Inl ordinal_overflow else Inr (maximum + 1))
               else if length (trk_segments t) \<ge> unat max_u64 - 1 then Inl ordinal_overflow
               else Inr (of_nat (length (trk_segments t)) + 1))"

section \<open>The discontinuity that opens an epoch\<close>

record epoch_marker =
  em_ordinal :: u64
  em_source_discontinuity :: bool

text \<open>The scan for the epoch's first segment when the scheduler has no marker for it.\<close>

definition scan_marker :: "u64 \<Rightarrow> segment list \<Rightarrow> epoch_marker \<times> bool" where
  "scan_marker epoch segments =
     foldl (\<lambda>(marker, exists) candidate.
         if seg_source_epoch candidate = epoch \<and>
            (em_ordinal marker = 0 \<or> seg_archive_ordinal candidate < em_ordinal marker)
         then (\<lparr>em_ordinal = seg_archive_ordinal candidate,
                em_source_discontinuity = seg_discontinuity candidate\<rparr>, True)
         else (marker, exists))
       (\<lparr>em_ordinal = 0, em_source_discontinuity = False\<rparr>, False) segments"

definition restored_leader :: "epoch_marker \<Rightarrow> u64 \<Rightarrow> segment list \<Rightarrow> segment option" where
  "restored_leader marker epoch segments =
     map_option (\<lambda>c. c\<lparr>seg_discontinuity := em_source_discontinuity marker\<rparr>)
       (List.find (\<lambda>c. seg_source_epoch c = epoch \<and> seg_archive_ordinal c = em_ordinal marker) segments)"

text \<open>The segment as committed, the sidecar rewritten for the old leader, the marker to remember.\<close>

definition plan_marker ::
    "(u64, epoch_marker) gomap \<Rightarrow> segment list \<Rightarrow> segment
       \<Rightarrow> segment \<times> segment option \<times> epoch_marker option" where
  "plan_marker markers segments segment =
     (if seg_source_epoch segment > 0
      then
        let epoch = seg_source_epoch segment;
            (marker, exists) = (case map_of markers epoch of
               Some m \<Rightarrow> (m, True) | None \<Rightarrow> scan_marker epoch segments)
        in if \<not> exists \<or> seg_archive_ordinal segment < em_ordinal marker
           then (segment\<lparr>seg_discontinuity := True\<rparr>,
                 if exists then restored_leader marker epoch segments else None,
                 Some \<lparr>em_ordinal = seg_archive_ordinal segment,
                       em_source_discontinuity = seg_discontinuity segment\<rparr>)
           else (segment, None, Some marker)
      else (segment, None, None))"

section \<open>The commit\<close>

definition segment_key :: "segment \<Rightarrow> u64 \<times> u64 \<times> u64" where
  "segment_key s = (seg_archive_ordinal s, seg_source_epoch s, seg_sequence s)"

fun restore_first :: "segment \<Rightarrow> segment list \<Rightarrow> segment list" where
  "restore_first u [] = []"
| "restore_first u (s # rest) =
     (if seg_id s = seg_id u then s\<lparr>seg_discontinuity := seg_discontinuity u\<rparr> # rest
      else s # restore_first u rest)"

datatype commit_error =
    PayloadWriteFailed | SidecarWriteFailed | RootWriteFailed | ArchiveOrdinalOverflow | MissingTrack

definition append_segment :: "segment option \<Rightarrow> segment \<Rightarrow> recording \<Rightarrow> commit_error + recording" where
  "append_segment previous segment r =
     (case map_of (rec_tracks r) main_track of
        None \<Rightarrow> Inl MissingTrack
      | Some t \<Rightarrow>
          if list_ex (\<lambda>s. seg_source_epoch s = seg_source_epoch segment \<and>
                          seg_sequence s = seg_sequence segment) (trk_segments t)
          then Inr r
          else
            let segments = (case previous of None \<Rightarrow> trk_segments t
                            | Some u \<Rightarrow> restore_first u (trk_segments t));
                segments = sort_key segment_key (segments @ [segment])
            in if trk_next_archive_ordinal t \<le> seg_archive_ordinal segment \<and>
                  seg_archive_ordinal segment = max_u64
               then Inl ArchiveOrdinalOverflow
               else
                 let t1 = t\<lparr>trk_segments := segments,
                            trk_next_archive_ordinal :=
                              (if trk_next_archive_ordinal t \<le> seg_archive_ordinal segment
                               then seg_archive_ordinal segment + 1 else trk_next_archive_ordinal t),
                            trk_pending_segments := remove_pending (trk_pending_segments t)
                              (seg_source_epoch segment) (seg_sequence segment)\<rparr>;
                     t2 = (if seg_source_epoch segment = 0
                           then t1\<lparr>trk_pending_sequences :=
                                  remove_sequence (trk_pending_sequences t1) (seg_sequence segment)\<rparr>
                           else t1)
                 in Inr (put_main t2 (r\<lparr>rec_last_error := []\<rparr>)))"

record commit_env =
  ce_payload :: "(int \<times> string) option"
  ce_sidecar_ok :: bool
  ce_leader_sidecar_ok :: bool
  ce_root_ok :: bool

record commit_state =
  cs_recording :: recording
  cs_markers :: "(u64, epoch_marker) gomap"

definition persist_segment ::
    "commit_env \<Rightarrow> segment \<Rightarrow> commit_state \<Rightarrow> (commit_error + (int \<times> string)) \<times> commit_state" where
  "persist_segment env segment st =
     (case ce_payload env of
        None \<Rightarrow> (Inl PayloadWriteFailed, st)
      | Some (bytes, sha) \<Rightarrow>
          (case map_of (rec_tracks (cs_recording st)) main_track of
             None \<Rightarrow> (Inl MissingTrack, st)
           | Some t \<Rightarrow>
               let segment = segment\<lparr>seg_payload_size := bytes, seg_sha256 := sha\<rparr>;
                   (segment, previous, planned) = plan_marker (cs_markers st) (trk_segments t) segment
               in if \<not> ce_sidecar_ok env \<or> (previous \<noteq> None \<and> \<not> ce_leader_sidecar_ok env)
                  then (Inl SidecarWriteFailed, st)
                  else case append_segment previous segment (cs_recording st) of
                      Inl e \<Rightarrow> (Inl e, st)
                    | Inr r \<Rightarrow>
                        if \<not> ce_root_ok env then (Inl RootWriteFailed, st)
                        else (Inr (bytes, sha),
                              \<lparr>cs_recording = r,
                               cs_markers = (case planned of
                                  Some m \<Rightarrow> if seg_source_epoch segment > 0
                                            then AList.update (seg_source_epoch segment) m (cs_markers st)
                                            else cs_markers st
                                | None \<Rightarrow> cs_markers st)\<rparr>)))"

section \<open>Freshness of ordinals\<close>

lemma foldl_larger:
  fixes f :: "'a \<Rightarrow> 'b::linorder"
  shows "foldl (\<lambda>m s. if m < f s then f s else m) a xs = foldl max a (map f xs)"
proof (induction xs arbitrary: a)
  case (Cons x xs)
  have "(if a < f x then f x else a) = max a (f x)"
    by (auto simp: max_def)
  with Cons show ?case by simp
qed simp

lemma foldl_max_ge: "a \<le> foldl max a xs \<and> (\<forall>x \<in> set xs. x \<le> foldl max a xs)" for a :: "'b::linorder"
proof (induction xs arbitrary: a)
  case (Cons y xs)
  from Cons [of "max a y"] show ?case by auto
qed simp

section \<open>The invariant of the archive\<close>

definition archive_ok :: "track \<Rightarrow> bool" where
  "archive_ok t \<longleftrightarrow>
     distinct (map (\<lambda>s. (seg_source_epoch s, seg_sequence s)) (trk_segments t)) \<and>
     distinct (map seg_id (trk_segments t)) \<and> distinct (map seg_archive_ordinal (trk_segments t)) \<and>
     sorted (map segment_key (trk_segments t)) \<and>
     list_all (\<lambda>s. 0 < seg_archive_ordinal s \<and> seg_archive_ordinal s < trk_next_archive_ordinal t)
       (trk_segments t)"

definition leads :: "u64 \<Rightarrow> segment \<Rightarrow> segment set \<Rightarrow> bool" where
  "leads epoch s S \<longleftrightarrow> s \<in> S \<and> seg_source_epoch s = epoch \<and>
     (\<forall>s' \<in> S. seg_source_epoch s' = epoch \<longrightarrow> seg_archive_ordinal s \<le> seg_archive_ordinal s')"

definition leaders_marked :: "segment list \<Rightarrow> bool" where
  "leaders_marked segments \<longleftrightarrow>
     list_all (\<lambda>s. (0 < seg_source_epoch s \<and> leads (seg_source_epoch s) s (set segments)) \<longrightarrow>
                  seg_discontinuity s) segments"

definition markers_ok :: "(u64, epoch_marker) gomap \<Rightarrow> segment list \<Rightarrow> bool" where
  "markers_ok markers segments \<longleftrightarrow>
     (\<forall>epoch m. map_of markers epoch = Some m \<longrightarrow> 0 < epoch \<and>
        (\<exists>s. leads epoch s (set segments) \<and> seg_archive_ordinal s = em_ordinal m))"

definition fresh_segment :: "segment \<Rightarrow> track \<Rightarrow> bool" where
  "fresh_segment s t \<longleftrightarrow> 0 < seg_archive_ordinal s \<and>
     list_all (\<lambda>u. seg_archive_ordinal u \<noteq> seg_archive_ordinal s \<and> seg_id u \<noteq> seg_id s) (trk_segments t)"

text \<open>The scan finds the leader.\<close>

lemma scan_marker_snoc:
  "scan_marker epoch (segments @ [c]) =
     (if seg_source_epoch c = epoch \<and>
         (em_ordinal (fst (scan_marker epoch segments)) = 0 \<or>
          seg_archive_ordinal c < em_ordinal (fst (scan_marker epoch segments)))
      then (\<lparr>em_ordinal = seg_archive_ordinal c, em_source_discontinuity = seg_discontinuity c\<rparr>, True)
      else scan_marker epoch segments)"
  by (cases "scan_marker epoch segments") (auto simp: scan_marker_def)

lemma scan_marker_none: "\<not> snd (scan_marker epoch segments) \<Longrightarrow> em_ordinal (fst (scan_marker epoch segments)) = 0"
proof (induction segments rule: rev_induct)
  case (snoc c segments)
  then show ?case unfolding scan_marker_snoc by (auto split: if_splits)
qed (simp add: scan_marker_def)

lemma leads_snoc:
  "leads epoch s (insert c S) \<longleftrightarrow>
     (s = c \<and> seg_source_epoch c = epoch \<and>
        (\<forall>s' \<in> S. seg_source_epoch s' = epoch \<longrightarrow> seg_archive_ordinal c \<le> seg_archive_ordinal s')) \<or>
     (leads epoch s S \<and> (seg_source_epoch c = epoch \<longrightarrow> seg_archive_ordinal s \<le> seg_archive_ordinal c))"
  unfolding leads_def by (cases "s = c") auto

lemma scan_marker_spec:
  assumes "\<forall>s \<in> set segments. 0 < seg_archive_ordinal s"
  shows "if snd (scan_marker epoch segments)
     then \<exists>s. leads epoch s (set segments) \<and> em_ordinal (fst (scan_marker epoch segments)) = seg_archive_ordinal s
     else \<forall>s \<in> set segments. seg_source_epoch s \<noteq> epoch"
  using assms
proof (induction segments rule: rev_induct)
  case (snoc c segments)
  let ?m = "fst (scan_marker epoch segments)"
  have pos: "\<forall>s \<in> set segments. 0 < seg_archive_ordinal s"
    using snoc.prems by simp
  show ?case
  proof (cases "snd (scan_marker epoch segments)")
    case False
    with snoc.IH [OF pos] have "\<forall>s \<in> set segments. seg_source_epoch s \<noteq> epoch"
      by simp
    with False scan_marker_none [OF False] show ?thesis
      unfolding scan_marker_snoc by (auto simp: leads_def)
  next
    case True
    with snoc.IH [OF pos] obtain s where s: "leads epoch s (set segments)" "em_ordinal ?m = seg_archive_ordinal s"
      by auto
    then have "em_ordinal ?m \<noteq> 0"
      using pos by (auto simp: leads_def)
    show ?thesis
    proof (cases "seg_source_epoch c = epoch \<and> seg_archive_ordinal c < em_ordinal ?m")
      case True
      then have "leads epoch c (set (segments @ [c]))"
        using s by (auto simp: leads_def intro: order.trans order_less_imp_le)
      with True show ?thesis
        unfolding scan_marker_snoc by auto
    next
      case False
      then have "leads epoch s (set (segments @ [c]))"
        using s by (auto simp: leads_def)
      with False True s(2) \<open>em_ordinal ?m \<noteq> 0\<close> show ?thesis
        unfolding scan_marker_snoc by auto
    qed
  qed
qed (simp add: scan_marker_def)

lemma restore_first_map:
  "distinct (map seg_id segments) \<Longrightarrow>
     restore_first u segments =
       map (\<lambda>s. if seg_id s = seg_id u then s\<lparr>seg_discontinuity := seg_discontinuity u\<rparr> else s) segments"
proof (induction segments)
  case (Cons a segments)
  then show ?case
    by (auto simp: image_iff map_idI intro!: map_idI [symmetric])
qed simp

lemma segment_key_discontinuity [simp]: "segment_key (s\<lparr>seg_discontinuity := b\<rparr>) = segment_key s"
  by (simp add: segment_key_def)

lemma segment_sel_discontinuity [simp]:
  "seg_archive_ordinal (s\<lparr>seg_discontinuity := b\<rparr>) = seg_archive_ordinal s"
  "seg_source_epoch (s\<lparr>seg_discontinuity := b\<rparr>) = seg_source_epoch s"
  "seg_sequence (s\<lparr>seg_discontinuity := b\<rparr>) = seg_sequence s"
  "seg_id (s\<lparr>seg_discontinuity := b\<rparr>) = seg_id s"
  by simp_all

definition restored :: "segment option \<Rightarrow> segment list \<Rightarrow> segment list" where
  "restored previous segments = (case previous of None \<Rightarrow> segments | Some u \<Rightarrow> restore_first u segments)"

text \<open>Rewriting the discontinuity of one segment leaves every key in place.\<close>

lemma restored_map:
  assumes "distinct (map seg_id segments)"
  obtains f where "restored previous segments = map f segments"
    "\<And>s. f s = s \<or> (\<exists>b. f s = s\<lparr>seg_discontinuity := b\<rparr>)"
    "\<And>s. (\<nexists>u. previous = Some u \<and> seg_id u = seg_id s) \<Longrightarrow> f s = s"
proof (cases previous)
  case None
  then show ?thesis using that [of id] by (simp add: restored_def)
next
  case (Some u)
  show ?thesis
    by (rule that [of "\<lambda>s. if seg_id s = seg_id u then s\<lparr>seg_discontinuity := seg_discontinuity u\<rparr> else s"])
       (use Some assms restore_first_map in \<open>auto simp: restored_def\<close>)
qed

lemma restored_keys:
  assumes "distinct (map seg_id segments)"
  shows "map segment_key (restored previous segments) = map segment_key segments"
    "map seg_id (restored previous segments) = map seg_id segments"
    "map seg_archive_ordinal (restored previous segments) = map seg_archive_ordinal segments"
    "map seg_source_epoch (restored previous segments) = map seg_source_epoch segments"
    "map seg_sequence (restored previous segments) = map seg_sequence segments"
proof -
  obtain f where f: "restored previous segments = map f segments"
    "\<And>s. f s = s \<or> (\<exists>b. f s = s\<lparr>seg_discontinuity := b\<rparr>)"
    using restored_map [OF assms] by metis
  have "segment_key (f s) = segment_key s \<and> seg_id (f s) = seg_id s \<and>
      seg_archive_ordinal (f s) = seg_archive_ordinal s \<and> seg_source_epoch (f s) = seg_source_epoch s \<and>
      seg_sequence (f s) = seg_sequence s" for s
    using f(2) [of s] by auto
  then show "map segment_key (restored previous segments) = map segment_key segments"
    "map seg_id (restored previous segments) = map seg_id segments"
    "map seg_archive_ordinal (restored previous segments) = map seg_archive_ordinal segments"
    "map seg_source_epoch (restored previous segments) = map seg_source_epoch segments"
    "map seg_sequence (restored previous segments) = map seg_sequence segments"
    by (simp_all add: f(1))
qed

lemma restored_pairs:
  assumes "distinct (map seg_id segments)"
  shows "map (\<lambda>s. (seg_source_epoch s, seg_sequence s)) (restored previous segments) =
     map (\<lambda>s. (seg_source_epoch s, seg_sequence s)) segments"
proof -
  obtain f where f: "restored previous segments = map f segments"
    "\<And>s. f s = s \<or> (\<exists>b. f s = s\<lparr>seg_discontinuity := b\<rparr>)"
    using restored_map [OF assms] by metis
  have "(seg_source_epoch (f s), seg_sequence (f s)) = (seg_source_epoch s, seg_sequence s)" for s
    using f(2) [of s] by auto
  then show ?thesis by (simp add: f(1))
qed

text \<open>Who leads an epoch depends only on epochs and ordinals.\<close>

lemma leads_map:
  assumes "\<And>s. seg_archive_ordinal (f s) = seg_archive_ordinal s \<and> seg_source_epoch (f s) = seg_source_epoch s"
  shows "leads epoch s' (f ` S) \<longleftrightarrow> (\<exists>s. leads epoch s S \<and> s' = f s)"
  using assms unfolding leads_def by (auto simp: image_iff)

lemma leads_unique:
  "leads epoch s (set segments) \<Longrightarrow> leads epoch s' (set segments) \<Longrightarrow>
     distinct (map seg_archive_ordinal segments) \<Longrightarrow> s = s'"
  unfolding leads_def distinct_map by (metis inj_onD order.antisym)

lemma leads_exists:
  assumes "\<exists>s \<in> set segments. seg_source_epoch s = epoch"
  shows "\<exists>s. leads epoch s (set segments)"
proof -
  let ?S = "{s \<in> set segments. seg_source_epoch s = epoch}"
  have "finite ?S" "?S \<noteq> {}"
    using assms by auto
  then obtain s where "is_arg_min seg_archive_ordinal (\<lambda>s. s \<in> ?S) s"
    using ex_is_arg_min_if_finite by blast
  then have "leads epoch s (set segments)"
    by (auto simp: is_arg_min_linorder leads_def)
  then show ?thesis ..
qed

definition known_marker :: "(u64, epoch_marker) gomap \<Rightarrow> segment list \<Rightarrow> u64 \<Rightarrow> epoch_marker \<times> bool" where
  "known_marker markers segments epoch =
     (case map_of markers epoch of Some m \<Rightarrow> (m, True) | None \<Rightarrow> scan_marker epoch segments)"

lemma known_marker_spec:
  assumes "archive_ok t" "markers_ok markers (trk_segments t)"
  shows "if snd (known_marker markers (trk_segments t) epoch)
     then \<exists>s. leads epoch s (set (trk_segments t)) \<and>
              em_ordinal (fst (known_marker markers (trk_segments t) epoch)) = seg_archive_ordinal s
     else \<forall>s \<in> set (trk_segments t). seg_source_epoch s \<noteq> epoch"
proof -
  have "\<forall>s \<in> set (trk_segments t). 0 < seg_archive_ordinal s"
    using assms(1) by (simp add: archive_ok_def list_all_iff)
  from scan_marker_spec [OF this, of epoch] show ?thesis
    using assms(2) by (fastforce simp: known_marker_def markers_ok_def split: option.splits)
qed

lemma plan_marker_eq:
  "plan_marker markers segments segment =
     (let epoch = seg_source_epoch segment; (marker, exists) = known_marker markers segments epoch in
      if epoch = 0 then (segment, None, None)
      else if \<not> exists \<or> seg_archive_ordinal segment < em_ordinal marker
      then (segment\<lparr>seg_discontinuity := True\<rparr>,
            if exists then restored_leader marker epoch segments else None,
            Some \<lparr>em_ordinal = seg_archive_ordinal segment, em_source_discontinuity = seg_discontinuity segment\<rparr>)
      else (segment, None, Some marker))"
  by (auto simp: plan_marker_def known_marker_def word_neq_0_conv [symmetric] Let_def split: option.splits)

definition next_markers ::
    "(u64, epoch_marker) gomap \<Rightarrow> u64 \<Rightarrow> epoch_marker option \<Rightarrow> (u64, epoch_marker) gomap" where
  "next_markers markers epoch planned =
     (case planned of Some m \<Rightarrow> if epoch > 0 then AList.update epoch m markers else markers | None \<Rightarrow> markers)"

lemma leads_insert_map:
  assumes "\<And>s. seg_archive_ordinal (f s) = seg_archive_ordinal s \<and> seg_source_epoch (f s) = seg_source_epoch s"
  shows "leads epoch s (insert c (f ` S)) \<longleftrightarrow>
     (s = c \<and> seg_source_epoch c = epoch \<and>
        (\<forall>s' \<in> S. seg_source_epoch s' = epoch \<longrightarrow> seg_archive_ordinal c \<le> seg_archive_ordinal s')) \<or>
     (\<exists>s0. leads epoch s0 S \<and> s = f s0 \<and>
        (seg_source_epoch c = epoch \<longrightarrow> seg_archive_ordinal s0 \<le> seg_archive_ordinal c))"
  unfolding leads_snoc leads_map [OF assms] using assms by auto

lemma leaders_marked_iff:
  "leaders_marked segments \<longleftrightarrow>
     (\<forall>epoch s. 0 < epoch \<and> leads epoch s (set segments) \<longrightarrow> seg_discontinuity s)"
  by (auto simp: leaders_marked_def list_all_iff leads_def)

lemma restored_leader_eq:
  assumes "leads epoch s (set segments)" "em_ordinal marker = seg_archive_ordinal s"
    "distinct (map seg_archive_ordinal segments)"
  shows "restored_leader marker epoch segments = Some (s\<lparr>seg_discontinuity := em_source_discontinuity marker\<rparr>)"
proof -
  have "\<exists>c. List.find (\<lambda>c. seg_source_epoch c = epoch \<and> seg_archive_ordinal c = em_ordinal marker) segments = Some c"
    using assms(1,2) by (auto simp: leads_def find_None_iff simp flip: not_None_eq)
  then obtain c where c: "List.find (\<lambda>c. seg_source_epoch c = epoch \<and> seg_archive_ordinal c = em_ordinal marker)
      segments = Some c" by blast
  then have "c \<in> set segments" "seg_archive_ordinal c = seg_archive_ordinal s"
    using assms(2) by (auto simp: find_Some_iff)
  then have "c = s"
    using assms(1,3) by (auto simp: leads_def distinct_map dest: inj_onD)
  with c show ?thesis
    by (simp add: restored_leader_def)
qed

lemma fresh_segment_ordinal:
  "fresh_segment s t \<Longrightarrow> u \<in> set (trk_segments t) \<Longrightarrow> seg_archive_ordinal u \<noteq> seg_archive_ordinal s"
  by (simp add: fresh_segment_def list_all_iff)

lemma plan_marker_keeps:
  assumes ok: "archive_ok t" "markers_ok markers (trk_segments t)" "leaders_marked (trk_segments t)"
    and fresh: "fresh_segment sg t"
    and plan: "plan_marker markers (trk_segments t) sg = (sg', previous, planned)"
  shows "leaders_marked (restored previous (trk_segments t) @ [sg']) \<and>
    markers_ok (next_markers markers (seg_source_epoch sg) planned) (restored previous (trk_segments t) @ [sg'])"
proof -
  let ?S = "set (trk_segments t)" and ?e = "seg_source_epoch sg"
  have dist: "distinct (map seg_id (trk_segments t))" "distinct (map seg_archive_ordinal (trk_segments t))"
    using ok(1) by (simp_all add: archive_ok_def)
  obtain f where f: "restored previous (trk_segments t) = map f (trk_segments t)"
    "\<And>s. f s = s \<or> (\<exists>b. f s = s\<lparr>seg_discontinuity := b\<rparr>)"
    "\<And>s. (\<nexists>u. previous = Some u \<and> seg_id u = seg_id s) \<Longrightarrow> f s = s"
    using restored_map [OF dist(1)] by metis
  have keys: "seg_archive_ordinal (f s) = seg_archive_ordinal s \<and> seg_source_epoch (f s) = seg_source_epoch s" for s
    using f(2) [of s] by auto
  have set_eq: "set (restored previous (trk_segments t) @ [sg']) = insert sg' (f ` ?S)"
    by (simp add: f(1))
  obtain m ex where km: "known_marker markers (trk_segments t) ?e = (m, ex)"
    by fastforce
  note K = known_marker_spec [OF ok(1,2), of ?e, unfolded km fst_conv snd_conv]
  note L = leads_insert_map [OF keys, of _ _ sg' ?S]
  note marked = ok(3) [unfolded leaders_marked_iff]
  have eq: "(sg', previous, planned) =
     (if ?e = 0 then (sg, None, None)
      else if \<not> ex \<or> seg_archive_ordinal sg < em_ordinal m
      then (sg\<lparr>seg_discontinuity := True\<rparr>, if ex then restored_leader m ?e (trk_segments t) else None,
            Some \<lparr>em_ordinal = seg_archive_ordinal sg, em_source_discontinuity = seg_discontinuity sg\<rparr>)
      else (sg, None, Some m))"
    using plan by (simp only: plan_marker_eq Let_def km prod.case)
  consider (zero) "?e = 0" "sg' = sg" "previous = None" "planned = None"
    | (first) "0 < ?e" "\<not> ex" "sg' = sg\<lparr>seg_discontinuity := True\<rparr>" "previous = None"
        "planned = Some \<lparr>em_ordinal = seg_archive_ordinal sg, em_source_discontinuity = seg_discontinuity sg\<rparr>"
    | (earlier) "0 < ?e" "ex" "seg_archive_ordinal sg < em_ordinal m" "sg' = sg\<lparr>seg_discontinuity := True\<rparr>"
        "previous = restored_leader m ?e (trk_segments t)"
        "planned = Some \<lparr>em_ordinal = seg_archive_ordinal sg, em_source_discontinuity = seg_discontinuity sg\<rparr>"
    | (later) "0 < ?e" "ex" "\<not> seg_archive_ordinal sg < em_ordinal m" "sg' = sg" "previous = None" "planned = Some m"
  proof (cases "?e = 0")
    case True
    with eq that(1) show ?thesis by simp
  next
    case False
    then have pos: "0 < ?e" by (simp add: word_gt_0)
    show ?thesis
    proof (cases "\<not> ex \<or> seg_archive_ordinal sg < em_ordinal m")
      case True
      with eq False pos that(2,3) show ?thesis by (cases ex) simp_all
    next
      case inner: False
      with eq False pos that(4) show ?thesis by simp
    qed
  qed
  note cases = this
  have same: "f s = s" if "\<not> (ex \<and> seg_archive_ordinal sg < em_ordinal m)" for s
    using cases that f(3) by cases auto
  have other: "f s = s" if "leads e s ?S" "e \<noteq> ?e" for e s
  proof (cases "ex \<and> seg_archive_ordinal sg < em_ordinal m")
    case True
    then obtain s0 where s0: "leads ?e s0 ?S" "em_ordinal m = seg_archive_ordinal s0"
      using K by auto
    have "seg_id s \<noteq> seg_id s0"
      using that s0(1) dist(1) by (auto simp: leads_def distinct_map dest: inj_onD)
    moreover have "previous = Some (s0\<lparr>seg_discontinuity := em_source_discontinuity m\<rparr>) \<or> previous = None"
      using cases restored_leader_eq [OF s0 dist(2)] True by cases auto
    ultimately show ?thesis
      using f(3) [of s] by auto
  qed (rule same)
  have "seg_source_epoch sg' = ?e \<and> seg_archive_ordinal sg' = seg_archive_ordinal sg"
    using cases by cases simp_all
  then have sg'_keys: "seg_source_epoch sg' = ?e" "seg_archive_ordinal sg' = seg_archive_ordinal sg"
    by simp_all
  have elsewhere: "leads e s (insert sg' (f ` ?S)) \<longleftrightarrow> leads e s ?S" if "e \<noteq> ?e" for e s
    unfolding L using that other sg'_keys(1) by metis
  have here: "\<exists>mk s. planned = Some mk \<and> leads ?e s (insert sg' (f ` ?S)) \<and> seg_archive_ordinal s = em_ordinal mk \<and>
      (\<forall>s'. leads ?e s' (insert sg' (f ` ?S)) \<longrightarrow> seg_discontinuity s')" if "0 < ?e"
    using cases
  proof cases
    case first
    then have "leads ?e s' (insert sg' (f ` ?S)) \<longleftrightarrow> s' = sg'" for s'
      unfolding L using K sg'_keys by (auto simp: leads_def)
    with first show ?thesis by simp
  next
    case earlier
    then obtain s0 where s0: "leads ?e s0 ?S" "em_ordinal m = seg_archive_ordinal s0"
      using K by auto
    have less: "\<forall>s \<in> ?S. seg_source_epoch s = ?e \<longrightarrow> seg_archive_ordinal sg < seg_archive_ordinal s"
      using s0 earlier(3) by (auto simp: leads_def intro: order_less_le_trans)
    then have "leads ?e s' (insert sg' (f ` ?S)) \<longleftrightarrow> s' = sg'" for s'
      unfolding L using sg'_keys by (auto simp: leads_def order_less_imp_le not_le)
    with earlier show ?thesis by simp
  next
    case later
    then obtain s0 where s0: "leads ?e s0 ?S" "em_ordinal m = seg_archive_ordinal s0"
      using K by auto
    then have less: "seg_archive_ordinal s0 < seg_archive_ordinal sg"
      using later(3) fresh_segment_ordinal [OF fresh, of s0] by (auto simp: leads_def)
    have same': "f s = s" for s using same later(3) by blast
    have "leads ?e s' (insert sg' (f ` ?S)) \<longleftrightarrow> leads ?e s' ?S" for s'
      unfolding L same'
    proof (intro iffI; (elim disjE conjE exE)?)
      assume "\<forall>s' \<in> ?S. seg_source_epoch s' = ?e \<longrightarrow> seg_archive_ordinal sg' \<le> seg_archive_ordinal s'"
      then show "leads ?e s' ?S" using s0 less sg'_keys by (auto simp: leads_def)
    next
      assume "leads ?e s' ?S"
      moreover from this have "s' = s0" using s0(1) dist(2) leads_unique by blast
      ultimately show "(s' = sg' \<and> seg_source_epoch sg' = ?e \<and> (\<forall>s' \<in> ?S. seg_source_epoch s' = ?e \<longrightarrow>
          seg_archive_ordinal sg' \<le> seg_archive_ordinal s')) \<or>
        (\<exists>s0. leads ?e s0 ?S \<and> s' = s0 \<and> (seg_source_epoch sg' = ?e \<longrightarrow> seg_archive_ordinal s0 \<le> seg_archive_ordinal sg'))"
        using less sg'_keys by auto
    qed auto
    with later s0 marked that show ?thesis by auto
  qed (use that in simp)
  have "leaders_marked (restored previous (trk_segments t) @ [sg'])"
    unfolding leaders_marked_iff set_eq using elsewhere here marked by metis
  moreover have "markers_ok (next_markers markers ?e planned) (restored previous (trk_segments t) @ [sg'])"
  proof (cases "0 < ?e")
    case True
    then show ?thesis
      using here ok(2) elsewhere unfolding markers_ok_def set_eq next_markers_def by (auto split: if_splits)
  next
    case False
    then have "next_markers markers ?e planned = markers"
      by (simp add: next_markers_def split: option.split)
    then show ?thesis
      using False ok(2) elsewhere unfolding markers_ok_def set_eq by metis
  qed
  ultimately show ?thesis ..
qed

section \<open>What a commit does\<close>

lemma plan_marker_sel:
  assumes "plan_marker markers segments sg = (sg', previous, planned)"
  shows "seg_source_epoch sg' = seg_source_epoch sg" "seg_sequence sg' = seg_sequence sg"
    "seg_archive_ordinal sg' = seg_archive_ordinal sg" "seg_id sg' = seg_id sg"
    "seg_payload_size sg' = seg_payload_size sg" "seg_sha256 sg' = seg_sha256 sg"
  using assms by (auto simp: plan_marker_eq Let_def split: if_splits prod.splits)

definition add_captured :: "segment option \<Rightarrow> segment \<Rightarrow> track \<Rightarrow> track" where
  "add_captured previous segment t =
     unmark (seg_source_epoch segment) (seg_sequence segment)
       (t\<lparr>trk_segments := sort_key segment_key (restored previous (trk_segments t) @ [segment]),
          trk_next_archive_ordinal :=
            (if trk_next_archive_ordinal t \<le> seg_archive_ordinal segment
             then seg_archive_ordinal segment + 1 else trk_next_archive_ordinal t)\<rparr>)"

lemma append_segment_eq:
  "map_of (rec_tracks r) main_track = Some t \<Longrightarrow>
     append_segment previous segment r =
       (if is_captured t (seg_source_epoch segment) (seg_sequence segment) then Inr r
        else if trk_next_archive_ordinal t \<le> seg_archive_ordinal segment \<and> seg_archive_ordinal segment = max_u64
        then Inl ArchiveOrdinalOverflow
        else Inr (put_main (add_captured previous segment t) (r\<lparr>rec_last_error := []\<rparr>)))"
  by (auto simp: append_segment_def add_captured_def restored_def unmark_def Let_def is_captured_def
      captured_sequence_set_mem list_ex_iff)

lemma unmark_sel [simp]:
  "trk_source_epoch (unmark epoch sequence t) = trk_source_epoch t"
  "trk_last_observed (unmark epoch sequence t) = trk_last_observed t"
  "trk_has_last_observed (unmark epoch sequence t) = trk_has_last_observed t"
  by (simp_all add: unmark_def Let_def)

lemma is_captured_add:
  assumes "distinct (map seg_id (trk_segments t))"
  shows "is_captured (add_captured previous segment t) ep x \<longleftrightarrow>
     is_captured t ep x \<or> (ep = seg_source_epoch segment \<and> x = seg_sequence segment)"
proof -
  have "is_captured t' ep x \<longleftrightarrow> (ep, x) \<in> (\<lambda>s. (seg_source_epoch s, seg_sequence s)) ` set (trk_segments t')" for t'
    by (auto simp: is_captured_def captured_sequence_set_mem)
  then show ?thesis
    using arg_cong [OF restored_pairs [OF assms, of previous], of set]
    by (simp add: add_captured_def) blast
qed

lemma is_pending_add [simp]:
  "is_pending (add_captured previous segment t) ep x \<longleftrightarrow>
     is_pending t ep x \<and> \<not> (ep = seg_source_epoch segment \<and> x = seg_sequence segment)"
  by (simp add: add_captured_def) (simp add: is_pending_def)

lemma archive_ok_add:
  assumes ok: "archive_ok t" and fresh: "fresh_segment sg t"
    and new: "\<not> is_captured t (seg_source_epoch sg) (seg_sequence sg)"
    and room: "seg_archive_ordinal sg \<noteq> max_u64 \<or> seg_archive_ordinal sg < trk_next_archive_ordinal t"
  shows "archive_ok (add_captured previous sg t)"
proof -
  have dist: "distinct (map seg_id (trk_segments t))" using ok by (simp add: archive_ok_def)
  note K = restored_keys [OF dist, of previous]
  let ?xs = "restored previous (trk_segments t)"
  have mset: "mset (trk_segments (add_captured previous sg t)) = mset (?xs @ [sg])"
    by (simp add: add_captured_def)
  note pairs = restored_pairs [OF dist, of previous]
  have dist_iff: "distinct (map f (trk_segments (add_captured previous sg t))) \<longleftrightarrow>
      distinct (map f ?xs) \<and> f sg \<notin> set (map f ?xs)" for f :: "segment \<Rightarrow> 'c"
  proof -
    have "mset (map f (trk_segments (add_captured previous sg t))) = mset (map f (?xs @ [sg]))"
      using mset by (simp only: mset_map)
    then have "distinct (map f (trk_segments (add_captured previous sg t))) = distinct (map f (?xs @ [sg]))"
      by (rule mset_eq_imp_distinct_iff)
    then show ?thesis by simp
  qed
  have "list_all (\<lambda>s. 0 < seg_archive_ordinal s \<and>
      seg_archive_ordinal s < trk_next_archive_ordinal (add_captured previous sg t)) (trk_segments t @ [sg])"
    using ok fresh room
    by (auto simp: archive_ok_def fresh_segment_def list_all_iff add_captured_def u64_simps
        intro: order_less_le_trans)
  then have "\<forall>n \<in> set (map seg_archive_ordinal (?xs @ [sg])).
      0 < n \<and> n < trk_next_archive_ordinal (add_captured previous sg t)"
    by (simp add: K(3) list_all_iff)
  then have "\<forall>n \<in> seg_archive_ordinal ` set (trk_segments (add_captured previous sg t)).
      0 < n \<and> n < trk_next_archive_ordinal (add_captured previous sg t)"
    using mset_eq_setD [OF mset] by (metis image_set)
  moreover have "sorted (map segment_key (trk_segments (add_captured previous sg t)))"
    by (simp add: add_captured_def sorted_sort_key)
  moreover have "(seg_source_epoch sg, seg_sequence sg) \<notin> set (map (\<lambda>s. (seg_source_epoch s, seg_sequence s)) (trk_segments t))"
    using new by (auto simp: is_captured_def captured_sequence_set_mem)
  ultimately show ?thesis
    using ok fresh unfolding archive_ok_def dist_iff K pairs
    by (auto simp: fresh_segment_def list_all_iff)
qed

definition main_of :: "recording \<Rightarrow> track option" where
  "main_of r = map_of (rec_tracks r) main_track"

definition commit_inv :: "commit_state \<Rightarrow> bool" where
  "commit_inv st \<longleftrightarrow>
     (case main_of (cs_recording st) of
        None \<Rightarrow> False
      | Some t \<Rightarrow> archive_ok t \<and> leaders_marked (trk_segments t) \<and> markers_ok (cs_markers st) (trk_segments t))"

text \<open>The two outcomes of a commit of a fresh segment: nothing changed, or everything did.\<close>

lemma persist_segment_cases:
  assumes "main_of (cs_recording st) = Some t"
    "\<not> is_captured t (seg_source_epoch sg) (seg_sequence sg)"
  obtains (failed) e where "persist_segment env sg st = (Inl e, st)"
  | (stored) n sha sg' previous planned where
      "persist_segment env sg st =
         (Inr (n, sha), \<lparr>cs_recording = put_main (add_captured previous sg' t) ((cs_recording st)\<lparr>rec_last_error := []\<rparr>),
                         cs_markers = next_markers (cs_markers st) (seg_source_epoch sg) planned\<rparr>)"
      "plan_marker (cs_markers st) (trk_segments t) (sg\<lparr>seg_payload_size := n, seg_sha256 := sha\<rparr>)
         = (sg', previous, planned)"
      "ce_payload env = Some (n, sha)" "ce_root_ok env"
      "seg_archive_ordinal sg \<noteq> max_u64 \<or> seg_archive_ordinal sg < trk_next_archive_ordinal t"
proof (cases "ce_payload env")
  case None
  then show ?thesis using failed by (simp add: persist_segment_def)
next
  case (Some p)
  obtain n sha where p: "p = (n, sha)" by (cases p)
  obtain sg' previous planned where plan: "plan_marker (cs_markers st) (trk_segments t)
      (sg\<lparr>seg_payload_size := n, seg_sha256 := sha\<rparr>) = (sg', previous, planned)"
    by (rule prod_cases3)
  have keys: "seg_source_epoch sg' = seg_source_epoch sg" "seg_sequence sg' = seg_sequence sg"
    "seg_archive_ordinal sg' = seg_archive_ordinal sg"
    using plan_marker_sel [OF plan] by simp_all
  have app: "append_segment previous sg' (cs_recording st) =
      (if trk_next_archive_ordinal t \<le> seg_archive_ordinal sg \<and> seg_archive_ordinal sg = max_u64
       then Inl ArchiveOrdinalOverflow
       else Inr (put_main (add_captured previous sg' t) ((cs_recording st)\<lparr>rec_last_error := []\<rparr>)))"
    using assms by (simp add: append_segment_eq main_of_def keys)
  have run: "persist_segment env sg st =
      (if \<not> ce_sidecar_ok env \<or> (previous \<noteq> None \<and> \<not> ce_leader_sidecar_ok env) then (Inl SidecarWriteFailed, st)
       else case append_segment previous sg' (cs_recording st) of
           Inl e \<Rightarrow> (Inl e, st)
         | Inr r \<Rightarrow> if \<not> ce_root_ok env then (Inl RootWriteFailed, st)
             else (Inr (n, sha), \<lparr>cs_recording = r,
                    cs_markers = next_markers (cs_markers st) (seg_source_epoch sg) planned\<rparr>))"
    using assms(1)
    unfolding persist_segment_def Some p main_of_def next_markers_def Let_def plan keys(1) [symmetric]
      option.case prod.case
    by (simp add: plan)
  show ?thesis
  proof (cases "\<exists>e. persist_segment env sg st = (Inl e, st)")
    case True
    then show ?thesis using failed by blast
  next
    case False
    then have ok: "ce_root_ok env"
      and room: "\<not> (trk_next_archive_ordinal t \<le> seg_archive_ordinal sg \<and> seg_archive_ordinal sg = max_u64)"
      and sidecars: "\<not> (\<not> ce_sidecar_ok env \<or> (previous \<noteq> None \<and> \<not> ce_leader_sidecar_ok env))"
      unfolding run app by (auto split: if_splits)
    have "persist_segment env sg st =
        (Inr (n, sha), \<lparr>cs_recording = put_main (add_captured previous sg' t) ((cs_recording st)\<lparr>rec_last_error := []\<rparr>),
                        cs_markers = next_markers (cs_markers st) (seg_source_epoch sg) planned\<rparr>)"
      unfolding run app if_not_P [OF sidecars] if_not_P [OF room] sum.case using ok by simp
    moreover have "seg_archive_ordinal sg \<noteq> max_u64 \<or> seg_archive_ordinal sg < trk_next_archive_ordinal t"
      using room by (auto simp: not_le)
    ultimately show ?thesis
      using stored [OF _ plan _ ok] Some p by simp
  qed
qed

lemma leaders_marked_mset: "mset xs = mset ys \<Longrightarrow> leaders_marked xs \<longleftrightarrow> leaders_marked ys"
  unfolding leaders_marked_iff by (drule mset_eq_setD) simp

lemma markers_ok_mset: "mset xs = mset ys \<Longrightarrow> markers_ok m xs \<longleftrightarrow> markers_ok m ys"
  unfolding markers_ok_def by (drule mset_eq_setD) simp

lemma fresh_segment_payload [simp]:
  "fresh_segment (sg\<lparr>seg_payload_size := n, seg_sha256 := sha\<rparr>) t = fresh_segment sg t"
  by (simp add: fresh_segment_def)

lemma commit_inv_step:
  assumes "commit_inv st" "main_of (cs_recording st) = Some t" "fresh_segment sg t"
    "\<not> is_captured t (seg_source_epoch sg) (seg_sequence sg)"
  shows "commit_inv (snd (persist_segment env sg st))"
  using assms(2,4)
proof (cases rule: persist_segment_cases [of st t sg env])
  case (failed e)
  with assms(1) show ?thesis by simp
next
  case (stored n sha sg' previous planned)
  have inv: "archive_ok t" "markers_ok (cs_markers st) (trk_segments t)" "leaders_marked (trk_segments t)"
    using assms(1,2) by (simp_all add: commit_inv_def)
  note keys = plan_marker_sel(1-4) [OF stored(2)]
  have "fresh_segment sg' t"
    using assms(3) keys by (simp add: fresh_segment_def)
  moreover have "\<not> is_captured t (seg_source_epoch sg') (seg_sequence sg')"
    using assms(4) keys by simp
  ultimately have ok: "archive_ok (add_captured previous sg' t)"
    using archive_ok_add [OF inv(1)] stored(5) keys by simp
  have mset: "mset (trk_segments (add_captured previous sg' t)) = mset (restored previous (trk_segments t) @ [sg'])"
    by (simp add: add_captured_def)
  show ?thesis
    unfolding stored(1) commit_inv_def main_of_def
    using plan_marker_keeps [OF inv _ stored(2)] assms(3) ok keys
    by (simp add: leaders_marked_mset [OF mset] markers_ok_mset [OF mset])
qed

lemma commit_accounted:
  assumes "commit_inv st" "main_of (cs_recording st) = Some t"
    "\<not> is_captured t (seg_source_epoch sg) (seg_sequence sg)"
    "main_of (cs_recording (snd (persist_segment env sg st))) = Some t'"
    "accounted (t, rec_gaps (cs_recording st)) ep x"
  shows "accounted (t', rec_gaps (cs_recording (snd (persist_segment env sg st)))) ep x"
  using assms(2,3)
proof (cases rule: persist_segment_cases [of st t sg env])
  case (failed e)
  with assms(2,4,5) show ?thesis by simp
next
  case (stored n sha sg' previous planned)
  have dist: "distinct (map seg_id (trk_segments t))"
    using assms(1,2) by (simp add: commit_inv_def archive_ok_def)
  have t': "t' = add_captured previous sg' t"
    using assms(4) unfolding stored(1) by (simp add: main_of_def)
  show ?thesis
    using assms(5) unfolding stored(1) t' accounted_def fst_conv snd_conv is_captured_add [OF dist] is_pending_add
    by (auto simp: add_captured_def)
qed

section \<open>Properties\<close>

text \<open>A fresh ordinal.  Whenever the recorder obtains an archive ordinal for the next segment it is
  positive and larger than every ordinal in the archive, also for old documents that never stored a
  next ordinal; otherwise the document has no main track or the 64-bit range is exhausted.\<close>

theorem next_archive_ordinal_fresh:
  assumes "main_of r = Some t"
    "0 < trk_next_archive_ordinal t \<longrightarrow>
       list_all (\<lambda>s. seg_archive_ordinal s < trk_next_archive_ordinal t) (trk_segments t)"
  shows "case next_archive_ordinal r of
      Inl e \<Rightarrow> e = ordinal_overflow
    | Inr n \<Rightarrow> 0 < n \<and> list_all (\<lambda>s. seg_archive_ordinal s < n) (trk_segments t)"
proof -
  let ?max = "foldl max 0 (map seg_archive_ordinal (trk_segments t))"
  have bound: "\<forall>s \<in> set (trk_segments t). seg_archive_ordinal s \<le> ?max"
    using foldl_max_ge [of 0 "map seg_archive_ordinal (trk_segments t)"] by simp
  have small: "0 < of_nat k + (1 :: u64)" if "\<not> k \<ge> unat max_u64 - 1" for k
  proof -
    have "k + 1 < 2 ^ 64" using that unsigned_less [of max_u64, where ?'a = nat] by (simp add: max_u64_def)
    then have "unat (of_nat k + (1 :: u64)) = k + 1"
      by (simp add: unat_word_ariths unat_of_nat take_bit_eq_mod)
    then show ?thesis by (simp add: word_less_nat_alt)
  qed
  show ?thesis
  proof (cases "0 < trk_next_archive_ordinal t")
    case True
    with assms show ?thesis by (simp add: next_archive_ordinal_def main_of_def)
  next
    case False
    then have next_eq: "next_archive_ordinal r =
        (if ?max > 0 then (if ?max = max_u64 then Inl ordinal_overflow else Inr (?max + 1))
         else if length (trk_segments t) \<ge> unat max_u64 - 1 then Inl ordinal_overflow
         else Inr (of_nat (length (trk_segments t)) + 1))"
      using assms(1) by (simp add: next_archive_ordinal_def main_of_def Let_def foldl_larger)
    show ?thesis
    proof (cases "?max > 0")
      case True
      with bound show ?thesis
        unfolding next_eq by (auto simp: list_all_iff u64_simps intro: order.trans)
    next
      case zero: False
      then have "?max = 0"
        unfolding word_gt_0 by simp
      with bound have "\<forall>s \<in> set (trk_segments t). seg_archive_ordinal s = 0"
        by (simp add: word_le_0_iff)
      with zero small [of "length (trk_segments t)"] show ?thesis
        unfolding next_eq by (simp add: list_all_iff)
    qed
  qed
qed

theorem next_archive_ordinal_fresh_witness:
  "case next_archive_ordinal sample_recording of Inl e \<Rightarrow> e = ordinal_overflow
     | Inr n \<Rightarrow> 0 < n \<and> list_all (\<lambda>s. seg_archive_ordinal s < n) (trk_segments sample_track)"
  by (rule next_archive_ordinal_fresh) (simp_all add: main_of_def sample_track_def)

text \<open>C24: A commit is all or nothing.  Whatever write fails, the document and the markers are unchanged;
  when the commit reports success the segment is captured, no longer pending, the document's root was
  written, and every other sequence is captured and pending as before.\<close>

theorem persist_segment_atomic:
  assumes "commit_inv st" "main_of (cs_recording st) = Some t"
    "\<not> is_captured t (seg_source_epoch sg) (seg_sequence sg)"
  shows "case persist_segment env sg st of
      (Inl e, st') \<Rightarrow> st' = st
    | (Inr _, st') \<Rightarrow> ce_root_ok env \<and>
        (\<exists>t'. main_of (cs_recording st') = Some t' \<and>
          (is_captured t' ep x \<longleftrightarrow> is_captured t ep x \<or> (ep, x) = (seg_source_epoch sg, seg_sequence sg)) \<and>
          (is_pending t' ep x \<longleftrightarrow> is_pending t ep x \<and> (ep, x) \<noteq> (seg_source_epoch sg, seg_sequence sg)))"
  using assms(2,3)
proof (cases rule: persist_segment_cases [of st t sg env])
  case (stored n sha sg' previous planned)
  have dist: "distinct (map seg_id (trk_segments t))"
    using assms(1,2) by (simp add: commit_inv_def archive_ok_def)
  show ?thesis
    unfolding stored(1) using stored(4) plan_marker_sel(1,2) [OF stored(2)] is_captured_add [OF dist]
    by (simp add: main_of_def)
qed simp

definition sample_segment :: "u64 \<Rightarrow> u64 \<Rightarrow> segment" where
  "sample_segment sequence ordinal = \<lparr>seg_id = dec_nat (unat ordinal), seg_track_id = main_track,
     seg_sequence = sequence, seg_source_epoch = 1, seg_discontinuity_sequence = 0,
     seg_archive_ordinal = ordinal, seg_source_uri = [], seg_duration = 4, seg_program_date_time = None,
     seg_init_segment_id = [], seg_byte_range = None, seg_discontinuity = False, seg_storage_path = [],
     seg_payload_size = 0, seg_sha256 = [], seg_is_init = False\<rparr>"

lemma sample_segment_sel [simp]:
  "seg_source_epoch (sample_segment s n) = 1" "seg_sequence (sample_segment s n) = s"
  "seg_archive_ordinal (sample_segment s n) = n"
  by (simp_all add: sample_segment_def)

definition sample_commit :: commit_state where
  "sample_commit = \<lparr>cs_recording = sample_recording, cs_markers = []\<rparr>"

lemma sample_commit_inv:
  "commit_inv sample_commit" "main_of (cs_recording sample_commit) = Some sample_track"
  by (simp_all add: commit_inv_def sample_commit_def main_of_def sample_track_def archive_ok_def
      leaders_marked_def markers_ok_def)

theorem persist_segment_atomic_witness:
  "case persist_segment \<lparr>ce_payload = Some (3, ''x''), ce_sidecar_ok = True, ce_leader_sidecar_ok = True,
      ce_root_ok = True\<rparr> (sample_segment 6 4) sample_commit of
      (Inl e, st') \<Rightarrow> st' = sample_commit
    | (Inr _, st') \<Rightarrow> (\<exists>t'. main_of (cs_recording st') = Some t' \<and> is_captured t' 1 6 \<and> \<not> is_pending t' 1 6)"
  using persist_segment_atomic [OF sample_commit_inv, where sg = "sample_segment 6 4" and ep = 1 and x = 6
      and env = "\<lparr>ce_payload = Some (3, ''x''), ce_sidecar_ok = True, ce_leader_sidecar_ok = True,
        ce_root_ok = True\<rparr>"]
  by (auto simp: is_captured_def captured_sequence_set_def sample_track_def split: sum.splits prod.splits)

end
