(* ===== verification/Recorder_Runs.thy ===== *)
theory Recorder_Runs
  imports Segment_Commit
begin

text \<open>
  Whole runs of the recorder on one recording: any interleaving of playlist observations, segment
  commits (in any order, with any disk failure), segments given up, segments left pending, failures of the
  worker and restarts of the scheduler.  The theorems say what every reachable state guarantees.
\<close>

section \<open>The step relation\<close>

text \<open>
  A commit step is taken for a segment that holds a fresh ordinal and identifier and is not captured,
  which the scheduler ensures: ordinals come from \<^verbatim>\<open>s.next++\<close> and \<^verbatim>\<open>discoverAtGeneration\<close> skips
  captured sequences.  A restart builds a scheduler without markers (\<^verbatim>\<open>newSegmentScheduler\<close>),
  and \<open>describe\<close> changes the rest of the document, its state, times or title.  A restart of the process is
  not a step: there \<^verbatim>\<open>LoadAll\<close> of \<^verbatim>\<open>internal/storage\<close> reconciles the document with the stored files and turns
  what was pending into gaps.
\<close>

inductive capture_step :: "commit_state \<Rightarrow> commit_state \<Rightarrow> bool" where
  commit: "main_of (cs_recording st) = Some t \<Longrightarrow> fresh_segment sg t \<Longrightarrow>
     \<not> is_captured t (seg_source_epoch sg) (seg_sequence sg) \<Longrightarrow>
     capture_step st (snd (persist_segment env sg st))"
| observe: "observe_recording identity now protected first rest (cs_recording st) = Inr r \<Longrightarrow>
     capture_step st (st\<lparr>cs_recording := r\<rparr>)"
| give_up: "mark_gap now epoch sequence reason (cs_recording st) = Inr r \<Longrightarrow>
     capture_step st (st\<lparr>cs_recording := r\<rparr>)"
| leave_pending: "mark_pending epoch sequence err (cs_recording st) = Inr r \<Longrightarrow>
     capture_step st (st\<lparr>cs_recording := r\<rparr>)"
| leave_rest: "mark_remaining_pending epoch segs err (cs_recording st) = Inr r \<Longrightarrow>
     capture_step st (st\<lparr>cs_recording := r\<rparr>)"
| finish: "capture_step st (st\<lparr>cs_recording := finalize_pending now reason (cs_recording st)\<rparr>)"
| describe: "rec_tracks r = rec_tracks (cs_recording st) \<Longrightarrow> rec_gaps r = rec_gaps (cs_recording st) \<Longrightarrow>
     capture_step st (st\<lparr>cs_recording := r\<rparr>)"
| restart: "capture_step st (st\<lparr>cs_markers := []\<rparr>)"

text \<open>\<^verbatim>\<open>Manager.fail\<close> of \<^verbatim>\<open>internal/acquire/manager.go\<close> ends the recording: when the storage commit failed, the
  pending lists are cleared without a gap, because the source did deliver the media; any other error turns
  what is pending into gaps.  A failed save leaves the document as it was.\<close>

definition clear_pending :: "recording \<Rightarrow> recording" where
  "clear_pending r = r\<lparr>rec_tracks :=
     map (\<lambda>(name, t). (name, t\<lparr>trk_pending_sequences := [], trk_pending_segments := []\<rparr>)) (rec_tracks r)\<rparr>"

definition fail_recording :: "instant \<Rightarrow> acquire_failure \<Rightarrow> recording \<Rightarrow> recording" where
  "fail_recording now err r =
     (if err = StorageCommit then clear_pending r
      else finalize_pending now ''recording ended with uncaptured media'' r)
       \<lparr>rec_state := StateInterrupted, rec_last_error := safe_failure_description err, rec_stopped_at := Some now\<rparr>"

inductive recorder_step :: "commit_state \<Rightarrow> commit_state \<Rightarrow> bool" where
  capture: "capture_step st st' \<Longrightarrow> recorder_step st st'"
| fail: "recorder_step st (st\<lparr>cs_recording := fail_recording now err (cs_recording st)\<rparr>)"

section \<open>Steps on the ledger\<close>

text \<open>
  \<open>ledger_update r r'\<close>: the main track keeps its segments, identity and next ordinal, nothing that
  was accounted for is lost, no gap is withdrawn and the gap list stays well formed.  Every operation other than a commit
  is one.
\<close>

definition ledger_update :: "recording \<Rightarrow> recording \<Rightarrow> bool" where
  "ledger_update r r' \<longleftrightarrow>
     (\<forall>t. main_of r = Some t \<longrightarrow> (\<exists>t'. main_of r' = Some t' \<and> trk_segments t' = trk_segments t \<and>
        trk_id t' = trk_id t \<and> (trk_next_archive_ordinal t' = trk_next_archive_ordinal t) \<and>
        (\<forall>ep x. accounted (t, rec_gaps r) ep x \<longrightarrow> accounted (t', rec_gaps r') ep x))) \<and>
     (\<forall>tk ep x. gap_covers_epoch (rec_gaps r) tk ep x \<longrightarrow> gap_covers_epoch (rec_gaps r') tk ep x) \<and>
     (gaps_wf (rec_gaps r) \<longrightarrow> gaps_wf (rec_gaps r'))"

lemma observe_epoch_next:
  "trk_next_archive_ordinal (fst (observe_epoch now protected segs lo hi tg)) = trk_next_archive_ordinal (fst tg)"
  by (cases tg) (metis fst_conv observe_epoch_track(4))

lemma begin_epoch_next:
  assumes "begin_epoch now protected tg = Inr tg1"
  shows "trk_next_archive_ordinal (fst tg1) = trk_next_archive_ordinal (fst tg)"
proof -
  obtain t gaps where tg: "tg = (t, gaps)" by (cases tg)
  obtain t0 gaps0 where step: "finalize_pending_epoch_except now (trk_source_epoch t)
      ''source sequence reset before pending media was captured''
      (protected_of protected (trk_source_epoch t)) (t, gaps) = (t0, gaps0)"
    by fastforce
  then show ?thesis
    using assms finalize_epoch_fields(6) [OF step]
    by (auto simp: tg begin_epoch_def Let_def split: if_splits)
qed

lemma observe_track_fields:
  assumes "observe_track identity now protected first rest (t, gaps) = Inr (t', gaps')"
  shows "trk_segments t' = trk_segments t" "trk_id t' = trk_id t"
    "trk_next_archive_ordinal t' = trk_next_archive_ordinal t"
proof -
  obtain lo hi tg1 where eq: "(t', gaps') = observe_epoch now protected (first # rest) lo hi tg1"
    and step: "begin_epoch now protected (t, gaps) = Inr tg1 \<or> tg1 = (t, gaps)"
    using observe_track_cases [OF assms] by metis
  obtain t1 gaps1 where tg1: "tg1 = (t1, gaps1)" by (cases tg1)
  have "fst (observe_epoch now protected (first # rest) lo hi (t1, gaps1)) = t'"
    using eq tg1 by (metis fst_conv)
  note T = observe_epoch_track(1,2,4) [OF this]
  have "trk_segments t1 = trk_segments t \<and> trk_id t1 = trk_id t \<and>
      trk_next_archive_ordinal t1 = trk_next_archive_ordinal t"
    using step begin_epoch_spec(1,2) [of now protected t gaps t1 gaps1] begin_epoch_next [of now protected "(t, gaps)" tg1]
    by (auto simp: tg1)
  then show "trk_segments t' = trk_segments t" "trk_id t' = trk_id t"
    "trk_next_archive_ordinal t' = trk_next_archive_ordinal t"
    using T by simp_all
qed

lemma observe_track_gaps:
  assumes "observe_track identity now protected first rest tg = Inr tg'" "gap_covers_epoch (snd tg) tk ep x"
  shows "gap_covers_epoch (snd tg') tk ep x"
proof -
  obtain lo hi tg1 where eq: "tg' = observe_epoch now protected (first # rest) lo hi tg1"
    and step: "begin_epoch now protected tg = Inr tg1 \<or> tg1 = tg"
    using observe_track_cases [OF assms(1)] by metis
  obtain t gaps t1 gaps1 where pairs: "tg = (t, gaps)" "tg1 = (t1, gaps1)"
    by (cases tg, cases tg1) auto
  have "gap_covers_epoch gaps1 tk ep x"
    using step assms(2) begin_epoch_spec(7) [of now protected t gaps t1 gaps1] by (auto simp: pairs)
  then show ?thesis
    by (simp add: eq pairs observe_epoch_gaps Let_def epoch_ranges.observed_mono)
qed

lemma ledger_observe:
  assumes "observe_recording identity now protected first rest r = Inr r'"
  shows "ledger_update r r'"
proof -
  obtain t t' where t: "map_of (rec_tracks r) main_track = Some t" "map_of (rec_tracks r') main_track = Some t'"
    and run: "observe_track identity now protected first rest (t, rec_gaps r) = Inr (t', rec_gaps r')"
    using observe_recording_cases [OF assms] by blast
  show ?thesis
    using t observe_track_fields [OF run] observe_track_accounted [OF run] observe_track_wf [OF run] observe_track_gaps [OF run]
    by (simp add: ledger_update_def main_of_def)
qed

lemma ledger_mark_gap:
  assumes "mark_gap now epoch sequence reason r = Inr r'"
  shows "ledger_update r r'"
proof (cases "map_of (rec_tracks r) main_track")
  case None
  with assms show ?thesis by (simp add: mark_gap_def)
next
  case (Some t)
  then show ?thesis
    using assms unfolding mark_gap_eq [OF Some]
    by (auto simp: ledger_update_def main_of_def accounted_def gap_simps is_captured_def [symmetric])
qed

lemma ledger_mark_pending:
  assumes "mark_pending epoch sequence err r = Inr r'"
  shows "ledger_update r r'"
proof (cases "map_of (rec_tracks r) main_track")
  case None
  with assms show ?thesis by (simp add: mark_pending_def)
next
  case (Some t)
  then show ?thesis
    using assms mark_pending_eq [OF Some, of epoch sequence err]
    by (auto simp: ledger_update_def main_of_def accounted_def is_pending_def)
qed

lemma ledger_mark_remaining:
  assumes "mark_remaining_pending epoch segs err r = Inr r'"
  shows "ledger_update r r'"
proof (cases "map_of (rec_tracks r) main_track")
  case None
  with assms show ?thesis by (auto simp: mark_remaining_pending_def ledger_update_def main_of_def split: if_splits)
next
  case (Some t)
  show ?thesis
  proof (cases "segs = []")
    case True
    with assms show ?thesis by (simp add: mark_remaining_pending_def ledger_update_def)
  next
    case False
    then show ?thesis
      using assms Some unfolding mark_remaining_eq [OF Some False]
      by (auto simp: ledger_update_def main_of_def accounted_def add_remaining_mem is_pending_def)
  qed
qed

lemma map_of_list_all2:
  assumes "list_all2 (\<lambda>(n, t) (n', t'). n' = n \<and> P t t') ts ts'" "map_of ts k = Some t"
  shows "\<exists>t'. map_of ts' k = Some t' \<and> P t t'"
  using assms by (induction rule: list_all2_induct) (auto split: if_splits)

lemma ledger_finalize: "ledger_update r (finalize_pending now reason r)"
proof -
  obtain ts gaps where run: "finalize_tracks now reason (rec_tracks r) (rec_gaps r) = (ts, gaps)"
    by fastforce
  note F = finalize_tracks_spec [OF run] finalize_pending_fields [OF run]
  have main: "\<exists>t'. map_of ts main_track = Some t' \<and> trk_id t' = trk_id t \<and> trk_segments t' = trk_segments t \<and>
      trk_next_archive_ordinal t' = trk_next_archive_ordinal t \<and> no_pending t'"
    if "map_of (rec_tracks r) main_track = Some t" for t
    using F(1) that by (intro map_of_list_all2 [of "\<lambda>t t'. trk_id t' = trk_id t \<and> trk_segments t' = trk_segments t \<and>
        trk_next_archive_ordinal t' = trk_next_archive_ordinal t \<and> no_pending t'"]) auto
  have kept: "accounted (t', gaps) ep x" if t: "map_of (rec_tracks r) main_track = Some t"
    and t': "trk_id t' = trk_id t" "trk_segments t' = trk_segments t" and old: "accounted (t, rec_gaps r) ep x"
    for t t' ep x
    using old F(1) [of "trk_id t" ep x] map_of_SomeD [OF t] t'(1) is_captured_cong [OF t'(2)]
    unfolding accounted_def fst_conv snd_conv by auto
  show ?thesis
    unfolding ledger_update_def main_of_def F(2,3)
  proof (intro conjI allI impI)
    fix t assume t: "map_of (rec_tracks r) main_track = Some t"
    from main [OF t] obtain t' where "map_of ts main_track = Some t'" "trk_id t' = trk_id t"
      "trk_segments t' = trk_segments t" "trk_next_archive_ordinal t' = trk_next_archive_ordinal t"
      by blast
    with kept [OF t] show "\<exists>t'. map_of ts main_track = Some t' \<and> trk_segments t' = trk_segments t \<and>
        trk_id t' = trk_id t \<and> trk_next_archive_ordinal t' = trk_next_archive_ordinal t \<and>
        (\<forall>ep x. accounted (t, rec_gaps r) ep x \<longrightarrow> accounted (t', gaps) ep x)"
      by auto
  qed (use F(1) in blast)+
qed

section \<open>Invariants of runs\<close>

definition recorder_inv :: "commit_state \<Rightarrow> bool" where
  "recorder_inv st \<longleftrightarrow> commit_inv st \<and> gaps_wf (rec_gaps (cs_recording st))"

lemma commit_inv_ledger:
  assumes "commit_inv st" "ledger_update (cs_recording st) r"
  shows "commit_inv (st\<lparr>cs_recording := r\<rparr>)"
  using assms by (auto simp: commit_inv_def ledger_update_def archive_ok_def split: option.splits)

lemma persist_gaps: "rec_gaps (cs_recording (snd (persist_segment env sg st))) = rec_gaps (cs_recording st)"
  if "main_of (cs_recording st) = Some t" "\<not> is_captured t (seg_source_epoch sg) (seg_sequence sg)"
  using that by (cases rule: persist_segment_cases [of st t sg env]) simp_all

definition main_accounted :: "commit_state \<Rightarrow> u64 \<Rightarrow> u64 \<Rightarrow> bool" where
  "main_accounted st ep x \<longleftrightarrow>
     (case main_of (cs_recording st) of
        None \<Rightarrow> False | Some t \<Rightarrow> accounted (t, rec_gaps (cs_recording st)) ep x)"

text \<open>Captured or covered by a gap, as opposed to pending.\<close>

definition main_settled :: "commit_state \<Rightarrow> u64 \<Rightarrow> u64 \<Rightarrow> bool" where
  "main_settled st ep x \<longleftrightarrow>
     (case main_of (cs_recording st) of
        None \<Rightarrow> False
      | Some t \<Rightarrow> is_captured t ep x \<or> gap_covers_epoch (rec_gaps (cs_recording st)) (trk_id t) ep x)"

definition main_pending :: "commit_state \<Rightarrow> u64 \<Rightarrow> u64 \<Rightarrow> bool" where
  "main_pending st ep x \<longleftrightarrow> (case main_of (cs_recording st) of None \<Rightarrow> False | Some t \<Rightarrow> is_pending t ep x)"

lemma accounted_cases: "main_accounted st ep x \<longleftrightarrow> main_settled st ep x \<or> main_pending st ep x"
  by (auto simp: main_accounted_def main_settled_def main_pending_def accounted_def split: option.splits)

lemma ledger_step:
  assumes "recorder_inv st" "ledger_update (cs_recording st) r"
  shows "recorder_inv (st\<lparr>cs_recording := r\<rparr>) \<and>
     (main_accounted st ep x \<longrightarrow> main_accounted (st\<lparr>cs_recording := r\<rparr>) ep x) \<and>
     (main_settled st ep x \<longrightarrow> main_settled (st\<lparr>cs_recording := r\<rparr>) ep x)"
proof -
  have "main_settled st ep x \<longrightarrow> main_settled (st\<lparr>cs_recording := r\<rparr>) ep x"
  proof (cases "main_of (cs_recording st)")
    case (Some t)
    then obtain t' where "main_of r = Some t'" "trk_id t' = trk_id t" "is_captured t' = is_captured t"
      using assms(2) is_captured_cong unfolding ledger_update_def by metis
    then show ?thesis
      using Some assms(2) by (auto simp: main_settled_def ledger_update_def)
  qed (simp add: main_settled_def)
  then show ?thesis
    using assms commit_inv_ledger [OF _ assms(2)]
    by (auto simp: recorder_inv_def ledger_update_def main_accounted_def split: option.splits)
qed

lemma commit_settled:
  assumes "commit_inv st" "main_of (cs_recording st) = Some t" "\<not> is_captured t (seg_source_epoch sg) (seg_sequence sg)"
    "main_settled st ep x"
  shows "main_settled (snd (persist_segment env sg st)) ep x"
  using assms(2,3)
proof (cases rule: persist_segment_cases [of st t sg env])
  case (stored n sha sg' previous planned)
  have "distinct (map seg_id (trk_segments t))"
    using assms(1,2) by (simp add: commit_inv_def archive_ok_def)
  note add = is_captured_add [OF this, of previous sg' ep x]
  have "trk_id (add_captured previous sg' t) = trk_id t"
    by (simp add: add_captured_def)
  then show ?thesis
    using assms(2,4) add unfolding stored(1) by (auto simp: main_settled_def main_of_def)
qed (use assms(4) in simp)

lemma capture_step_inv:
  assumes "capture_step st st'" "recorder_inv st"
  shows "recorder_inv st' \<and> (main_accounted st ep x \<longrightarrow> main_accounted st' ep x) \<and> (main_settled st ep x \<longrightarrow> main_settled st' ep x)"
  using assms
proof (cases rule: capture_step.cases)
  case (commit t sg env)
  have inv: "commit_inv st" using assms(2) by (simp add: recorder_inv_def)
  note step = commit_inv_step [OF inv commit(2-4), of env]
  then obtain t' where t': "main_of (cs_recording st') = Some t'"
    unfolding commit(1) by (auto simp: commit_inv_def split: option.splits)
  show ?thesis
    using step assms(2) persist_gaps [OF commit(2,4), of env] t' commit(2)
      commit_accounted [OF inv commit(2,4) t' [unfolded commit(1)]] commit_settled [OF inv commit(2,4)]
    by (simp add: recorder_inv_def main_accounted_def commit(1))
next
  case (observe identity now protected first rest r)
  then show ?thesis using ledger_step [OF assms(2) ledger_observe] by simp
next
  case (give_up now epoch sequence reason r)
  then show ?thesis using ledger_step [OF assms(2) ledger_mark_gap] by simp
next
  case (leave_pending epoch sequence err r)
  then show ?thesis using ledger_step [OF assms(2) ledger_mark_pending] by simp
next
  case (leave_rest epoch segs err r)
  then show ?thesis using ledger_step [OF assms(2) ledger_mark_remaining] by simp
next
  case (finish now reason)
  then show ?thesis using ledger_step [OF assms(2) ledger_finalize] by simp
next
  case (describe r)
  then have "ledger_update (cs_recording st) r"
    by (simp add: ledger_update_def main_of_def)
  then show ?thesis using ledger_step [OF assms(2)] describe by simp
next
  case restart
  have "markers_ok [] segs" for segs by (simp add: markers_ok_def)
  with restart assms(2) show ?thesis
    by (simp add: recorder_inv_def commit_inv_def main_accounted_def main_settled_def split: option.splits)
qed

lemma capture_run_inv:
  assumes "capture_step\<^sup>*\<^sup>* st st'" "recorder_inv st"
  shows "recorder_inv st' \<and> (main_accounted st ep x \<longrightarrow> main_accounted st' ep x) \<and> (main_settled st ep x \<longrightarrow> main_settled st' ep x)"
  using assms by (induction rule: rtranclp_induct) (use capture_step_inv in blast)+

text \<open>A failure keeps the segments and the gaps; only that of a storage commit drops what is pending.\<close>

lemma fail_other_inv:
  assumes "err \<noteq> StorageCommit" "recorder_inv st"
  shows "recorder_inv (st\<lparr>cs_recording := fail_recording now err (cs_recording st)\<rparr>) \<and>
     (main_accounted st ep x \<longrightarrow> main_accounted (st\<lparr>cs_recording := fail_recording now err (cs_recording st)\<rparr>) ep x) \<and>
     (main_settled st ep x \<longrightarrow> main_settled (st\<lparr>cs_recording := fail_recording now err (cs_recording st)\<rparr>) ep x)"
proof -
  define r1 where "r1 = finalize_pending now ''recording ended with uncaptured media'' (cs_recording st)"
  define r2 where "r2 = fail_recording now err (cs_recording st)"
  have "capture_step st (st\<lparr>cs_recording := r1\<rparr>)"
    unfolding r1_def by (rule finish)
  moreover have "capture_step (st\<lparr>cs_recording := r1\<rparr>) (st\<lparr>cs_recording := r2\<rparr>)"
    using describe [of r2 "st\<lparr>cs_recording := r1\<rparr>"] assms(1) by (simp add: r1_def r2_def fail_recording_def)
  ultimately have "capture_step\<^sup>*\<^sup>* st (st\<lparr>cs_recording := r2\<rparr>)"
    by auto
  from capture_run_inv [OF this assms(2)] show ?thesis
    by (simp add: r2_def)
qed

lemma map_of_clear: "map_of (map (\<lambda>(name, t). (name, f t)) ts) k = map_option f (map_of ts k)"
  by (induction ts) auto

lemma main_of_storage_failure:
  "main_of (fail_recording now StorageCommit r) =
     map_option (\<lambda>t. t\<lparr>trk_pending_sequences := [], trk_pending_segments := []\<rparr>) (main_of r)"
  by (simp add: fail_recording_def clear_pending_def main_of_def map_of_clear)

lemma fail_gaps: "rec_gaps (fail_recording now StorageCommit r) = rec_gaps r"
  by (simp add: fail_recording_def clear_pending_def)

lemma fail_storage_inv:
  assumes "recorder_inv st"
  shows "recorder_inv (st\<lparr>cs_recording := fail_recording now StorageCommit (cs_recording st)\<rparr>)"
    "main_settled (st\<lparr>cs_recording := fail_recording now StorageCommit (cs_recording st)\<rparr>) ep x = main_settled st ep x"
proof -
  show "recorder_inv (st\<lparr>cs_recording := fail_recording now StorageCommit (cs_recording st)\<rparr>)"
    using assms by (auto simp: recorder_inv_def commit_inv_def main_of_storage_failure fail_gaps archive_ok_def split: option.splits)
  show "main_settled (st\<lparr>cs_recording := fail_recording now StorageCommit (cs_recording st)\<rparr>) ep x = main_settled st ep x"
    by (auto simp: main_settled_def main_of_storage_failure fail_gaps is_captured_def captured_sequence_set_def split: option.splits)
qed

lemma recorder_step_inv:
  assumes "recorder_step st st'" "recorder_inv st"
  shows "recorder_inv st' \<and> (main_settled st ep x \<longrightarrow> main_settled st' ep x) \<and>
    (main_accounted st ep x \<longrightarrow> main_accounted st' ep x \<or>
       (main_pending st ep x \<and> (\<exists>now. st' = st\<lparr>cs_recording := fail_recording now StorageCommit (cs_recording st)\<rparr>)))"
  using assms
proof (cases rule: recorder_step.cases)
  case capture
  then show ?thesis using capture_step_inv assms(2) by blast
next
  case (fail now err)
  show ?thesis
  proof (cases "err = StorageCommit")
    case True
    then show ?thesis
      using fail fail_storage_inv [OF assms(2), of now] accounted_cases by metis
  next
    case False
    then show ?thesis
      using fail fail_other_inv [OF False assms(2)] by blast
  qed
qed

lemma recorder_run_inv:
  assumes "recorder_step\<^sup>*\<^sup>* st st'" "recorder_inv st"
  shows "recorder_inv st' \<and> (main_settled st ep x \<longrightarrow> main_settled st' ep x)"
  using assms by (induction rule: rtranclp_induct) (use recorder_step_inv in blast)+

text \<open>\<open>lost_to_storage st st' ep x\<close>: somewhere on the way the storage commit failed while the sequence was pending.\<close>

definition lost_to_storage :: "commit_state \<Rightarrow> commit_state \<Rightarrow> u64 \<Rightarrow> u64 \<Rightarrow> bool" where
  "lost_to_storage st st' ep x \<longleftrightarrow> (\<exists>s now. recorder_step\<^sup>*\<^sup>* st s \<and> main_pending s ep x \<and>
     recorder_step\<^sup>*\<^sup>* (s\<lparr>cs_recording := fail_recording now StorageCommit (cs_recording s)\<rparr>) st')"

lemma recorder_run_accounted:
  assumes "recorder_step\<^sup>*\<^sup>* st st'" "recorder_inv st" "main_accounted st ep x"
  shows "main_accounted st' ep x \<or> lost_to_storage st st' ep x"
  using assms(1)
proof (induction rule: rtranclp_induct)
  case (step s s')
  have inv: "recorder_inv s"
    using recorder_run_inv [OF step.hyps(1) assms(2)] by blast
  show ?case
    using step.IH
  proof
    assume "main_accounted s ep x"
    then show ?thesis
      using recorder_step_inv [OF step.hyps(2) inv] step.hyps(1) by (auto simp: lost_to_storage_def)
  next
    assume "lost_to_storage st s ep x"
    then show ?thesis
      using step.hyps(2) by (auto simp: lost_to_storage_def intro: rtranclp.rtrancl_into_rtrancl)
  qed
qed (use assms(3) in simp)

section \<open>Properties\<close>

lemma sample_recorder_inv: "recorder_inv sample_commit"
  using sample_commit_inv(1) by (simp add: recorder_inv_def sample_commit_def gaps_wf_def)


lemma sample_run: "recorder_step\<^sup>*\<^sup>* sample_commit
    (sample_commit\<lparr>cs_recording := finalize_pending 9 ''stop'' sample_recording\<rparr>)"
  using r_into_rtranclp [of recorder_step, OF capture [OF finish [of sample_commit 9 "''stop''"]]] by (simp add: sample_commit_def)

lemma sample_accounted: "main_accounted sample_commit 1 6"
  by (simp add: main_accounted_def sample_commit_def main_of_def accounted_def is_pending_def sample_track_def)


text \<open>C3: The archive keeps its order and its markers.  In every reachable state the segments of the main
  track have distinct identifiers, sequence numbers (per epoch) and ordinals, are sorted by ordinal and
  lie below the next ordinal; and in every epoch after the first the segment that comes first in the
  archive carries the discontinuity, although segments are committed out of order and a restart
  forgets which one it was.\<close>

theorem run_keeps_archive:
  assumes "recorder_step\<^sup>*\<^sup>* st st'" "recorder_inv st" "main_of (cs_recording st') = Some t"
  shows "archive_ok t \<and> leaders_marked (trk_segments t)"
  using recorder_run_inv [OF assms(1,2), of 0 0] assms(3) by (simp add: recorder_inv_def commit_inv_def)

theorem run_keeps_archive_witness:
  "case main_of (finalize_pending 9 ''stop'' sample_recording) of
     None \<Rightarrow> True | Some t \<Rightarrow> archive_ok t \<and> leaders_marked (trk_segments t)"
  using run_keeps_archive [OF sample_run sample_recorder_inv] by (auto split: option.split)

end
