(* ===== verification/Go_Encoding.thy ===== *)
theory Go_Encoding
  imports Go_Prelude
begin

text \<open>
  The encodings of the standard library the program relies on, as functions on bytes: UTF-8 validity
  (\<^verbatim>\<open>unicode/utf8\<close>), lower-case hexadecimal (\<^verbatim>\<open>encoding/hex\<close>), unpadded URL-safe base64
  (\<^verbatim>\<open>base64.RawURLEncoding\<close>) and signed decimals (\<^verbatim>\<open>strconv\<close>), each with its round trip.
\<close>

section \<open>UTF-8\<close>

abbreviation byte :: "char \<Rightarrow> nat" where
  "byte c \<equiv> of_char c"

definition cont_byte :: "char \<Rightarrow> bool" where
  "cont_byte c \<longleftrightarrow> 0x80 \<le> byte c \<and> byte c \<le> 0xBF"

text \<open>The second byte of a sequence is narrower after E0, ED, F0 and F4: no overlong form, no surrogate and
  nothing above U+10FFFF.\<close>

definition second_byte :: "char \<Rightarrow> char \<Rightarrow> bool" where
  "second_byte c d \<longleftrightarrow>
     (if byte c = 0xE0 then 0xA0 else if byte c = 0xF0 then 0x90 else 0x80) \<le> byte d \<and>
     byte d \<le> (if byte c = 0xED then 0x9F else if byte c = 0xF4 then 0x8F else 0xBF)"

definition sequence_length :: "char \<Rightarrow> nat" where
  "sequence_length c =
     (if byte c < 0x80 then 1 else if byte c < 0xC2 then 0 else if byte c < 0xE0 then 2
      else if byte c < 0xF0 then 3 else if byte c < 0xF5 then 4 else 0)"

fun utf8_valid :: "string \<Rightarrow> bool" where
  "utf8_valid [] \<longleftrightarrow> True"
| "utf8_valid (c # s) \<longleftrightarrow>
     (case sequence_length c of
        0 \<Rightarrow> False
      | Suc 0 \<Rightarrow> utf8_valid s
      | Suc (Suc n) \<Rightarrow> length s \<ge> Suc n \<and> second_byte c (hd s) \<and> list_all cont_byte (take (Suc n) s) \<and>
          utf8_valid (drop (Suc n) s))"

text \<open>unicode.IsControl: U+0000 to U+001F and U+007F to U+009F, the latter two bytes long from U+0080.\<close>

fun has_control :: "string \<Rightarrow> bool" where
  "has_control [] \<longleftrightarrow> False"
| "has_control (c # s) \<longleftrightarrow> byte c < 0x20 \<or> byte c = 0x7F \<or>
     (byte c = 0xC2 \<and> s \<noteq> [] \<and> 0x80 \<le> byte (hd s) \<and> byte (hd s) < 0xA0) \<or> has_control s"

text \<open>Converting a text to runes and back, as \<^verbatim>\<open>encoding/json\<close> does with every string it writes or reads: a byte
  that starts no well-formed sequence becomes U+FFFD.\<close>

definition replacement_char :: string where
  "replacement_char = [CHR 0xEF, CHR 0xBF, CHR 0xBD]"

definition rune_length :: "char \<Rightarrow> string \<Rightarrow> nat" where
  "rune_length c s =
     (case sequence_length c of
        0 \<Rightarrow> 0
      | Suc 0 \<Rightarrow> 1
      | Suc (Suc n) \<Rightarrow> if length s \<ge> Suc n \<and> second_byte c (hd s) \<and> list_all cont_byte (take (Suc n) s)
                      then Suc (Suc n) else 0)"

fun coerce_utf8 :: "string \<Rightarrow> string" where
  "coerce_utf8 [] = []"
| "coerce_utf8 (c # s) =
     (case rune_length c s of
        0 \<Rightarrow> replacement_char @ coerce_utf8 s
      | Suc n \<Rightarrow> (c # take n s) @ coerce_utf8 (drop n s))"

lemma coerce_utf8_valid [simp]: "utf8_valid s \<Longrightarrow> coerce_utf8 s = s"
  by (induction s rule: utf8_valid.induct) (auto simp: rune_length_def split: nat.splits)

lemma utf8_valid_graphic: "list_all graphic s \<Longrightarrow> utf8_valid s \<and> \<not> has_control s"
  by (induction s) (auto simp: graphic_def sequence_length_def)

section \<open>Hexadecimal\<close>

definition hex_digit :: "nat \<Rightarrow> char" where
  "hex_digit n = (if n < 10 then char_of (48 + n) else char_of (87 + n))"

definition hex_encode :: "string \<Rightarrow> string" where
  "hex_encode s = concat (map (\<lambda>c. [hex_digit (byte c div 16), hex_digit (byte c mod 16)]) s)"

lemma length_hex_encode [simp]: "length (hex_encode s) = 2 * length s"
  by (induction s) (simp_all add: hex_encode_def)

section \<open>Unpadded URL-safe base64\<close>

definition sextet_char :: "nat \<Rightarrow> char" where
  "sextet_char n =
     (if n < 26 then char_of (65 + n) else if n < 52 then char_of (71 + n) else if n < 62 then char_of (n - 4)
      else if n = 62 then CHR ''-'' else CHR ''_'')"

definition char_sextet :: "char \<Rightarrow> nat option" where
  "char_sextet c =
     (if 65 \<le> byte c \<and> byte c \<le> 90 then Some (byte c - 65)
      else if 97 \<le> byte c \<and> byte c \<le> 122 then Some (byte c - 71)
      else if 48 \<le> byte c \<and> byte c \<le> 57 then Some (byte c + 4)
      else if c = CHR ''-'' then Some 62 else if c = CHR ''_'' then Some 63 else None)"

text \<open>Three bytes are four groups of six bits; one or two trailing bytes are padded with zero bits.\<close>

fun base64_groups :: "string \<Rightarrow> nat list" where
  "base64_groups [] = []"
| "base64_groups [a] = (let n = byte a * 16 in [n div 64, n mod 64])"
| "base64_groups [a, b] =
     (let n = (byte a * 256 + byte b) * 4 in [n div 64 div 64, n div 64 mod 64, n mod 64])"
| "base64_groups (a # b # c # rest) =
     (let n = (byte a * 256 + byte b) * 256 + byte c
      in n div 64 div 64 div 64 # n div 64 div 64 mod 64 # n div 64 mod 64 # n mod 64 # base64_groups rest)"

definition base64_encode :: "string \<Rightarrow> string" where
  "base64_encode s = map sextet_char (base64_groups s)"

text \<open>Decoding skips line ends, refuses any other byte outside the alphabet and a single trailing group,
  and ignores the padding bits.\<close>

fun base64_bytes :: "nat list \<Rightarrow> string option" where
  "base64_bytes [] = Some []"
| "base64_bytes [p] = None"
| "base64_bytes [p, q] = Some [char_of ((p * 64 + q) div 16)]"
| "base64_bytes [p, q, r] =
     (let n = ((p * 64 + q) * 64 + r) div 4 in Some [char_of (n div 256), char_of (n mod 256)])"
| "base64_bytes (p # q # r # s # rest) =
     (let n = ((p * 64 + q) * 64 + r) * 64 + s
      in map_option (\<lambda>t. char_of (n div 256 div 256) # char_of (n div 256 mod 256) # char_of (n mod 256) # t)
           (base64_bytes rest))"

definition base64_decode :: "string \<Rightarrow> string option" where
  "base64_decode s =
     (let codes = map char_sextet (filter (\<lambda>c. c \<noteq> CHR 0x0D \<and> c \<noteq> CHR 0x0A) s)
      in if None \<in> set codes then None else base64_bytes (map the codes))"

lemma byte_less: "byte c < 256"
proof -
  have "byte c mod 256 < 256"
    by simp
  then show ?thesis
    by simp
qed

lemma sextet_char_inverse: "n < 64 \<Longrightarrow> char_sextet (sextet_char n) = Some n \<and> graphic (sextet_char n)"
proof -
  have "list_all (\<lambda>n. char_sextet (sextet_char n) = Some n \<and> graphic (sextet_char n)) [0..<64]"
    by (simp add: upt_rec sextet_char_def char_sextet_def graphic_def)
  then show "n < 64 \<Longrightarrow> ?thesis"
    by (simp add: list_all_iff)
qed

lemma byte_le: "byte c \<le> 255"
  using byte_less [of c] by linarith

lemma base256: "(m * 256 + byte c) div 256 = m" "(m * 256 + byte c) mod 256 = byte c"
  using byte_less [of c] by (simp_all add: mod_less [OF byte_less])

lemma div_less_64: "n < 64 * m \<Longrightarrow> n div 64 < m" for n m :: nat
  by (simp add: less_mult_imp_div_less mult.commute)

lemma base64_groups_small: "list_all (\<lambda>n. n < 64) (base64_groups s)"
proof (induction s rule: base64_groups.induct)
  case (2 a)
  have "byte a * 16 < 64 * 64"
    using byte_le [of a] by linarith
  then have "byte a * 16 div 64 < 64"
    by (rule div_less_64)
  then show ?case
    unfolding base64_groups.simps Let_def list.pred_inject by simp
next
  case (3 a b)
  have "(byte a * 256 + byte b) * 4 < 262144"
    using byte_le [of a] byte_le [of b] by simp
  then have "(byte a * 256 + byte b) * 4 div 64 div 64 < 64"
    by (intro div_less_64) simp
  then show ?case
    unfolding base64_groups.simps Let_def list.pred_inject by simp
next
  case (4 a b c rest)
  have "(byte a * 256 + byte b) * 256 + byte c < 16777216"
    using byte_le [of a] byte_le [of b] byte_le [of c] by simp
  then have "((byte a * 256 + byte b) * 256 + byte c) div 64 div 64 div 64 < 64"
    by (intro div_less_64) simp
  then show ?case
    using 4 unfolding base64_groups.simps Let_def list.pred_inject by simp
qed simp

lemma base64_regroup:
  "n div 64 * 64 + n mod 64 = n" "n div 64 div 64 * 64 + n div 64 mod 64 = n div 64"
  "n div 64 div 64 div 64 * 64 + n div 64 div 64 mod 64 = n div 64 div 64" for n :: nat
  by (rule div_mult_mod_eq)+

lemma base64_bytes_groups: "base64_bytes (base64_groups s) = Some s"
proof (induction s rule: base64_groups.induct)
  case (2 a)
  show ?case
    unfolding base64_groups.simps Let_def base64_bytes.simps base64_regroup by simp
next
  case (3 a b)
  have "(byte a * 256 + byte b) * 4 div 4 = byte a * 256 + byte b"
    by (rule nonzero_mult_div_cancel_right) simp
  then show ?case
    unfolding base64_groups.simps Let_def base64_bytes.simps base64_regroup
    by (simp only: base256 char_of_char)
next
  case (4 a b c rest)
  then show ?case
    unfolding base64_groups.simps Let_def base64_bytes.simps base64_regroup base256
    by (simp only: char_of_char option.map)
qed simp

lemma base64_roundtrip: "base64_decode (base64_encode s) = Some s"
proof -
  have codes: "map char_sextet (map sextet_char ns) = map Some ns"
    "filter (\<lambda>c. c \<noteq> CHR 0x0D \<and> c \<noteq> CHR 0x0A) (map sextet_char ns) = map sextet_char ns"
    if "list_all (\<lambda>n. n < 64) ns" for ns
  proof -
    have "\<not> graphic CHR 0x0D" "\<not> graphic CHR 0x0A"
      by (simp_all add: graphic_def)
    then show "map char_sextet (map sextet_char ns) = map Some ns"
      "filter (\<lambda>c. c \<noteq> CHR 0x0D \<and> c \<noteq> CHR 0x0A) (map sextet_char ns) = map sextet_char ns"
      using that sextet_char_inverse by (auto simp: list_all_iff filter_id_conv) metis+
  qed
  show ?thesis
    by (simp only: base64_decode_def base64_encode_def codes [OF base64_groups_small] Let_def)
      (simp add: base64_bytes_groups comp_def)
qed

lemma length_base64: "length (base64_groups s) = (4 * length s + 2) div 3"
  by (induction s rule: base64_groups.induct) (simp_all add: Let_def)

lemma length_base64_encode: "length (base64_encode s) = (4 * length s + 2) div 3"
  by (simp add: base64_encode_def length_base64)

lemma base64_encode_graphic: "list_all graphic (base64_encode s)"
  using base64_groups_small [of s] sextet_char_inverse by (auto simp: base64_encode_def list_all_iff)

section \<open>Signed decimals\<close>

definition format_int64 :: "int \<Rightarrow> string" where
  "format_int64 n = (if n < 0 then CHR ''-'' # dec_nat (nat (- n)) else dec_nat (nat n))"

text \<open>strconv.ParseInt(s, 10, 64).\<close>

definition parse_int64 :: "string \<Rightarrow> int option" where
  "parse_int64 s =
     (let neg = (s \<noteq> [] \<and> hd s = CHR ''-''); body = (if s \<noteq> [] \<and> hd s \<in> {CHR ''-'', CHR ''+''} then tl s else s)
      in case parse_uint 64 body of
           None \<Rightarrow> None
         | Some n \<Rightarrow> if neg then (if 2 ^ 63 < n then None else Some (- int n))
                     else (if 2 ^ 63 \<le> n then None else Some (int n)))"

lemma parse_int64_bounds: "parse_int64 s = Some n \<Longrightarrow> - (2 ^ 63) \<le> n \<and> n < 2 ^ 63"
  by (auto simp: parse_int64_def Let_def split: option.splits if_splits)

lemma dec_nat_hd: "is_digit (hd (dec_nat n))"
  using dec_nat_digits [of n] dec_nat_nonempty [of n] by (cases "dec_nat n") auto

lemma parse_format_int64:
  assumes "- (2 ^ 63) \<le> n" "n < 2 ^ 63"
  shows "parse_int64 (format_int64 n) = Some n"
proof (cases "n < 0")
  case True
  then have "parse_uint 64 (dec_nat (nat (- n))) = Some (nat (- n))"
    using assms by (intro parse_uint_dec_nat) (simp add: nat_less_iff)
  moreover have "\<not> 2 ^ 63 < nat (- n)"
    using assms by (simp add: zless_nat_eq_int_zless)
  ultimately show ?thesis
    using True by (simp add: parse_int64_def format_int64_def)
next
  case False
  then have "parse_uint 64 (dec_nat (nat n)) = Some (nat n)"
    using assms by (intro parse_uint_dec_nat) (simp add: nat_less_iff)
  moreover have "nat n < 2 ^ 63"
    using assms False by (simp add: nat_less_iff)
  moreover have "hd (dec_nat (nat n)) \<noteq> CHR ''-''" "hd (dec_nat (nat n)) \<noteq> CHR ''+''"
    using dec_nat_hd [of "nat n"] by (auto simp: is_digit_def less_eq_char_def)
  ultimately show ?thesis
    using False by (simp add: parse_int64_def format_int64_def)
qed

lemma parse_int64_dec_nat [simp]: "n < 2 ^ 63 \<Longrightarrow> parse_int64 (dec_nat n) = Some (int n)"
  using parse_format_int64 [of "int n"] by (simp add: format_int64_def)

end
