(* ===== verification/Generation_Registry.thy ===== *)
theory Generation_Registry
  imports Go_Encoding
begin

text \<open>
  The Runtime Host's generation registry, \<^verbatim>\<open>internal/runtimehost/generation/registry.go\<close>: the
  lifecycle of installed application generations, the active, previous and staged pointers, and the
  recordings leased to Engine generations.  Every operation is a function on the snapshot with the
  error it may return; \<open>registry_change\<close> is the common path that clones, mutates, validates and
  persists.  The result of the disk write is an argument.  Of the JSON codec the model has what a round trip changes:
  texts are coerced to valid UTF-8 (\<open>stored_snapshot\<close>).  That it preserves everything else, the limit on the size of
  the file and its permissions are not modelled; the maps' iteration order is the list order.
\<close>

section \<open>State\<close>

datatype gen_state =
    StateStaging | StateVerified | StateReady | StateActive | StateDraining | StateRetired | StateFailed
  | UnknownState string

record compatibility_range =
  cr_minimum :: int
  cr_maximum :: int

record generation =
  gen_id :: string
  gen_version :: string
  gen_commit :: string
  gen_adapter_set_id :: string
  gen_storage_provider_set_id :: string
  gen_installed_at :: instant
  gen_state :: gen_state
  gen_engine_dormant :: bool
  gen_control_protocol :: int
  gen_engine_protocol :: int
  gen_archive_read :: compatibility_range
  gen_archive_write_epoch :: int

record lease =
  ls_recording_id :: string
  ls_engine_generation :: string
  ls_worker_instance :: string
  ls_started_at :: instant

record inventory_recording =
  ir_recording_id :: string
  ir_started_at :: instant

record engine_inventory =
  ei_confirmed :: bool
  ei_engine_generation :: string
  ei_worker_instance :: string
  ei_observed_at :: instant
  ei_recordings :: "inventory_recording list"

record reg_snapshot =
  rs_schema_version :: int
  rs_active :: string
  rs_previous :: string
  rs_activation_previous :: string
  rs_staged :: string
  rs_generations :: "(string, generation) gomap"
  rs_leases :: "(string, lease) gomap"

datatype reg_error =
    ErrInvalidState string
  | ErrInvalidTransition string
  | ErrGenerationExists
  | ErrGenerationNotFound
  | ErrLeaseExists
  | ErrLeaseNotFound
  | ErrLeaseMismatch
  | ErrInvalidInventory string
  | ErrPersist
  | ErrHook

definition reg_schema_version :: int where "reg_schema_version = 1"
definition max_generations :: nat where "max_generations = 256"
definition max_leases :: nat where "max_leases = 10000"

definition empty_reg_snapshot :: reg_snapshot where
  "empty_reg_snapshot = \<lparr>rs_schema_version = reg_schema_version, rs_active = [], rs_previous = [],
     rs_activation_previous = [], rs_staged = [], rs_generations = [], rs_leases = []\<rparr>"

section \<open>Validation\<close>

definition valid_gen_state :: "gen_state \<Rightarrow> bool" where
  "valid_gen_state s \<longleftrightarrow> (case s of UnknownState _ \<Rightarrow> False | _ \<Rightarrow> True)"

definition contains_any :: "string \<Rightarrow> string \<Rightarrow> bool" where
  "contains_any s chars \<longleftrightarrow> list_ex (\<lambda>c. c \<in> set chars) s"

definition path_chars :: string where
  "path_chars = [CHR ''/'', CHR 0x5C, CHR 0x00]"

definition validate_generation :: "generation \<Rightarrow> reg_error option" where
  "validate_generation g =
     (if \<not> opaque_id (gen_id g) \<or> trim_space (gen_version g) = [] \<or> 128 < length (gen_version g) \<or>
         contains_any (gen_version g) path_chars \<or>
         trim_space (gen_commit g) = [] \<or> 128 < length (gen_commit g) \<or>
         contains_any (gen_commit g) path_chars \<or>
         (gen_adapter_set_id g \<noteq> [] \<and> \<not> hex64 (gen_adapter_set_id g)) \<or>
         (gen_storage_provider_set_id g \<noteq> [] \<and> \<not> hex64 (gen_storage_provider_set_id g)) \<or>
         gen_installed_at g = 0 \<or> \<not> valid_gen_state (gen_state g) \<or>
         gen_control_protocol g < 1 \<or> gen_engine_protocol g < 1 \<or>
         cr_minimum (gen_archive_read g) < 1 \<or>
         cr_maximum (gen_archive_read g) < cr_minimum (gen_archive_read g) \<or>
         gen_archive_write_epoch g < 1
      then Some (ErrInvalidState ''generation metadata is invalid'') else None)"

definition validate_lease :: "lease \<Rightarrow> reg_error option" where
  "validate_lease l =
     (if \<not> opaque_id (ls_recording_id l) \<or> \<not> opaque_id (ls_engine_generation l) \<or>
         \<not> opaque_id (ls_worker_instance l) \<or> ls_started_at l = 0
      then Some (ErrInvalidState ''generation lease is invalid'') else None)"

fun check_inventory_recordings ::
    "instant \<Rightarrow> string list \<Rightarrow> inventory_recording list \<Rightarrow> reg_error option" where
  "check_inventory_recordings observed seen [] = None"
| "check_inventory_recordings observed seen (r # rest) =
     (if \<not> opaque_id (ir_recording_id r) \<or> ir_started_at r = 0 \<or> observed < ir_started_at r
      then Some (ErrInvalidInventory ''recording identity or timestamp is invalid'')
      else if ir_recording_id r \<in> set seen
      then Some (ErrInvalidInventory ''duplicate recording identifier'')
      else check_inventory_recordings observed (ir_recording_id r # seen) rest)"

definition validate_inventory :: "engine_inventory \<Rightarrow> reg_error option" where
  "validate_inventory ivt =
     (if \<not> ei_confirmed ivt \<or> \<not> opaque_id (ei_engine_generation ivt) \<or>
         \<not> opaque_id (ei_worker_instance ivt) \<or> ei_observed_at ivt = 0
      then Some (ErrInvalidInventory ''confirmation or engine identity is invalid'')
      else if max_leases < length (ei_recordings ivt)
      then Some (ErrInvalidInventory ''recording inventory limit reached'')
      else check_inventory_recordings (ei_observed_at ivt) [] (ei_recordings ivt))"

definition active_count :: "(string, generation) gomap \<Rightarrow> nat" where
  "active_count gens = length (filter (\<lambda>(_, g). gen_state g = StateActive) gens)"

definition lease_usable :: "(string, generation) gomap \<Rightarrow> lease \<Rightarrow> bool" where
  "lease_usable gens l \<longleftrightarrow>
     (case map_of gens (ls_engine_generation l) of
        None \<Rightarrow> False
      | Some g \<Rightarrow> (gen_state g = StateActive \<or> gen_state g = StateDraining) \<and> \<not> gen_engine_dormant g)"

definition state_at :: "(string, generation) gomap \<Rightarrow> string \<Rightarrow> gen_state option" where
  "state_at gens gid = map_option gen_state (map_of gens gid)"

definition validate_snapshot :: "reg_snapshot \<Rightarrow> reg_error option" where
  "validate_snapshot s =
     (let gens = rs_generations s; active = rs_active s; previous = rs_previous s;
          pending = rs_activation_previous s; staged = rs_staged s
      in if rs_schema_version s \<noteq> reg_schema_version \<or> max_generations < length gens \<or>
            max_leases < length (rs_leases s)
      then Some (ErrInvalidState ''registry schema or collection size is invalid'')
      else if list_ex (\<lambda>(gid, g). gid \<noteq> gen_id g \<or> validate_generation g \<noteq> None) gens
      then Some (ErrInvalidState ''generation map entry is invalid'')
      else if (active = []) \<noteq> (active_count gens = 0) \<or> 1 < active_count gens
      then Some (ErrInvalidState ''active generation pointer is inconsistent'')
      else if active \<noteq> [] \<and> state_at gens active \<noteq> Some StateActive
      then Some (ErrInvalidState ''active generation pointer is inconsistent'')
      else if previous \<noteq> [] \<and> (\<not> opaque_id previous \<or> state_at gens previous \<noteq> Some StateDraining \<or>
                previous = active)
      then Some (ErrInvalidState ''previous generation pointer is inconsistent'')
      else if pending \<noteq> [] \<and> (\<not> opaque_id pending \<or> state_at gens pending \<noteq> Some StateDraining \<or>
                pending = active \<or> pending = previous)
      then Some (ErrInvalidState ''pending activation rollback pointer is inconsistent'')
      else if pending \<noteq> [] \<and> (active = [] \<or> previous = [])
      then Some (ErrInvalidState ''pending activation lacks current and prior generations'')
      else if staged \<noteq> [] \<and> (\<not> opaque_id staged \<or>
                state_at gens staged \<notin> {Some StateStaging, Some StateVerified, Some StateReady})
      then Some (ErrInvalidState ''staged generation pointer is inconsistent'')
      else if list_ex (\<lambda>(gid, l). gid \<noteq> ls_recording_id l \<or> validate_lease l \<noteq> None) (rs_leases s)
      then Some (ErrInvalidState ''generation lease map entry is invalid'')
      else if list_ex (\<lambda>(_, l). \<not> lease_usable gens l) (rs_leases s)
      then Some (ErrInvalidState ''generation lease refers to an unavailable engine'')
      else if list_ex (\<lambda>(_, g). gen_engine_dormant g \<and> gen_state g \<noteq> StateDraining \<and>
                gen_state g \<noteq> StateRetired) gens
      then Some (ErrInvalidState ''dormant Engine generation state is invalid'')
      else None)"

section \<open>Lifecycle operations\<close>

abbreviation put_generation :: "string \<Rightarrow> generation \<Rightarrow> reg_snapshot \<Rightarrow> reg_snapshot" where
  "put_generation gid g s \<equiv> s\<lparr>rs_generations := AList.update gid g (rs_generations s)\<rparr>"

definition id_invalid :: reg_error where
  "id_invalid = ErrInvalidState ''generation identifier is invalid''"

definition leased :: "reg_snapshot \<Rightarrow> string \<Rightarrow> bool" where
  "leased s gid \<longleftrightarrow> list_ex (\<lambda>(_, l). ls_engine_generation l = gid) (rs_leases s)"

definition reg_stage :: "generation \<Rightarrow> reg_snapshot \<Rightarrow> reg_error + reg_snapshot" where
  "reg_stage g s =
     (case validate_generation g of
        Some e \<Rightarrow> Inl e
      | None \<Rightarrow>
          if gen_state g \<noteq> StateStaging
          then Inl (ErrInvalidTransition ''new generation must start in staging'')
          else if max_generations \<le> length (rs_generations s)
          then Inl (ErrInvalidState ''generation registry limit reached'')
          else if has_key (rs_generations s) (gen_id g) then Inl ErrGenerationExists
          else if rs_staged s \<noteq> []
          then Inl (ErrInvalidTransition ''another candidate is already staged'')
          else Inr ((put_generation (gen_id g) g s)\<lparr>rs_staged := gen_id g\<rparr>))"

definition state_name :: "gen_state \<Rightarrow> string" where
  "state_name s =
     (case s of StateStaging \<Rightarrow> ''staging'' | StateVerified \<Rightarrow> ''verified'' | StateReady \<Rightarrow> ''ready''
      | StateActive \<Rightarrow> ''active'' | StateDraining \<Rightarrow> ''draining'' | StateRetired \<Rightarrow> ''retired''
      | StateFailed \<Rightarrow> ''failed'' | UnknownState n \<Rightarrow> n)"

definition transition_candidate ::
    "string \<Rightarrow> gen_state \<Rightarrow> gen_state \<Rightarrow> reg_snapshot \<Rightarrow> reg_error + reg_snapshot" where
  "transition_candidate gid old new s =
     (if \<not> opaque_id gid then Inl id_invalid
      else case map_of (rs_generations s) gid of
        None \<Rightarrow> Inl ErrGenerationNotFound
      | Some g \<Rightarrow>
          if rs_staged s \<noteq> gid \<or> gen_state g \<noteq> old
          then Inl (ErrInvalidTransition
                 (''generation must be staged in '' @ [CHR 0x22] @ state_name old @ [CHR 0x22] @ '' state''))
          else Inr (put_generation gid (g\<lparr>gen_state := new\<rparr>) s))"

definition mark_verified :: "string \<Rightarrow> reg_snapshot \<Rightarrow> reg_error + reg_snapshot" where
  "mark_verified gid = transition_candidate gid StateStaging StateVerified"

definition mark_ready :: "string \<Rightarrow> reg_snapshot \<Rightarrow> reg_error + reg_snapshot" where
  "mark_ready gid = transition_candidate gid StateVerified StateReady"

definition reg_fail :: "string \<Rightarrow> reg_snapshot \<Rightarrow> reg_error + reg_snapshot" where
  "reg_fail gid s =
     (if \<not> opaque_id gid then Inl id_invalid
      else case map_of (rs_generations s) gid of
        None \<Rightarrow> Inl ErrGenerationNotFound
      | Some g \<Rightarrow>
          if rs_staged s \<noteq> gid \<or> gen_state g \<notin> {StateStaging, StateVerified, StateReady}
          then Inl (ErrInvalidTransition ''only a staged candidate can fail'')
          else Inr ((put_generation gid (g\<lparr>gen_state := StateFailed\<rparr>) s)\<lparr>rs_staged := []\<rparr>))"

text \<open>Reading a missing key of a Go map yields the zero value; the pointers never miss in a valid state.\<close>

definition zero_generation :: generation where
  "zero_generation = \<lparr>gen_id = [], gen_version = [], gen_commit = [], gen_adapter_set_id = [],
     gen_storage_provider_set_id = [], gen_installed_at = 0, gen_state = UnknownState [],
     gen_engine_dormant = False, gen_control_protocol = 0, gen_engine_protocol = 0,
     gen_archive_read = \<lparr>cr_minimum = 0, cr_maximum = 0\<rparr>, gen_archive_write_epoch = 0\<rparr>"

definition generation_at :: "reg_snapshot \<Rightarrow> string \<Rightarrow> generation" where
  "generation_at s gid = (case map_of (rs_generations s) gid of None \<Rightarrow> zero_generation | Some g \<Rightarrow> g)"

definition reg_activate :: "string \<Rightarrow> reg_snapshot \<Rightarrow> reg_error + reg_snapshot" where
  "reg_activate gid s =
     (if \<not> opaque_id gid then Inl id_invalid
      else case map_of (rs_generations s) gid of
        None \<Rightarrow> Inl ErrGenerationNotFound
      | Some candidate \<Rightarrow>
          if rs_staged s \<noteq> gid \<or> gen_state candidate \<noteq> StateReady
          then Inl (ErrInvalidTransition ''only the ready staged generation can be activated'')
          else
            let s1 = s\<lparr>rs_activation_previous := rs_previous s\<rparr>;
                s2 = (if rs_active s1 \<noteq> []
                      then (put_generation (rs_active s1)
                              ((generation_at s1 (rs_active s1))\<lparr>gen_state := StateDraining\<rparr>) s1)
                             \<lparr>rs_previous := rs_active s1\<rparr>
                      else s1)
            in Inr ((put_generation gid (candidate\<lparr>gen_state := StateActive, gen_engine_dormant := False\<rparr>) s2)
                      \<lparr>rs_active := gid, rs_staged := []\<rparr>))"

definition finalize_activation :: "string \<Rightarrow> reg_snapshot \<Rightarrow> reg_error + reg_snapshot" where
  "finalize_activation gid s =
     (if \<not> opaque_id gid then Inl id_invalid
      else if rs_active s \<noteq> gid
      then Inl (ErrInvalidTransition ''generation does not have a pending activation'')
      else Inr (s\<lparr>rs_activation_previous := []\<rparr>))"

definition abort_activation :: "string \<Rightarrow> string \<Rightarrow> reg_snapshot \<Rightarrow> reg_error + reg_snapshot" where
  "abort_activation candidate_id previous_id s =
     (if \<not> opaque_id candidate_id \<or> \<not> opaque_id previous_id then Inl id_invalid
      else if rs_active s \<noteq> candidate_id \<or> rs_previous s \<noteq> previous_id \<or> rs_activation_previous s = []
      then Inl (ErrInvalidTransition ''activation rollback does not match current generations'')
      else case (map_of (rs_generations s) candidate_id, map_of (rs_generations s) previous_id) of
        (Some candidate, Some previous) \<Rightarrow>
          if gen_state candidate \<noteq> StateActive \<or> gen_state previous \<noteq> StateDraining
          then Inl (ErrInvalidTransition ''activation rollback generation state is invalid'')
          else if leased s candidate_id
          then Inl (ErrInvalidTransition ''candidate generation already owns recordings'')
          else Inr ((put_generation previous_id
                       (previous\<lparr>gen_state := StateActive, gen_engine_dormant := False\<rparr>)
                       (put_generation candidate_id (candidate\<lparr>gen_state := StateFailed\<rparr>) s))
                      \<lparr>rs_active := previous_id, rs_previous := rs_activation_previous s,
                       rs_activation_previous := []\<rparr>)
      | _ \<Rightarrow> Inl (ErrInvalidTransition ''activation rollback generation state is invalid''))"

definition reg_rollback :: "reg_snapshot \<Rightarrow> reg_error + reg_snapshot" where
  "reg_rollback s =
     (if rs_activation_previous s \<noteq> []
      then Inl (ErrInvalidTransition ''generation activation is still in progress'')
      else case map_of (rs_generations s) (rs_previous s) of
        None \<Rightarrow> Inl (ErrInvalidTransition ''no draining previous generation is available'')
      | Some previous \<Rightarrow>
          if rs_previous s = [] \<or> gen_state previous \<noteq> StateDraining
          then Inl (ErrInvalidTransition ''no draining previous generation is available'')
          else if rs_active s = []
          then Inl (ErrInvalidTransition ''there is no active generation to roll back'')
          else Inr ((put_generation (rs_previous s)
                       (previous\<lparr>gen_state := StateActive, gen_engine_dormant := False\<rparr>)
                       (put_generation (rs_active s)
                          ((generation_at s (rs_active s))\<lparr>gen_state := StateDraining\<rparr>) s))
                      \<lparr>rs_active := rs_previous s, rs_previous := rs_active s\<rparr>))"

definition mark_engine_dormant :: "string \<Rightarrow> reg_snapshot \<Rightarrow> reg_error + reg_snapshot" where
  "mark_engine_dormant gid s =
     (if \<not> opaque_id gid then Inl id_invalid
      else case map_of (rs_generations s) gid of
        None \<Rightarrow> Inl ErrGenerationNotFound
      | Some g \<Rightarrow>
          if gen_state g \<noteq> StateDraining \<or> gid = rs_active s
          then Inl (ErrInvalidTransition ''only a non-active draining Engine can become dormant'')
          else if leased s gid
          then Inl (ErrInvalidTransition ''generation still has recording leases'')
          else Inr (put_generation gid (g\<lparr>gen_engine_dormant := True\<rparr>) s))"

definition reg_retire :: "string \<Rightarrow> reg_snapshot \<Rightarrow> reg_error + reg_snapshot" where
  "reg_retire gid s =
     (if \<not> opaque_id gid then Inl id_invalid
      else case map_of (rs_generations s) gid of
        None \<Rightarrow> Inl ErrGenerationNotFound
      | Some g \<Rightarrow>
          if gid = rs_active s \<or> gid = rs_previous s \<or> gid = rs_activation_previous s \<or>
             gen_state g \<notin> {StateDraining, StateFailed}
          then Inl (ErrInvalidTransition ''only a non-active draining or failed generation can retire'')
          else if leased s gid
          then Inl (ErrInvalidTransition ''generation still has recording leases'')
          else
            let s1 = put_generation gid (g\<lparr>gen_state := StateRetired, gen_engine_dormant := False\<rparr>) s
            in Inr (if rs_staged s1 = gid then s1\<lparr>rs_staged := []\<rparr> else s1))"

definition remove_retired :: "string \<Rightarrow> reg_snapshot \<Rightarrow> reg_error + reg_snapshot" where
  "remove_retired gid s =
     (if \<not> opaque_id gid then Inl id_invalid
      else case map_of (rs_generations s) gid of
        None \<Rightarrow> Inl ErrGenerationNotFound
      | Some g \<Rightarrow>
          if gen_state g \<noteq> StateRetired \<or> gid = rs_active s \<or> gid = rs_previous s \<or>
             gid = rs_activation_previous s \<or> gid = rs_staged s
          then Inl (ErrInvalidTransition ''generation is retained by the runtime'')
          else if leased s gid
          then Inl (ErrInvalidTransition ''generation still has recording leases'')
          else Inr (s\<lparr>rs_generations := AList.delete gid (rs_generations s)\<rparr>))"

section \<open>Lease operations\<close>

definition pin_recording :: "lease \<Rightarrow> reg_snapshot \<Rightarrow> reg_error + reg_snapshot" where
  "pin_recording l s =
     (case validate_lease l of
        Some e \<Rightarrow> Inl e
      | None \<Rightarrow>
          if has_key (rs_leases s) (ls_recording_id l) then Inl ErrLeaseExists
          else if max_leases \<le> length (rs_leases s)
          then Inl (ErrInvalidState ''generation lease limit reached'')
          else if ls_engine_generation l \<noteq> rs_active s
          then Inl (ErrInvalidTransition ''new recording must use the active engine generation'')
          else if state_at (rs_generations s) (ls_engine_generation l) \<noteq> Some StateActive
          then Inl (ErrInvalidTransition ''recording engine generation is not active'')
          else Inr (s\<lparr>rs_leases := AList.update (ls_recording_id l) l (rs_leases s)\<rparr>))"

definition same_lease :: "lease \<Rightarrow> lease \<Rightarrow> bool" where
  "same_lease a b \<longleftrightarrow> ls_recording_id a = ls_recording_id b \<and>
     ls_engine_generation a = ls_engine_generation b \<and>
     ls_worker_instance a = ls_worker_instance b \<and> ls_started_at a = ls_started_at b"

definition transfer_check :: "string \<Rightarrow> lease \<Rightarrow> lease \<Rightarrow> reg_error option" where
  "transfer_check message expected target =
     (case validate_lease expected of
        Some e \<Rightarrow> Some e
      | None \<Rightarrow> (case validate_lease target of
          Some e \<Rightarrow> Some e
        | None \<Rightarrow>
            if ls_recording_id expected \<noteq> ls_recording_id target \<or>
               ls_started_at expected \<noteq> ls_started_at target \<or> same_lease expected target
            then Some (ErrInvalidState message) else None))"

definition current_lease :: "lease \<Rightarrow> reg_snapshot \<Rightarrow> reg_error option" where
  "current_lease expected s =
     (case map_of (rs_leases s) (ls_recording_id expected) of
        None \<Rightarrow> Some ErrLeaseNotFound
      | Some current \<Rightarrow> if same_lease current expected then None else Some ErrLeaseMismatch)"

text \<open>\<open>hook_ok\<close> is the result of the test barrier \<^verbatim>\<open>runtimehook.Pause\<close>.\<close>

definition transfer_recording ::
    "bool \<Rightarrow> lease \<Rightarrow> lease \<Rightarrow> reg_snapshot \<Rightarrow> reg_error + reg_snapshot" where
  "transfer_recording hook_ok expected target s =
     (case transfer_check ''recording lease transfer is invalid'' expected target of
        Some e \<Rightarrow> Inl e
      | None \<Rightarrow> (case current_lease expected s of
          Some e \<Rightarrow> Inl e
        | None \<Rightarrow>
            (case map_of (rs_generations s) (ls_engine_generation expected) of
               None \<Rightarrow> Inl (ErrInvalidTransition ''recording source generation cannot transfer its lease'')
             | Some source \<Rightarrow>
                 if gen_engine_dormant source \<or>
                    gen_state source \<notin> {StateActive, StateDraining, StateFailed}
                 then Inl (ErrInvalidTransition ''recording source generation cannot transfer its lease'')
                 else (case map_of (rs_generations s) (ls_engine_generation target) of
                     None \<Rightarrow> Inl (ErrInvalidTransition ''recording target generation is not the active Engine'')
                   | Some destination \<Rightarrow>
                       if ls_engine_generation target \<noteq> rs_active s \<or> gen_state destination \<noteq> StateActive \<or>
                          gen_engine_dormant destination
                       then Inl (ErrInvalidTransition ''recording target generation is not the active Engine'')
                       else if \<not> hook_ok then Inl ErrHook
                       else Inr (s\<lparr>rs_leases := AList.update (ls_recording_id target) target (rs_leases s)\<rparr>)))))"

definition rollback_recording_transfer ::
    "lease \<Rightarrow> lease \<Rightarrow> reg_snapshot \<Rightarrow> reg_error + reg_snapshot" where
  "rollback_recording_transfer expected target s =
     (case transfer_check ''recording lease rollback is invalid'' expected target of
        Some e \<Rightarrow> Inl e
      | None \<Rightarrow> (case current_lease expected s of
          Some e \<Rightarrow> Inl e
        | None \<Rightarrow>
            (case map_of (rs_generations s) (ls_engine_generation expected) of
               None \<Rightarrow> Inl (ErrInvalidTransition ''recording rollback source is not the active Engine'')
             | Some source \<Rightarrow>
                 if gen_engine_dormant source \<or> gen_state source \<noteq> StateActive \<or>
                    rs_active s \<noteq> ls_engine_generation expected
                 then Inl (ErrInvalidTransition ''recording rollback source is not the active Engine'')
                 else (case map_of (rs_generations s) (ls_engine_generation target) of
                     None \<Rightarrow> Inl (ErrInvalidTransition
                               ''recording rollback destination is not a live draining Engine'')
                   | Some destination \<Rightarrow>
                       if gen_engine_dormant destination \<or> gen_state destination \<noteq> StateDraining \<or>
                          ls_engine_generation target = rs_active s
                       then Inl (ErrInvalidTransition
                               ''recording rollback destination is not a live draining Engine'')
                       else Inr (s\<lparr>rs_leases := AList.update (ls_recording_id target) target (rs_leases s)\<rparr>)))))"

definition release_recording :: "string \<Rightarrow> string \<Rightarrow> reg_snapshot \<Rightarrow> reg_error + reg_snapshot" where
  "release_recording recording_id expected s =
     (if \<not> opaque_id recording_id \<or> \<not> opaque_id expected
      then Inl (ErrInvalidState ''recording or generation identifier is invalid'')
      else case map_of (rs_leases s) recording_id of
        None \<Rightarrow> Inl ErrLeaseNotFound
      | Some l \<Rightarrow>
          if ls_engine_generation l \<noteq> expected then Inl ErrLeaseMismatch
          else Inr (s\<lparr>rs_leases := AList.delete recording_id (rs_leases s)\<rparr>))"

definition release_recording_owner ::
    "string \<Rightarrow> string \<Rightarrow> string \<Rightarrow> reg_snapshot \<Rightarrow> reg_error + reg_snapshot" where
  "release_recording_owner recording_id expected instance_id s =
     (if \<not> opaque_id recording_id \<or> \<not> opaque_id expected \<or> \<not> opaque_id instance_id
      then Inl (ErrInvalidState ''recording or engine owner identity is invalid'')
      else case map_of (rs_leases s) recording_id of
        None \<Rightarrow> Inl ErrLeaseNotFound
      | Some l \<Rightarrow>
          if ls_engine_generation l \<noteq> expected \<or> ls_worker_instance l \<noteq> instance_id
          then Inl ErrLeaseMismatch
          else Inr (s\<lparr>rs_leases := AList.delete recording_id (rs_leases s)\<rparr>))"

definition clear_leases :: "reg_snapshot \<Rightarrow> reg_error + reg_snapshot" where
  "clear_leases s = Inr (s\<lparr>rs_leases := []\<rparr>)"

definition reconcile_cold_start :: "string \<Rightarrow> reg_snapshot \<Rightarrow> reg_error + reg_snapshot" where
  "reconcile_cold_start active_id s =
     (if \<not> opaque_id active_id then Inl (ErrInvalidState ''active generation identifier is invalid'')
      else case map_of (rs_generations s) active_id of
        None \<Rightarrow> Inl ErrGenerationNotFound
      | Some active \<Rightarrow>
          if rs_active s \<noteq> active_id \<or> gen_state active \<noteq> StateActive
          then Inl (ErrInvalidTransition ''cold recovery generation is not active'')
          else Inr (s\<lparr>rs_leases := [],
                      rs_generations := map (\<lambda>(gid, g).
                        (gid, if gid \<noteq> active_id \<and> gen_state g = StateDraining
                             then g\<lparr>gen_engine_dormant := True\<rparr> else g)) (rs_generations s)\<rparr>))"

section \<open>Reconciling confirmed inventories\<close>

text \<open>
  The checking loop: \<open>seen_gens\<close> are the generations of the inventories checked so far, \<open>owners\<close> the
  recordings they list with their generation.
\<close>

fun check_owners ::
    "(string, lease) gomap \<Rightarrow> string \<Rightarrow> inventory_recording list \<Rightarrow> (string, string) gomap
       \<Rightarrow> reg_error + (string, string) gomap" where
  "check_owners leases gen [] owners = Inr owners"
| "check_owners leases gen (r # rest) owners =
     (case map_of owners (ir_recording_id r) of
        Some previous \<Rightarrow>
          if previous \<noteq> gen then Inl ErrLeaseMismatch
          else Inl (ErrInvalidInventory ''recording appears more than once'')
      | None \<Rightarrow>
          (case map_of leases (ir_recording_id r) of
             Some l \<Rightarrow> if ls_engine_generation l \<noteq> gen then Inl ErrLeaseMismatch
                       else check_owners leases gen rest (AList.update (ir_recording_id r) gen owners)
           | None \<Rightarrow> check_owners leases gen rest (AList.update (ir_recording_id r) gen owners)))"

fun check_inventories ::
    "reg_snapshot \<Rightarrow> engine_inventory list \<Rightarrow> string list \<Rightarrow> nat \<Rightarrow> (string, string) gomap
       \<Rightarrow> reg_error + string list \<times> (string, string) gomap" where
  "check_inventories s [] seen_gens n_listed owners = Inr (seen_gens, owners)"
| "check_inventories s (i # rest) seen_gens n_listed owners =
     (case validate_inventory i of
        Some e \<Rightarrow> Inl e
      | None \<Rightarrow>
          if ei_engine_generation i \<in> set seen_gens
          then Inl (ErrInvalidInventory ''duplicate engine generation inventory'')
          else (case map_of (rs_generations s) (ei_engine_generation i) of
              None \<Rightarrow> Inl ErrGenerationNotFound
            | Some g \<Rightarrow>
                if gen_state g \<notin> {StateActive, StateDraining} \<or> gen_engine_dormant g
                then Inl (ErrInvalidTransition ''recording inventory generation is not active or draining'')
                else
                  let n_listed' = n_listed + length (ei_recordings i)
                  in if max_leases < n_listed'
                     then Inl (ErrInvalidInventory ''recording inventory limit reached'')
                     else (case check_owners (rs_leases s) (ei_engine_generation i) (ei_recordings i) owners of
                         Inl e \<Rightarrow> Inl e
                       | Inr owners' \<Rightarrow>
                           check_inventories s rest (ei_engine_generation i # seen_gens) n_listed' owners')))"

definition inventory_leases :: "engine_inventory list \<Rightarrow> (string \<times> lease) list" where
  "inventory_leases inventories =
     concat (map (\<lambda>i. map (\<lambda>r. (ir_recording_id r,
         \<lparr>ls_recording_id = ir_recording_id r, ls_engine_generation = ei_engine_generation i,
          ls_worker_instance = ei_worker_instance i, ls_started_at = ir_started_at r\<rparr>))
       (ei_recordings i)) inventories)"

definition reconcile_inventories ::
    "engine_inventory list \<Rightarrow> reg_snapshot \<Rightarrow> reg_error + reg_snapshot" where
  "reconcile_inventories inventories s =
     (if max_generations < length inventories then Inl (ErrInvalidInventory ''too many engine inventories'')
      else case check_inventories s inventories [] 0 [] of
        Inl e \<Rightarrow> Inl e
      | Inr (seen_gens, owners) \<Rightarrow>
          let kept = filter (\<lambda>(gid, l). \<not> (ls_engine_generation l \<in> set seen_gens \<and> \<not> has_key owners gid))
                       (rs_leases s);
              leases = fold (\<lambda>(gid, l). AList.update gid l) (inventory_leases inventories) kept
          in if max_leases < length leases
             then Inl (ErrInvalidInventory ''generation lease limit reached'')
             else Inr (s\<lparr>rs_leases := leases\<rparr>))"

section \<open>The registry\<close>

text \<open>
  \<open>rg_state\<close> is the snapshot in memory, \<open>rg_disk\<close> the one that decoding the state file yields.  Persisting writes a
  temporary file, renames it and syncs the directory: a failure leaves the file as it was, unless only
  the final sync failed.  Encoding can refuse a snapshot as well (a date outside the years 0 to 9999, more than a
  megabyte of text), which is a failure before anything is written.

  \<^verbatim>\<open>json.Marshal\<close> replaces every byte of a text that is not valid UTF-8 by U+FFFD.  A validated snapshot has two texts
  that need not be ASCII, the version and the commit of a generation; the identifiers, digests and states are ASCII.
\<close>

definition stored_generation :: "generation \<Rightarrow> generation" where
  "stored_generation g = g\<lparr>gen_version := coerce_utf8 (gen_version g), gen_commit := coerce_utf8 (gen_commit g)\<rparr>"

definition stored_snapshot :: "reg_snapshot \<Rightarrow> reg_snapshot" where
  "stored_snapshot s = s\<lparr>rs_generations := map (\<lambda>(gid, g). (gid, stored_generation g)) (rs_generations s)\<rparr>"

datatype persist_outcome = Persisted | NotPersisted | RenamedNotSynced

record registry =
  rg_state :: reg_snapshot
  rg_disk :: reg_snapshot

definition registry_change ::
    "persist_outcome \<Rightarrow> (reg_snapshot \<Rightarrow> reg_error + reg_snapshot) \<Rightarrow> registry
       \<Rightarrow> reg_error option \<times> registry" where
  "registry_change outcome mutate r =
     (case mutate (rg_state r) of
        Inl e \<Rightarrow> (Some e, r)
      | Inr next_state \<Rightarrow>
          (case validate_snapshot next_state of
             Some e \<Rightarrow> (Some e, r)
           | None \<Rightarrow>
               (case outcome of
                  Persisted \<Rightarrow> (None, \<lparr>rg_state = next_state, rg_disk = stored_snapshot next_state\<rparr>)
                | NotPersisted \<Rightarrow> (Some ErrPersist, r)
                | RenamedNotSynced \<Rightarrow> (Some ErrPersist, r\<lparr>rg_disk := stored_snapshot next_state\<rparr>))))"

definition open_registry :: "reg_snapshot option \<Rightarrow> bool \<Rightarrow> reg_error + registry" where
  "open_registry file persist_ok =
     (case file of
        None \<Rightarrow> if persist_ok then Inr \<lparr>rg_state = empty_reg_snapshot, rg_disk = empty_reg_snapshot\<rparr>
                else Inl ErrPersist
      | Some s \<Rightarrow> (case validate_snapshot s of
          Some e \<Rightarrow> Inl e
        | None \<Rightarrow> Inr \<lparr>rg_state = s, rg_disk = s\<rparr>))"

datatype registry_op =
    Stage generation
  | MarkVerified string
  | MarkReady string
  | Fail string
  | Activate string
  | FinalizeActivation string
  | AbortActivation string string
  | Rollback
  | MarkEngineDormant string
  | PinRecording lease
  | TransferRecording bool lease lease
  | RollbackRecordingTransfer lease lease
  | ReleaseRecording string string
  | ReleaseRecordingOwner string string string
  | ClearLeases
  | ReconcileColdStart string
  | ReconcileInventories "engine_inventory list"
  | Retire string
  | RemoveRetired string

fun registry_mutation :: "registry_op \<Rightarrow> reg_snapshot \<Rightarrow> reg_error + reg_snapshot" where
  "registry_mutation (Stage g) = reg_stage g"
| "registry_mutation (MarkVerified gid) = mark_verified gid"
| "registry_mutation (MarkReady gid) = mark_ready gid"
| "registry_mutation (Fail gid) = reg_fail gid"
| "registry_mutation (Activate gid) = reg_activate gid"
| "registry_mutation (FinalizeActivation gid) = finalize_activation gid"
| "registry_mutation (AbortActivation c p) = abort_activation c p"
| "registry_mutation Rollback = reg_rollback"
| "registry_mutation (MarkEngineDormant gid) = mark_engine_dormant gid"
| "registry_mutation (PinRecording l) = pin_recording l"
| "registry_mutation (TransferRecording hook e t) = transfer_recording hook e t"
| "registry_mutation (RollbackRecordingTransfer e t) = rollback_recording_transfer e t"
| "registry_mutation (ReleaseRecording r g) = release_recording r g"
| "registry_mutation (ReleaseRecordingOwner r g i) = release_recording_owner r g i"
| "registry_mutation ClearLeases = clear_leases"
| "registry_mutation (ReconcileColdStart gid) = reconcile_cold_start gid"
| "registry_mutation (ReconcileInventories ivs) = reconcile_inventories ivs"
| "registry_mutation (Retire gid) = reg_retire gid"
| "registry_mutation (RemoveRetired gid) = remove_retired gid"

text \<open>An empty batch of inventories returns before the registry is touched.\<close>

definition registry_apply ::
    "registry \<Rightarrow> persist_outcome \<times> registry_op \<Rightarrow> reg_error option \<times> registry" where
  "registry_apply r p =
     (if snd p = ReconcileInventories [] then (None, r)
      else registry_change (fst p) (registry_mutation (snd p)) r)"

section \<open>What a valid snapshot satisfies\<close>

named_theorems registry_simps \<open>lookups in updated generation and lease maps\<close>

lemma state_at_update [registry_simps]: "state_at (AList.update k g gens) = (state_at gens)(k \<mapsto> gen_state g)"
  by (simp add: fun_eq_iff state_at_def)

lemma state_at_delete [registry_simps]: "state_at (AList.delete k gens) = (state_at gens)(k := None)"
  by (simp add: fun_eq_iff state_at_def)

lemma active_count_card:
  "gomap_ok gens \<Longrightarrow> active_count gens = card {k. state_at gens k = Some StateActive}"
proof (induction gens)
  case (Cons kg gens)
  obtain k g where kg: "kg = (k, g)" by (cases kg)
  have fresh: "state_at gens k = None"
    using Cons.prems by (simp add: kg state_at_def map_of_eq_None_iff)
  have split: "{k'. state_at (kg # gens) k' = Some StateActive} =
      (if gen_state g = StateActive then insert k {k'. state_at gens k' = Some StateActive}
       else {k'. state_at gens k' = Some StateActive})"
    using fresh by (auto simp: kg state_at_def)
  have "finite {k'. state_at gens k' = Some StateActive}"
    by (rule finite_subset [of _ "dom (map_of gens)"]) (auto simp: state_at_def finite_dom_map_of)
  then show ?case
    using Cons fresh unfolding split by (simp add: kg active_count_def)
qed (simp add: active_count_def state_at_def)

definition entry_ok :: "string \<Rightarrow> generation \<Rightarrow> bool" where
  "entry_ok gid g \<longleftrightarrow> gid = gen_id g \<and> validate_generation g = None \<and>
     (gen_engine_dormant g \<longrightarrow> gen_state g = StateDraining \<or> gen_state g = StateRetired)"

definition lease_ok :: "string \<Rightarrow> lease \<Rightarrow> bool" where
  "lease_ok rid l \<longleftrightarrow> rid = ls_recording_id l \<and> validate_lease l = None"

definition candidate_states :: "gen_state option set" where
  "candidate_states = {Some StateStaging, Some StateVerified, Some StateReady}"

text \<open>
  The invariant of the registry as facts about lookups: the maps are well formed, the pointers agree
  with the states they name, and every lease refers to a live Engine.
\<close>

definition maps_ok :: "reg_snapshot \<Rightarrow> bool" where
  "maps_ok s \<longleftrightarrow> gomap_ok (rs_generations s) \<and> gomap_ok (rs_leases s) \<and>
     rs_schema_version s = reg_schema_version \<and>
     length (rs_generations s) \<le> max_generations \<and> length (rs_leases s) \<le> max_leases \<and>
     (\<forall>gid g. map_of (rs_generations s) gid = Some g \<longrightarrow> entry_ok gid g)"

definition pointers_ok ::
    "(string \<Rightarrow> gen_state option) \<Rightarrow> string \<Rightarrow> string \<Rightarrow> string \<Rightarrow> string \<Rightarrow> bool" where
  "pointers_ok st active previous pending staged \<longleftrightarrow>
     (\<forall>gid. st gid = Some StateActive \<longleftrightarrow> gid = active \<and> active \<noteq> []) \<and>
     (previous \<noteq> [] \<longrightarrow> st previous = Some StateDraining \<and> active \<noteq> []) \<and>
     (pending \<noteq> [] \<longrightarrow> st pending = Some StateDraining \<and> pending \<noteq> previous \<and> previous \<noteq> []) \<and>
     (staged \<noteq> [] \<longrightarrow> st staged \<in> candidate_states)"

definition leases_ok :: "(string, generation) gomap \<Rightarrow> (string, lease) gomap \<Rightarrow> bool" where
  "leases_ok gens leases \<longleftrightarrow>
     (\<forall>rid l. map_of leases rid = Some l \<longrightarrow> lease_ok rid l \<and> lease_usable gens l)"

definition reg_inv :: "reg_snapshot \<Rightarrow> bool" where
  "reg_inv s \<longleftrightarrow> maps_ok s \<and>
     pointers_ok (state_at (rs_generations s)) (rs_active s) (rs_previous s) (rs_activation_previous s) (rs_staged s) \<and>
     leases_ok (rs_generations s) (rs_leases s)"

lemma entry_ok_opaque: "entry_ok gid g \<Longrightarrow> opaque_id gid"
  by (auto simp: entry_ok_def validate_generation_def split: if_splits)

lemma reg_inv_entry: "reg_inv s \<Longrightarrow> map_of (rs_generations s) gid = Some g \<Longrightarrow> entry_ok gid g"
  by (simp add: reg_inv_def maps_ok_def)

lemma state_atE:
  assumes "state_at gens gid = Some st"
  obtains g where "map_of gens gid = Some g" "gen_state g = st"
  using assms by (auto simp: state_at_def)

lemma reg_inv_keys: "reg_inv s \<Longrightarrow> state_at (rs_generations s) gid = Some st \<Longrightarrow> opaque_id gid"
  using entry_ok_opaque reg_inv_entry by (blast elim: state_atE)

lemma pointers_differ:
  assumes "pointers_ok st active previous pending staged"
  shows "previous \<noteq> [] \<Longrightarrow> previous \<noteq> active" "pending \<noteq> [] \<Longrightarrow> pending \<noteq> active"
    "staged \<noteq> [] \<Longrightarrow> staged \<noteq> active" "active \<noteq> [] \<Longrightarrow> st active = Some StateActive"
proof -
  have at: "st gid = Some StateActive \<longleftrightarrow> gid = active \<and> active \<noteq> []" for gid
    using assms by (simp add: pointers_ok_def)
  show "active \<noteq> [] \<Longrightarrow> st active = Some StateActive"
    using at by simp
  have no: "gid \<noteq> active" if "st gid = Some st'" "st' \<noteq> StateActive" "gid \<noteq> []" for gid st'
    using at [of gid] that by auto
  have "previous \<noteq> [] \<Longrightarrow> st previous = Some StateDraining" "pending \<noteq> [] \<Longrightarrow> st pending = Some StateDraining"
    "staged \<noteq> [] \<Longrightarrow> st staged \<in> candidate_states"
    using assms unfolding pointers_ok_def by blast+
  then show "previous \<noteq> [] \<Longrightarrow> previous \<noteq> active" "pending \<noteq> [] \<Longrightarrow> pending \<noteq> active"
    "staged \<noteq> [] \<Longrightarrow> staged \<noteq> active"
    using no unfolding candidate_states_def by blast+
qed

lemma validate_snapshot_reg_inv:
  assumes "reg_inv s"
  shows "validate_snapshot s = None"
proof -
  have I: "maps_ok s" "leases_ok (rs_generations s) (rs_leases s)"
    and P: "pointers_ok (state_at (rs_generations s)) (rs_active s) (rs_previous s) (rs_activation_previous s) (rs_staged s)"
    using assms by (simp_all add: reg_inv_def)
  have "{k. state_at (rs_generations s) k = Some StateActive} = (if rs_active s = [] then {} else {rs_active s})"
    using P by (auto simp: pointers_ok_def)
  then have count: "active_count (rs_generations s) = (if rs_active s = [] then 0 else 1)"
    using I(1) by (simp add: active_count_card maps_ok_def)
  have keys: "state_at (rs_generations s) gid = Some st \<Longrightarrow> opaque_id gid" for gid st
    by (rule reg_inv_keys [OF assms])
  have prev: "rs_previous s \<noteq> [] \<Longrightarrow> opaque_id (rs_previous s) \<and>
      state_at (rs_generations s) (rs_previous s) = Some StateDraining"
    and pend: "rs_activation_previous s \<noteq> [] \<Longrightarrow> opaque_id (rs_activation_previous s) \<and>
      state_at (rs_generations s) (rs_activation_previous s) = Some StateDraining \<and>
      rs_activation_previous s \<noteq> rs_previous s \<and> rs_active s \<noteq> [] \<and> rs_previous s \<noteq> []"
    and staged: "rs_staged s \<noteq> [] \<Longrightarrow> opaque_id (rs_staged s) \<and>
      state_at (rs_generations s) (rs_staged s) \<in> {Some StateStaging, Some StateVerified, Some StateReady}"
    using P keys by (auto simp: pointers_ok_def candidate_states_def)
  have gens: "\<not> list_ex (\<lambda>(gid, g). gid \<noteq> gen_id g \<or> validate_generation g \<noteq> None) (rs_generations s)"
    "\<not> list_ex (\<lambda>(_, g). gen_engine_dormant g \<and> gen_state g \<noteq> StateDraining \<and> gen_state g \<noteq> StateRetired)
        (rs_generations s)"
    using I(1) by (auto simp: list_ex_gomap entry_ok_def maps_ok_def)
  have leases: "\<not> list_ex (\<lambda>(rid, l). rid \<noteq> ls_recording_id l \<or> validate_lease l \<noteq> None) (rs_leases s)"
    "\<not> list_ex (\<lambda>(_, l). \<not> lease_usable (rs_generations s) l) (rs_leases s)"
    using I by (auto simp: list_ex_gomap lease_ok_def leases_ok_def maps_ok_def)
  have sizes: "\<not> (rs_schema_version s \<noteq> reg_schema_version \<or> max_generations < length (rs_generations s) \<or>
      max_leases < length (rs_leases s))"
    using I(1) by (simp add: maps_ok_def)
  show ?thesis
    unfolding validate_snapshot_def Let_def if_not_P [OF sizes] if_not_P [OF gens(1)] if_not_P [OF gens(2)]
      if_not_P [OF leases(1)] if_not_P [OF leases(2)] count
    using prev pend staged pointers_differ [OF P] by auto
qed

section \<open>Every operation keeps the invariant\<close>

lemma entry_ok_state:
  "entry_ok gid g \<Longrightarrow> valid_gen_state st \<Longrightarrow> (gen_engine_dormant g \<Longrightarrow> st = StateDraining \<or> st = StateRetired) \<Longrightarrow>
     entry_ok gid (g\<lparr>gen_state := st\<rparr>)"
  by (auto simp: entry_ok_def validate_generation_def split: if_splits)

lemma entry_ok_wake:
  "entry_ok gid g \<Longrightarrow> valid_gen_state st \<Longrightarrow> entry_ok gid (g\<lparr>gen_state := st, gen_engine_dormant := False\<rparr>)"
  by (auto simp: entry_ok_def validate_generation_def split: if_splits)

lemma entry_ok_dormant:
  "entry_ok gid g \<Longrightarrow> gen_state g = StateDraining \<Longrightarrow> entry_ok gid (g\<lparr>gen_engine_dormant := True\<rparr>)"
  by (auto simp: entry_ok_def validate_generation_def split: if_splits)

lemma entry_ok_dormant_state:
  "entry_ok gid g \<Longrightarrow> gen_engine_dormant g \<Longrightarrow> gen_state g = StateDraining \<or> gen_state g = StateRetired"
  by (simp add: entry_ok_def)

lemma valid_gen_state_simps [simp]:
  "valid_gen_state StateStaging" "valid_gen_state StateVerified" "valid_gen_state StateReady"
  "valid_gen_state StateActive" "valid_gen_state StateDraining" "valid_gen_state StateRetired"
  "valid_gen_state StateFailed"
  by (simp_all add: valid_gen_state_def)

lemma lease_usable_update [registry_simps]:
  "lease_usable (AList.update k g gens) l \<longleftrightarrow>
     (if ls_engine_generation l = k then (gen_state g = StateActive \<or> gen_state g = StateDraining) \<and> \<not> gen_engine_dormant g
      else lease_usable gens l)"
  by (simp add: lease_usable_def)

lemma lease_usable_delete [registry_simps]:
  "lease_usable (AList.delete k gens) l \<longleftrightarrow> ls_engine_generation l \<noteq> k \<and> lease_usable gens l"
  by (simp add: lease_usable_def)

lemma leased_iff:
  "reg_inv s \<Longrightarrow> leased s gid \<longleftrightarrow> (\<exists>rid l. map_of (rs_leases s) rid = Some l \<and> ls_engine_generation l = gid)"
  by (auto simp: leased_def reg_inv_def maps_ok_def list_ex_gomap)

lemma state_atI: "map_of gens gid = Some g \<Longrightarrow> state_at gens gid = Some (gen_state g)"
  by (simp add: state_at_def)

text \<open>Replacing one generation by another with the same key keeps the maps and the other leases.\<close>

lemma maps_ok_put:
  "maps_ok s \<Longrightarrow> map_of (rs_generations s) gid = Some g0 \<Longrightarrow> entry_ok gid g \<Longrightarrow> maps_ok (put_generation gid g s)"
  by (auto simp: maps_ok_def length_update)

lemma maps_ok_pointers [simp]:
  "maps_ok (s\<lparr>rs_active := a\<rparr>) = maps_ok s" "maps_ok (s\<lparr>rs_previous := a\<rparr>) = maps_ok s"
  "maps_ok (s\<lparr>rs_activation_previous := a\<rparr>) = maps_ok s" "maps_ok (s\<lparr>rs_staged := a\<rparr>) = maps_ok s"
  by (simp_all add: maps_ok_def)

lemma leases_ok_usable: "leases_ok gens leases \<Longrightarrow> map_of leases rid = Some l \<Longrightarrow> lease_usable gens l"
  by (simp add: leases_ok_def)

lemma leases_ok_put_live:
  "leases_ok gens leases \<Longrightarrow> gen_state g = StateActive \<or> gen_state g = StateDraining \<Longrightarrow> \<not> gen_engine_dormant g \<Longrightarrow>
     leases_ok (AList.update gid g gens) leases"
  by (auto simp: leases_ok_def registry_simps)

lemma leases_ok_put_unleased:
  "leases_ok gens leases \<Longrightarrow> (\<And>rid l. map_of leases rid = Some l \<Longrightarrow> ls_engine_generation l \<noteq> gid) \<Longrightarrow>
     leases_ok (AList.update gid g gens) leases"
  by (auto simp: leases_ok_def registry_simps)

lemma leases_ok_keeps:
  assumes "leases_ok gens leases" "map_of gens gid = Some g0"
    "gen_state g = StateActive \<or> gen_state g = StateDraining" "gen_engine_dormant g = gen_engine_dormant g0"
  shows "leases_ok (AList.update gid g gens) leases"
  using assms by (fastforce simp: leases_ok_def lease_usable_def)

text \<open>A generation that is neither active nor draining, or is dormant, has no lease.\<close>

lemma unusable_not_leased:
  assumes "reg_inv s" "map_of (rs_generations s) gid = Some g"
    "(gen_state g \<noteq> StateActive \<and> gen_state g \<noteq> StateDraining) \<or> gen_engine_dormant g"
    "map_of (rs_leases s) rid = Some l"
  shows "ls_engine_generation l \<noteq> gid"
proof
  assume "ls_engine_generation l = gid"
  moreover have "lease_usable (rs_generations s) l"
    using assms(1,4) by (simp add: reg_inv_def leases_ok_def)
  ultimately show False
    using assms(2,3) by (auto simp: lease_usable_def)
qed

lemma reg_invD:
  assumes "reg_inv s"
  shows "maps_ok s" "leases_ok (rs_generations s) (rs_leases s)"
    "pointers_ok (state_at (rs_generations s)) (rs_active s) (rs_previous s) (rs_activation_previous s) (rs_staged s)"
  using assms by (simp_all add: reg_inv_def)

lemma reg_invI:
  assumes "maps_ok s" "leases_ok (rs_generations s) (rs_leases s)"
    "pointers_ok (state_at (rs_generations s)) (rs_active s) (rs_previous s) (rs_activation_previous s) (rs_staged s)"
  shows "reg_inv s"
  using assms by (simp add: reg_inv_def)

lemma pointers_okI:
  assumes "\<And>gid. st gid = Some StateActive \<Longrightarrow> gid = active" "active \<noteq> [] \<Longrightarrow> st active = Some StateActive"
    "st [] \<noteq> Some StateActive"
    "previous \<noteq> [] \<Longrightarrow> st previous = Some StateDraining \<and> active \<noteq> []"
    "pending \<noteq> [] \<Longrightarrow> st pending = Some StateDraining \<and> pending \<noteq> previous \<and> previous \<noteq> []"
    "staged \<noteq> [] \<Longrightarrow> st staged \<in> candidate_states"
  shows "pointers_ok st active previous pending staged"
  unfolding pointers_ok_def using assms by metis

lemma pointers_okD:
  assumes "pointers_ok st active previous pending staged"
  shows "st gid = Some StateActive \<Longrightarrow> gid = active" "active \<noteq> [] \<Longrightarrow> st active = Some StateActive"
    "st [] \<noteq> Some StateActive"
    "previous \<noteq> [] \<Longrightarrow> st previous = Some StateDraining" "previous \<noteq> [] \<Longrightarrow> active \<noteq> []"
    "pending \<noteq> [] \<Longrightarrow> st pending = Some StateDraining" "pending \<noteq> [] \<Longrightarrow> pending \<noteq> previous"
    "pending \<noteq> [] \<Longrightarrow> previous \<noteq> []"
    "staged \<noteq> [] \<Longrightarrow> st staged \<in> candidate_states"
  using assms unfolding pointers_ok_def by metis+

lemma not_candidate [simp]:
  "Some StateActive \<notin> candidate_states" "Some StateDraining \<notin> candidate_states"
  "Some StateRetired \<notin> candidate_states" "Some StateFailed \<notin> candidate_states" "None \<notin> candidate_states"
  "Some StateStaging \<in> candidate_states" "Some StateVerified \<in> candidate_states" "Some StateReady \<in> candidate_states"
  by (simp_all add: candidate_states_def)

lemma pointers_candidate:
  assumes "pointers_ok st a p q sg" "st gid = Some old" "Some old \<in> candidate_states" "gid \<noteq> []"
    "new \<noteq> StateActive" "staged \<noteq> [] \<Longrightarrow> staged = gid \<and> Some new \<in> candidate_states"
  shows "pointers_ok (st(gid \<mapsto> new)) a p q staged"
proof -
  note D = pointers_okD(2-) [OF assms(1)]
  have "a \<noteq> [] \<Longrightarrow> gid \<noteq> a" "p \<noteq> [] \<Longrightarrow> gid \<noteq> p" "q \<noteq> [] \<Longrightarrow> gid \<noteq> q"
    using D(1,3,5) assms(2,3) by auto
  then show ?thesis
    using D assms(2-)
    by (intro pointers_okI) (auto split: if_splits dest: pointers_okD(1) [OF assms(1)])
qed

lemma put_unleased_inv:
  assumes inv: "reg_inv s" and g: "map_of (rs_generations s) gid = Some g0"
    and unused: "\<And>rid l. map_of (rs_leases s) rid = Some l \<Longrightarrow> ls_engine_generation l \<noteq> gid"
    and ok: "entry_ok gid g"
    and ptr: "pointers_ok ((state_at (rs_generations s))(gid \<mapsto> gen_state g)) (rs_active s) (rs_previous s)
        (rs_activation_previous s) staged"
  shows "reg_inv ((put_generation gid g s)\<lparr>rs_staged := staged\<rparr>)"
proof (rule reg_invI)
  note I = reg_invD [OF inv]
  show "maps_ok ((put_generation gid g s)\<lparr>rs_staged := staged\<rparr>)"
    using maps_ok_put [OF I(1) g ok] by simp
qed (use leases_ok_put_unleased [OF reg_invD(2) [OF inv] unused] ptr in \<open>simp_all add: registry_simps\<close>)

lemma stage_inv:
  assumes "reg_inv s" "reg_stage g s = Inr s'" "\<not> gen_engine_dormant g"
  shows "reg_inv s'"
proof -
  note I = reg_invD [OF assms(1)]
  have g: "validate_generation g = None" "gen_state g = StateStaging" "length (rs_generations s) < max_generations"
    "map_of (rs_generations s) (gen_id g) = None" "rs_staged s = []"
    and s': "s' = (put_generation (gen_id g) g s)\<lparr>rs_staged := gen_id g\<rparr>"
    using assms(2) by (auto simp: reg_stage_def split: option.splits if_splits)
  note D = pointers_okD(2-) [OF I(3)]
  have at: "state_at (rs_generations s) (gen_id g) = None"
    using g(4) by (simp add: state_at_def)
  have ok: "entry_ok (gen_id g) g"
    using g assms(3) by (simp add: entry_ok_def)
  show ?thesis
  proof (rule reg_invI)
    show "maps_ok s'"
      using I(1) g ok by (simp add: s' maps_ok_def length_update)
    have "ls_engine_generation l \<noteq> gen_id g" if "map_of (rs_leases s) rid = Some l" for rid l
      using leases_ok_usable [OF I(2) that] g(4) by (auto simp: lease_usable_def)
    then show "leases_ok (rs_generations s') (rs_leases s')"
      unfolding s' using leases_ok_put_unleased [OF I(2)] by simp
    have "a \<noteq> [] \<Longrightarrow> state_at (rs_generations s) a \<noteq> None \<Longrightarrow> a \<noteq> gen_id g" for a
      using at by auto
    then have "pointers_ok ((state_at (rs_generations s))(gen_id g \<mapsto> StateStaging)) (rs_active s) (rs_previous s)
        (rs_activation_previous s) (gen_id g)"
      using D entry_ok_opaque [OF ok]
      by (intro pointers_okI) (auto split: if_splits dest: pointers_okD(1) [OF I(3)])
    then show "pointers_ok (state_at (rs_generations s')) (rs_active s') (rs_previous s') (rs_activation_previous s') (rs_staged s')"
      by (simp add: s' registry_simps g(2))
  qed
qed

lemma candidate_step_inv:
  assumes inv: "reg_inv s" and g: "map_of (rs_generations s) gid = Some g" "Some (gen_state g) \<in> candidate_states"
    and st: "new \<noteq> StateActive" "valid_gen_state new" "staged \<noteq> [] \<Longrightarrow> staged = gid \<and> Some new \<in> candidate_states"
  shows "reg_inv ((put_generation gid (g\<lparr>gen_state := new\<rparr>) s)\<lparr>rs_staged := staged\<rparr>)"
proof (rule put_unleased_inv [OF inv g(1)])
  have "\<not> gen_engine_dormant g"
    using entry_ok_dormant_state [OF reg_inv_entry [OF inv g(1)]] g(2) by auto
  then show "entry_ok gid (g\<lparr>gen_state := new\<rparr>)"
    using entry_ok_state [OF reg_inv_entry [OF inv g(1)] st(2)] by simp
  show "ls_engine_generation l \<noteq> gid" if "map_of (rs_leases s) rid = Some l" for rid l
    using that g(2) by (intro unusable_not_leased [OF inv g(1)]) auto
  have "gid \<noteq> []"
    using entry_ok_opaque [OF reg_inv_entry [OF inv g(1)]] by auto
  then show "pointers_ok ((state_at (rs_generations s))(gid \<mapsto> gen_state (g\<lparr>gen_state := new\<rparr>))) (rs_active s)
      (rs_previous s) (rs_activation_previous s) staged"
    using pointers_candidate [OF reg_invD(3) [OF inv] state_atI [OF g(1)] g(2)] st by simp
qed

lemma transition_candidate_inv:
  assumes "reg_inv s" "transition_candidate gid old new s = Inr s'"
    "Some old \<in> candidate_states" "Some new \<in> candidate_states"
  shows "reg_inv s'"
proof -
  obtain g where g: "map_of (rs_generations s) gid = Some g" "rs_staged s = gid" "gen_state g = old"
    and s': "s' = put_generation gid (g\<lparr>gen_state := new\<rparr>) s"
    using assms(2) by (auto simp: transition_candidate_def split: if_splits option.splits)
  have "reg_inv ((put_generation gid (g\<lparr>gen_state := new\<rparr>) s)\<lparr>rs_staged := rs_staged s\<rparr>)"
    using assms(3,4) g by (intro candidate_step_inv [OF assms(1) g(1)]) (auto simp: candidate_states_def)
  moreover have "(put_generation gid (g\<lparr>gen_state := new\<rparr>) s)\<lparr>rs_staged := rs_staged s\<rparr> = s'"
    by (simp add: s')
  ultimately show ?thesis by simp
qed

lemma fail_inv:
  assumes "reg_inv s" "reg_fail gid s = Inr s'"
  shows "reg_inv s'"
proof -
  obtain g where g: "map_of (rs_generations s) gid = Some g" "Some (gen_state g) \<in> candidate_states"
    and s': "s' = (put_generation gid (g\<lparr>gen_state := StateFailed\<rparr>) s)\<lparr>rs_staged := []\<rparr>"
    using assms(2) by (auto simp: reg_fail_def candidate_states_def split: if_splits option.splits)
  show ?thesis
    unfolding s' by (intro candidate_step_inv [OF assms(1) g]) simp_all
qed

text \<open>Operations that move the active pointer.\<close>

lemma active_entry:
  assumes "reg_inv s" "rs_active s \<noteq> []"
  obtains g where "map_of (rs_generations s) (rs_active s) = Some g" "gen_state g = StateActive"
    "\<not> gen_engine_dormant g" "generation_at s (rs_active s) = g"
proof -
  obtain g where g: "map_of (rs_generations s) (rs_active s) = Some g" "gen_state g = StateActive"
    using pointers_okD(2) [OF reg_invD(3) [OF assms(1)]] assms(2) by (auto elim: state_atE)
  moreover have "\<not> gen_engine_dormant g"
    using entry_ok_dormant_state [OF reg_inv_entry [OF assms(1) g(1)]] g(2) by auto
  ultimately show thesis
    using that by (simp add: generation_at_def)
qed

lemma swap_inv:
  assumes inv: "reg_inv s" and a: "map_of (rs_generations s) a = Some ga" and c: "map_of (rs_generations s) c = Some gc"
    and ac: "a \<noteq> c" and ok: "entry_ok a ga'" "entry_ok c gc'"
    and live_a: "(gen_state ga' = StateActive \<or> gen_state ga' = StateDraining) \<and> \<not> gen_engine_dormant ga' \<or>
      (\<forall>rid l. map_of (rs_leases s) rid = Some l \<longrightarrow> ls_engine_generation l \<noteq> a)"
    and live_c: "(gen_state gc' = StateActive \<or> gen_state gc' = StateDraining) \<and> \<not> gen_engine_dormant gc' \<or>
      (\<forall>rid l. map_of (rs_leases s) rid = Some l \<longrightarrow> ls_engine_generation l \<noteq> c)"
    and ptr: "pointers_ok ((state_at (rs_generations s))(a \<mapsto> gen_state ga', c \<mapsto> gen_state gc'))
      active previous pending staged"
  shows "reg_inv ((put_generation c gc' (put_generation a ga' s))
    \<lparr>rs_active := active, rs_previous := previous, rs_activation_previous := pending, rs_staged := staged\<rparr>)"
proof (rule reg_invI)
  note I = reg_invD [OF inv]
  have "maps_ok (put_generation c gc' (put_generation a ga' s))"
    by (rule maps_ok_put [OF maps_ok_put [OF I(1) a ok(1)] _ ok(2)]) (use c ac in simp)
  then show "maps_ok ((put_generation c gc' (put_generation a ga' s))
    \<lparr>rs_active := active, rs_previous := previous, rs_activation_previous := pending, rs_staged := staged\<rparr>)"
    by simp
  have "leases_ok (AList.update a ga' (rs_generations s)) (rs_leases s)"
    using live_a leases_ok_put_live [OF I(2)] leases_ok_put_unleased [OF I(2)] by blast
  then have "leases_ok (AList.update c gc' (AList.update a ga' (rs_generations s))) (rs_leases s)"
    using live_c leases_ok_put_live leases_ok_put_unleased by blast
  then show "leases_ok (rs_generations ((put_generation c gc' (put_generation a ga' s))
    \<lparr>rs_active := active, rs_previous := previous, rs_activation_previous := pending, rs_staged := staged\<rparr>))
    (rs_leases ((put_generation c gc' (put_generation a ga' s))
    \<lparr>rs_active := active, rs_previous := previous, rs_activation_previous := pending, rs_staged := staged\<rparr>))"
    by simp
qed (use ptr in \<open>simp add: registry_simps\<close>)

lemma activate_eq:
  assumes "reg_inv s" "reg_activate gid s = Inr s'"
  obtains (first) g where "map_of (rs_generations s) gid = Some g" "gen_state g = StateReady" "rs_staged s = gid"
    "rs_active s = []"
    "s' = (put_generation gid (g\<lparr>gen_state := StateActive, gen_engine_dormant := False\<rparr>) s)
            \<lparr>rs_activation_previous := rs_previous s, rs_active := gid, rs_staged := []\<rparr>"
  | (upgrade) g old where "map_of (rs_generations s) gid = Some g" "gen_state g = StateReady" "rs_staged s = gid"
    "rs_active s \<noteq> []" "map_of (rs_generations s) (rs_active s) = Some old" "gen_state old = StateActive"
    "\<not> gen_engine_dormant old"
    "s' = (put_generation gid (g\<lparr>gen_state := StateActive, gen_engine_dormant := False\<rparr>)
             (put_generation (rs_active s) (old\<lparr>gen_state := StateDraining\<rparr>) s))
            \<lparr>rs_active := gid, rs_previous := rs_active s, rs_activation_previous := rs_previous s, rs_staged := []\<rparr>"
proof -
  obtain g where g: "map_of (rs_generations s) gid = Some g" "gen_state g = StateReady" "rs_staged s = gid"
    using assms(2) by (auto simp: reg_activate_def Let_def split: if_splits option.splits)
  show thesis
  proof (cases "rs_active s = []")
    case True
    with assms(2) g show thesis
      by (intro first [OF g]) (auto simp: reg_activate_def Let_def split: if_splits)
  next
    case False
    obtain old where old: "map_of (rs_generations s) (rs_active s) = Some old" "gen_state old = StateActive"
      "\<not> gen_engine_dormant old" "generation_at s (rs_active s) = old"
      using active_entry [OF assms(1) False] by blast
    have "generation_at (s\<lparr>rs_activation_previous := rs_previous s\<rparr>) (rs_active s) = old"
      using old(4) by (simp add: generation_at_def)
    with assms(2) g False show thesis
      by (intro upgrade [OF g False old(1-3)]) (auto simp: reg_activate_def Let_def split: if_splits)
  qed
qed

lemma activate_inv:
  assumes "reg_inv s" "reg_activate gid s = Inr s'"
  shows "reg_inv s'"
proof (cases rule: activate_eq [OF assms, case_names first upgrade])
  case (first g)
  note D = pointers_okD [OF reg_invD(3) [OF assms(1)]]
  have empty: "rs_previous s = []"
    using D(5) first(4) by blast
  have ok: "entry_ok gid (g\<lparr>gen_state := StateActive, gen_engine_dormant := False\<rparr>)"
    using entry_ok_wake [OF reg_inv_entry [OF assms(1) first(1)]] by simp
  have unused: "ls_engine_generation l \<noteq> gid" if "map_of (rs_leases s) rid = Some l" for rid l
    using that first(2) by (intro unusable_not_leased [OF assms(1) first(1)]) auto
  have "gid \<noteq> []" using entry_ok_opaque [OF ok] by auto
  have none: "state_at (rs_generations s) k \<noteq> Some StateActive" for k
    using D(1) [of k] D(3) first(4) by auto
  show ?thesis
  proof (rule reg_invI)
    show "pointers_ok (state_at (rs_generations s')) (rs_active s') (rs_previous s') (rs_activation_previous s') (rs_staged s')"
      using none empty \<open>gid \<noteq> []\<close> unfolding first(5)
      by (intro pointers_okI) (auto simp: registry_simps split: if_splits)
  qed (use maps_ok_put [OF reg_invD(1) [OF assms(1)] first(1) ok]
         leases_ok_put_unleased [OF reg_invD(2) [OF assms(1)] unused] in \<open>simp_all add: first(5)\<close>)
next
  case (upgrade g old)
  note P = reg_invD(3) [OF assms(1)]
  have ok: "entry_ok gid (g\<lparr>gen_state := StateActive, gen_engine_dormant := False\<rparr>)"
    "entry_ok (rs_active s) (old\<lparr>gen_state := StateDraining\<rparr>)"
    using entry_ok_wake [OF reg_inv_entry [OF assms(1) upgrade(1)]]
      entry_ok_state [OF reg_inv_entry [OF assms(1) upgrade(5)]] by simp_all
  have "gid \<noteq> []" using entry_ok_opaque [OF ok(1)] by auto
  have at: "state_at (rs_generations s) gid = Some StateReady"
    using state_atI [OF upgrade(1)] upgrade(2) by simp
  have differ: "rs_active s \<noteq> gid"
    using at pointers_okD(2) [OF P upgrade(4)] by auto
  have "pointers_ok ((state_at (rs_generations s))(rs_active s \<mapsto> StateDraining, gid \<mapsto> StateActive))
      gid (rs_active s) (rs_previous s) []"
    using pointers_okD(2-) [OF P] pointers_differ(1) [OF P] at differ \<open>gid \<noteq> []\<close> upgrade(4)
    by (intro pointers_okI) (auto split: if_splits dest: pointers_okD(1) [OF P])
  then show ?thesis
    unfolding upgrade(8)
    using upgrade(7) differ ok by (intro swap_inv [OF assms(1) upgrade(5,1)]) simp_all
qed

lemma abort_eq:
  assumes "abort_activation c p s = Inr s'"
  obtains gc gp where "rs_active s = c" "rs_previous s = p" "rs_activation_previous s \<noteq> []"
    "map_of (rs_generations s) c = Some gc" "map_of (rs_generations s) p = Some gp"
    "gen_state gc = StateActive" "gen_state gp = StateDraining" "\<not> leased s c"
    "s' = (put_generation p (gp\<lparr>gen_state := StateActive, gen_engine_dormant := False\<rparr>)
             (put_generation c (gc\<lparr>gen_state := StateFailed\<rparr>) s))
            \<lparr>rs_active := p, rs_previous := rs_activation_previous s, rs_activation_previous := []\<rparr>"
  using assms by (auto simp: abort_activation_def split: if_splits option.splits)

lemma abort_inv:
  assumes "reg_inv s" "abort_activation c p s = Inr s'"
  shows "reg_inv s'"
proof (cases rule: abort_eq [OF assms(2), case_names ab])
  case (ab gc gp)
  note P = reg_invD(3) [OF assms(1)]
  have "\<not> gen_engine_dormant gc"
    using entry_ok_dormant_state [OF reg_inv_entry [OF assms(1) ab(4)]] ab(6) by auto
  then have ok: "entry_ok c (gc\<lparr>gen_state := StateFailed\<rparr>)"
    "entry_ok p (gp\<lparr>gen_state := StateActive, gen_engine_dormant := False\<rparr>)"
    using entry_ok_state [OF reg_inv_entry [OF assms(1) ab(4)]] entry_ok_wake [OF reg_inv_entry [OF assms(1) ab(5)]]
    by simp_all
  have at: "state_at (rs_generations s) c = Some StateActive" "state_at (rs_generations s) p = Some StateDraining"
    using state_atI [OF ab(4)] state_atI [OF ab(5)] ab(6,7) by simp_all
  have ne: "c \<noteq> p" "c \<noteq> []" "p \<noteq> []"
    using at entry_ok_opaque [OF ok(1)] entry_ok_opaque [OF ok(2)] by auto
  have "pointers_ok ((state_at (rs_generations s))(c \<mapsto> StateFailed, p \<mapsto> StateActive))
      p (rs_activation_previous s) [] (rs_staged s)"
    using pointers_okD(2-) [OF P] pointers_differ [OF P] at ne ab(1-3)
    by (intro pointers_okI) (auto split: if_splits dest: pointers_okD(1) [OF P])
  then have "reg_inv ((put_generation p (gp\<lparr>gen_state := StateActive, gen_engine_dormant := False\<rparr>)
      (put_generation c (gc\<lparr>gen_state := StateFailed\<rparr>) s))
    \<lparr>rs_active := p, rs_previous := rs_activation_previous s, rs_activation_previous := [], rs_staged := rs_staged s\<rparr>)"
    using ne(1) ok ab(8) leased_iff [OF assms(1)]
    by (intro swap_inv [OF assms(1) ab(4,5)]) auto
  then show ?thesis by (simp add: ab(9))
qed

lemma rollback_eq:
  assumes "reg_inv s" "reg_rollback s = Inr s'"
  obtains gp ga where "rs_activation_previous s = []" "rs_previous s \<noteq> []" "rs_active s \<noteq> []"
    "map_of (rs_generations s) (rs_previous s) = Some gp" "gen_state gp = StateDraining"
    "map_of (rs_generations s) (rs_active s) = Some ga" "gen_state ga = StateActive" "\<not> gen_engine_dormant ga"
    "s' = (put_generation (rs_previous s) (gp\<lparr>gen_state := StateActive, gen_engine_dormant := False\<rparr>)
             (put_generation (rs_active s) (ga\<lparr>gen_state := StateDraining\<rparr>) s))
            \<lparr>rs_active := rs_previous s, rs_previous := rs_active s\<rparr>"
proof -
  have a: "rs_active s \<noteq> []"
    using assms(2) by (auto simp: reg_rollback_def split: if_splits option.splits)
  obtain ga where ga: "map_of (rs_generations s) (rs_active s) = Some ga" "gen_state ga = StateActive"
    "\<not> gen_engine_dormant ga" "generation_at s (rs_active s) = ga"
    using active_entry [OF assms(1) a] by blast
  show thesis
    using assms(2) that a ga by (auto simp: reg_rollback_def split: if_splits option.splits)
qed

lemma rollback_inv:
  assumes "reg_inv s" "reg_rollback s = Inr s'"
  shows "reg_inv s'"
proof (cases rule: rollback_eq [OF assms, case_names rb])
  case (rb gp ga)
  note P = reg_invD(3) [OF assms(1)]
  have ok: "entry_ok (rs_active s) (ga\<lparr>gen_state := StateDraining\<rparr>)"
    "entry_ok (rs_previous s) (gp\<lparr>gen_state := StateActive, gen_engine_dormant := False\<rparr>)"
    using entry_ok_state [OF reg_inv_entry [OF assms(1) rb(6)]] entry_ok_wake [OF reg_inv_entry [OF assms(1) rb(4)]]
    by simp_all
  have at: "state_at (rs_generations s) (rs_active s) = Some StateActive"
    "state_at (rs_generations s) (rs_previous s) = Some StateDraining"
    using state_atI [OF rb(6)] state_atI [OF rb(4)] rb(5,7) by simp_all
  have ne: "rs_active s \<noteq> rs_previous s"
    using at by auto
  have "pointers_ok ((state_at (rs_generations s))(rs_active s \<mapsto> StateDraining, rs_previous s \<mapsto> StateActive))
      (rs_previous s) (rs_active s) [] (rs_staged s)"
    using pointers_okD(2-) [OF P] pointers_differ [OF P] at ne rb(1-3)
    by (intro pointers_okI) (auto split: if_splits dest: pointers_okD(1) [OF P])
  then have "reg_inv ((put_generation (rs_previous s) (gp\<lparr>gen_state := StateActive, gen_engine_dormant := False\<rparr>)
      (put_generation (rs_active s) (ga\<lparr>gen_state := StateDraining\<rparr>) s))
    \<lparr>rs_active := rs_previous s, rs_previous := rs_active s, rs_activation_previous := [], rs_staged := rs_staged s\<rparr>)"
    using ne ok rb(8) by (intro swap_inv [OF assms(1) rb(6,4)]) simp_all
  moreover have "s\<lparr>rs_activation_previous := []\<rparr> = s" using rb(1) by simp
  ultimately show ?thesis
    using rb(1) by (cases s) (simp add: rb(9))
qed

lemma pointers_settle: "pointers_ok st a p q sg \<Longrightarrow> pointers_ok st a p [] sg"
  unfolding pointers_ok_def by blast

lemma finalize_activation_inv:
  assumes "reg_inv s" "finalize_activation gid s = Inr s'"
  shows "reg_inv s'"
proof -
  have "s' = s\<lparr>rs_activation_previous := []\<rparr>"
    using assms(2) by (auto simp: finalize_activation_def split: if_splits)
  then show ?thesis
    using reg_invD [OF assms(1)] pointers_settle by (intro reg_invI) auto
qed

lemma pointers_same_state: "pointers_ok st a p q sg \<Longrightarrow> st gid = Some x \<Longrightarrow> pointers_ok (st(gid \<mapsto> x)) a p q sg"
  by (simp add: fun_upd_idem)

lemma mark_dormant_inv:
  assumes "reg_inv s" "mark_engine_dormant gid s = Inr s'"
  shows "reg_inv s'"
proof -
  obtain g where g: "map_of (rs_generations s) gid = Some g" "gen_state g = StateDraining" "\<not> leased s gid"
    and s': "s' = put_generation gid (g\<lparr>gen_engine_dormant := True\<rparr>) s"
    using assms(2) by (auto simp: mark_engine_dormant_def split: if_splits option.splits)
  have "reg_inv ((put_generation gid (g\<lparr>gen_engine_dormant := True\<rparr>) s)\<lparr>rs_staged := rs_staged s\<rparr>)"
    using g leased_iff [OF assms(1)] entry_ok_dormant [OF reg_inv_entry [OF assms(1) g(1)] g(2)]
      pointers_same_state [OF reg_invD(3) [OF assms(1)] state_atI [OF g(1)]]
    by (intro put_unleased_inv [OF assms(1) g(1)]) auto
  then show ?thesis by (simp add: s')
qed

lemma retire_inv:
  assumes "reg_inv s" "reg_retire gid s = Inr s'"
  shows "reg_inv s'"
proof -
  note P = reg_invD(3) [OF assms(1)]
  obtain g where g: "map_of (rs_generations s) gid = Some g" "gen_state g \<in> {StateDraining, StateFailed}" "\<not> leased s gid"
    "gid \<noteq> rs_active s" "gid \<noteq> rs_previous s" "gid \<noteq> rs_activation_previous s"
    and s': "s' = (put_generation gid (g\<lparr>gen_state := StateRetired, gen_engine_dormant := False\<rparr>) s)
       \<lparr>rs_staged := (if rs_staged s = gid then [] else rs_staged s)\<rparr>"
    using assms(2) by (auto simp: reg_retire_def Let_def split: if_splits option.splits)
  have at: "state_at (rs_generations s) gid = Some (gen_state g)"
    using state_atI [OF g(1)] .
  have "pointers_ok ((state_at (rs_generations s))(gid \<mapsto> StateRetired)) (rs_active s) (rs_previous s)
      (rs_activation_previous s) (if rs_staged s = gid then [] else rs_staged s)"
    using pointers_okD(2-) [OF P] g(4-6)
    by (intro pointers_okI) (auto split: if_splits dest: pointers_okD(1) [OF P])
  then show ?thesis
    unfolding s' using g leased_iff [OF assms(1)] entry_ok_wake [OF reg_inv_entry [OF assms(1) g(1)]]
    by (intro put_unleased_inv [OF assms(1) g(1)]) auto
qed

lemma remove_retired_inv:
  assumes "reg_inv s" "remove_retired gid s = Inr s'"
  shows "reg_inv s'"
proof -
  note I = reg_invD [OF assms(1)]
  obtain g where g: "map_of (rs_generations s) gid = Some g" "\<not> leased s gid"
    "gid \<noteq> rs_active s" "gid \<noteq> rs_previous s" "gid \<noteq> rs_activation_previous s" "gid \<noteq> rs_staged s"
    and s': "s' = s\<lparr>rs_generations := AList.delete gid (rs_generations s)\<rparr>"
    using assms(2) by (auto simp: remove_retired_def split: if_splits option.splits)
  have "Suc (length (AList.delete gid (rs_generations s))) = length (rs_generations s)"
    using I(1) g(1) by (intro length_delete_present) (simp_all add: maps_ok_def)
  then have "maps_ok s'"
    using I(1) by (auto simp: s' maps_ok_def)
  moreover have "leases_ok (rs_generations s') (rs_leases s')"
    using I(2) g(2) leased_iff [OF assms(1)] by (auto simp: s' leases_ok_def registry_simps)
  moreover have "pointers_ok ((state_at (rs_generations s))(gid := None)) (rs_active s) (rs_previous s)
      (rs_activation_previous s) (rs_staged s)"
    using pointers_okD(2-) [OF I(3)] g(3-)
    by (intro pointers_okI) (auto split: if_splits dest: pointers_okD(1) [OF I(3)])
  ultimately show ?thesis
    by (intro reg_invI) (simp_all add: s' registry_simps)
qed

text \<open>Operations on the leases leave generations and pointers alone.\<close>

lemma lease_update_inv:
  assumes "reg_inv s" "gomap_ok leases" "length leases \<le> max_leases" "leases_ok (rs_generations s) leases"
  shows "reg_inv (s\<lparr>rs_leases := leases\<rparr>)"
  using assms by (simp add: reg_inv_def maps_ok_def)

lemma lease_put_inv:
  assumes "reg_inv s" "validate_lease l = None" "lease_usable (rs_generations s) l"
    "length (rs_leases s) < max_leases \<or> has_key (rs_leases s) (ls_recording_id l)"
  shows "reg_inv (s\<lparr>rs_leases := AList.update (ls_recording_id l) l (rs_leases s)\<rparr>)"
  using reg_invD(1,2) [OF assms(1)] assms(2-)
  by (intro lease_update_inv [OF assms(1)]) (auto simp: maps_ok_def leases_ok_def lease_ok_def length_update)

lemma lease_drop_inv:
  assumes "reg_inv s"
  shows "reg_inv (s\<lparr>rs_leases := AList.delete rid (rs_leases s)\<rparr>)"
proof (rule lease_update_inv [OF assms])
  note I = reg_invD(1,2) [OF assms]
  show "gomap_ok (AList.delete rid (rs_leases s))" using I(1) by (simp add: maps_ok_def)
  have "length (AList.delete rid (rs_leases s)) \<le> length (rs_leases s)"
    by (rule length_delete_le)
  then show "length (AList.delete rid (rs_leases s)) \<le> max_leases"
    using I(1) by (auto simp: maps_ok_def)
  show "leases_ok (rs_generations s) (AList.delete rid (rs_leases s))"
    using I(2) by (auto simp: leases_ok_def split: if_splits)
qed

lemma usable_active:
  assumes "reg_inv s" "state_at (rs_generations s) (ls_engine_generation l) = Some StateActive"
  shows "lease_usable (rs_generations s) l"
proof -
  obtain g where g: "map_of (rs_generations s) (ls_engine_generation l) = Some g" "gen_state g = StateActive"
    using assms(2) by (auto elim: state_atE)
  then show ?thesis
    using entry_ok_dormant_state [OF reg_inv_entry [OF assms(1) g(1)]] by (auto simp: lease_usable_def)
qed

lemma pin_inv: "reg_inv s \<Longrightarrow> pin_recording l s = Inr s' \<Longrightarrow> reg_inv s'"
  by (auto simp: pin_recording_def split: option.splits if_splits intro!: lease_put_inv usable_active)

lemma current_lease_key: "current_lease l s = None \<Longrightarrow> has_key (rs_leases s) (ls_recording_id l)"
  by (auto simp: current_lease_def split: option.splits if_splits)

lemma transfer_check_None:
  "transfer_check m e t = None \<Longrightarrow> validate_lease t = None \<and> ls_recording_id e = ls_recording_id t"
  by (auto simp: transfer_check_def split: option.splits if_splits)

lemma transfer_inv:
  assumes "reg_inv s" "transfer_recording hook e t s = Inr s'"
  shows "reg_inv s'"
proof -
  have "lease_usable (rs_generations s) t" "current_lease e s = None"
    "transfer_check ''recording lease transfer is invalid'' e t = None"
    "s' = s\<lparr>rs_leases := AList.update (ls_recording_id t) t (rs_leases s)\<rparr>"
    using assms(2) by (auto simp: transfer_recording_def lease_usable_def split: option.splits if_splits)
  then show ?thesis
    using transfer_check_None current_lease_key [of e s] by (auto intro!: lease_put_inv [OF assms(1)])
qed

lemma rollback_transfer_inv:
  assumes "reg_inv s" "rollback_recording_transfer e t s = Inr s'"
  shows "reg_inv s'"
proof -
  have "lease_usable (rs_generations s) t" "current_lease e s = None"
    "transfer_check ''recording lease rollback is invalid'' e t = None"
    "s' = s\<lparr>rs_leases := AList.update (ls_recording_id t) t (rs_leases s)\<rparr>"
    using assms(2) by (auto simp: rollback_recording_transfer_def lease_usable_def split: option.splits if_splits)
  then show ?thesis
    using transfer_check_None current_lease_key [of e s] by (auto intro!: lease_put_inv [OF assms(1)])
qed

lemma release_inv: "reg_inv s \<Longrightarrow> release_recording r g s = Inr s' \<Longrightarrow> reg_inv s'"
  by (auto simp: release_recording_def split: option.splits if_splits intro!: lease_drop_inv)

lemma release_owner_inv: "reg_inv s \<Longrightarrow> release_recording_owner r g i s = Inr s' \<Longrightarrow> reg_inv s'"
  by (auto simp: release_recording_owner_def split: option.splits if_splits intro!: lease_drop_inv)

lemma clear_leases_inv: "reg_inv s \<Longrightarrow> clear_leases s = Inr s' \<Longrightarrow> reg_inv s'"
  by (auto simp: clear_leases_def leases_ok_def intro!: lease_update_inv)

text \<open>Cold start.\<close>

lemma cold_start_inv:
  assumes "reg_inv s" "reconcile_cold_start gid s = Inr s'"
  shows "reg_inv s'"
proof -
  note I = reg_invD [OF assms(1)]
  let ?f = "\<lambda>k g. if k \<noteq> gid \<and> gen_state g = StateDraining then g\<lparr>gen_engine_dormant := True\<rparr> else g"
  have s': "s' = s\<lparr>rs_leases := [], rs_generations := map (\<lambda>(k, g). (k, ?f k g)) (rs_generations s)\<rparr>"
    using assms(2) by (auto simp: reconcile_cold_start_def split: option.splits if_splits)
  have at: "state_at (map (\<lambda>(k, g). (k, ?f k g)) (rs_generations s)) = state_at (rs_generations s)"
  proof (rule ext)
    show "state_at (map (\<lambda>(k, g). (k, ?f k g)) (rs_generations s)) k = state_at (rs_generations s) k" for k
      by (cases "map_of (rs_generations s) k") (auto simp: state_at_def map_of_map_key)
  qed
  have keys: "map fst (map (\<lambda>(k, g). (k, ?f k g)) (rs_generations s)) = map fst (rs_generations s)"
    by (simp add: comp_def case_prod_beta)
  have entries: "entry_ok k h" if h: "map_of (map (\<lambda>(k, g). (k, ?f k g)) (rs_generations s)) k = Some h" for k h
  proof -
    obtain g where g: "map_of (rs_generations s) k = Some g" "h = ?f k g"
      using h unfolding map_of_map_key by (cases "map_of (rs_generations s) k") simp_all
    then show ?thesis
      using entry_ok_dormant [OF reg_inv_entry [OF assms(1) g(1)]] reg_inv_entry [OF assms(1) g(1)] by simp
  qed
  have "maps_ok s'"
    unfolding maps_ok_def s' using I(1) entries by (simp add: maps_ok_def keys del: map_map)
  then show ?thesis
    using I(3) by (intro reg_invI) (simp_all add: s' at leases_ok_def)
qed

text \<open>The checks over a batch of inventories.\<close>

lemma check_owners_spec:
  assumes "check_owners leases gen recs owners = Inr owners'"
  shows "(\<forall>r. has_key owners' r \<longleftrightarrow> has_key owners r \<or> r \<in> ir_recording_id ` set recs) \<and>
    distinct (map ir_recording_id recs) \<and>
    (\<forall>r \<in> ir_recording_id ` set recs. map_of owners r = None \<and>
       (\<forall>l. map_of leases r = Some l \<longrightarrow> ls_engine_generation l = gen))"
  using assms
proof (induction recs arbitrary: owners)
  case (Cons x recs)
  have new: "map_of owners (ir_recording_id x) = None"
    using Cons.prems by (auto split: option.splits if_splits)
  have old: "ls_engine_generation l = gen" if "map_of leases (ir_recording_id x) = Some l" for l
    using Cons.prems new that by (auto split: if_splits)
  have "check_owners leases gen recs (AList.update (ir_recording_id x) gen owners) = Inr owners'"
    using Cons.prems new by (auto split: option.splits if_splits)
  note IH = Cons.IH [OF this]
  have upd: "map_of (AList.update (ir_recording_id x) gen owners) r = None \<longleftrightarrow>
      r \<noteq> ir_recording_id x \<and> map_of owners r = None" for r
    by simp
  have rest: "\<forall>r \<in> ir_recording_id ` set recs. r \<noteq> ir_recording_id x \<and> map_of owners r = None \<and>
      (\<forall>l. map_of leases r = Some l \<longrightarrow> ls_engine_generation l = gen)"
    using conjunct2 [OF conjunct2 [OF IH]] by (auto split: if_splits)
  show ?case
  proof (intro conjI)
    show "\<forall>r. has_key owners' r \<longleftrightarrow> has_key owners r \<or> r \<in> ir_recording_id ` set (x # recs)"
      using IH upd by (metis image_insert insert_iff list.set(2))
    show "distinct (map ir_recording_id (x # recs))"
      using IH rest by auto
    show "\<forall>r \<in> ir_recording_id ` set (x # recs). map_of owners r = None \<and>
        (\<forall>l. map_of leases r = Some l \<longrightarrow> ls_engine_generation l = gen)"
      using rest new old by auto
  qed
qed simp

lemma check_recordings_None:
  "check_inventory_recordings observed seen recs = None \<Longrightarrow> r \<in> set recs \<Longrightarrow>
     opaque_id (ir_recording_id r) \<and> ir_started_at r \<noteq> 0"
  by (induction observed seen recs rule: check_inventory_recordings.induct) (auto split: if_splits)

lemma validate_inventory_None:
  "validate_inventory i = None \<Longrightarrow> opaque_id (ei_engine_generation i) \<and> opaque_id (ei_worker_instance i) \<and>
     (\<forall>r \<in> set (ei_recordings i). opaque_id (ir_recording_id r) \<and> ir_started_at r \<noteq> 0)"
  using check_recordings_None [of "ei_observed_at i" "[]" "ei_recordings i"]
  by (auto simp: validate_inventory_def split: if_splits)

abbreviation listed :: "engine_inventory list \<Rightarrow> string set" where
  "listed inventories \<equiv> fst ` set (inventory_leases inventories)"

lemma inventory_leases_Cons:
  "inventory_leases (i # ivs) = map (\<lambda>r. (ir_recording_id r,
         \<lparr>ls_recording_id = ir_recording_id r, ls_engine_generation = ei_engine_generation i,
          ls_worker_instance = ei_worker_instance i, ls_started_at = ir_started_at r\<rparr>)) (ei_recordings i)
     @ inventory_leases ivs"
  by (simp add: inventory_leases_def)

lemma listed_Cons: "listed (i # ivs) = ir_recording_id ` set (ei_recordings i) \<union> listed ivs"
  by (simp add: inventory_leases_Cons image_Un image_image)

definition reconcilable :: "reg_snapshot \<Rightarrow> string \<Rightarrow> lease \<Rightarrow> bool" where
  "reconcilable s r l \<longleftrightarrow> lease_ok r l \<and> lease_usable (rs_generations s) l \<and>
     (\<forall>l'. map_of (rs_leases s) r = Some l' \<longrightarrow> ls_engine_generation l' = ls_engine_generation l)"

lemma check_inventories_spec:
  assumes "check_inventories s ivs seen n owners = Inr (seen', owners')"
  shows "set seen' = set seen \<union> ei_engine_generation ` set ivs \<and>
    (\<forall>r. has_key owners' r \<longleftrightarrow> has_key owners r \<or> r \<in> listed ivs) \<and>
    distinct (map fst (inventory_leases ivs)) \<and> (\<forall>r \<in> listed ivs. map_of owners r = None) \<and>
    (\<forall>(r, l) \<in> set (inventory_leases ivs). reconcilable s r l)"
  using assms
proof (induction ivs arbitrary: seen n owners)
  case Nil
  then show ?case by (simp add: inventory_leases_def)
next
  case (Cons i ivs)
  have valid: "validate_inventory i = None"
    using Cons.prems by (cases "validate_inventory i") simp_all
  obtain g where g: "map_of (rs_generations s) (ei_engine_generation i) = Some g"
    "gen_state g \<in> {StateActive, StateDraining}" "\<not> gen_engine_dormant g"
    using Cons.prems valid by (auto split: option.splits if_splits)
  obtain owners1 where owners1: "check_owners (rs_leases s) (ei_engine_generation i) (ei_recordings i) owners = Inr owners1"
    and rest: "check_inventories s ivs (ei_engine_generation i # seen) (n + length (ei_recordings i)) owners1
        = Inr (seen', owners')"
    using Cons.prems valid g by (auto simp: Let_def split: option.splits if_splits sum.splits)
  note chk = check_owners_spec [OF owners1]
  note O = chk [THEN conjunct1, rule_format] chk [THEN conjunct2, THEN conjunct1]
    chk [THEN conjunct2, THEN conjunct2, THEN bspec, THEN conjunct1]
    chk [THEN conjunct2, THEN conjunct2, THEN bspec, THEN conjunct2, rule_format]
  note IH = Cons.IH [OF rest]
  have new: "map_of owners1 r = None \<longleftrightarrow> map_of owners r = None \<and> r \<notin> ir_recording_id ` set (ei_recordings i)" for r
    using O(1) [of r] by auto
  have here: "reconcilable s (ir_recording_id r) \<lparr>ls_recording_id = ir_recording_id r,
      ls_engine_generation = ei_engine_generation i, ls_worker_instance = ei_worker_instance i,
      ls_started_at = ir_started_at r\<rparr>" if "r \<in> set (ei_recordings i)" for r
    using that validate_inventory_None [OF valid] g O(4) [of "ir_recording_id r"]
    by (auto simp: reconcilable_def lease_ok_def validate_lease_def lease_usable_def)
  show ?case
  proof (intro conjI)
    show "set seen' = set seen \<union> ei_engine_generation ` set (i # ivs)"
      using conjunct1 [OF IH] by auto
    show "\<forall>r. has_key owners' r \<longleftrightarrow> has_key owners r \<or> r \<in> listed (i # ivs)"
    proof
      fix r
      have "has_key owners' r \<longleftrightarrow> has_key owners1 r \<or> r \<in> listed ivs"
        using IH by blast
      then show "has_key owners' r \<longleftrightarrow> has_key owners r \<or> r \<in> listed (i # ivs)"
        unfolding listed_Cons O(1) [of r] by blast
    qed
    have later: "map_of owners r = None \<and> r \<notin> ir_recording_id ` set (ei_recordings i)" if "r \<in> listed ivs" for r
      by (rule iffD1 [OF new bspec [OF _ that]]) (use IH in \<open>elim conjE\<close>)
    have "map fst (inventory_leases (i # ivs)) = map ir_recording_id (ei_recordings i) @ map fst (inventory_leases ivs)"
      by (simp add: inventory_leases_Cons comp_def)
    moreover have "distinct (map fst (inventory_leases ivs))"
      using IH by (elim conjE)
    moreover have "set (map ir_recording_id (ei_recordings i)) \<inter> set (map fst (inventory_leases ivs)) = {}"
      using later by auto
    ultimately show "distinct (map fst (inventory_leases (i # ivs)))"
      using O(2) by (simp only: distinct_append)
    show "\<forall>r \<in> listed (i # ivs). map_of owners r = None"
      unfolding listed_Cons by (rule ballI, erule UnE, erule O(3), erule later [THEN conjunct1])
    show "\<forall>(r, l) \<in> set (inventory_leases (i # ivs)). reconcilable s r l"
      unfolding inventory_leases_Cons
      using conjunct2 [OF conjunct2 [OF conjunct2 [OF conjunct2 [OF IH]]]] here by auto
  qed
qed

lemma map_of_fold_update:
  "distinct (map fst xs) \<Longrightarrow> map_of (fold (\<lambda>(k, v). AList.update k v) xs m) r =
     (case map_of xs r of Some v \<Rightarrow> Some v | None \<Rightarrow> map_of m r)"
proof (induction xs arbitrary: m)
  case (Cons x xs)
  obtain k v where x: "x = (k, v)" by (cases x)
  have "map_of xs k = None"
    using Cons.prems by (simp add: x map_of_eq_None_iff)
  with Cons show ?case
    by (cases "k = r") (auto simp: x split: option.splits)
qed simp

lemma gomap_ok_fold_update: "gomap_ok m \<Longrightarrow> gomap_ok (fold (\<lambda>(k, v). AList.update k v) xs m)"
  by (induction xs arbitrary: m) (auto split: prod.splits)

lemma reconcile_spec:
  assumes "reg_inv s" "reconcile_inventories ivs s = Inr s'"
  shows "map_of (rs_leases s') r =
      (case map_of (inventory_leases ivs) r of
         Some l \<Rightarrow> Some l
       | None \<Rightarrow> (case map_of (rs_leases s) r of
           None \<Rightarrow> None
         | Some l \<Rightarrow> if ls_engine_generation l \<in> ei_engine_generation ` set ivs then None else Some l))"
    and "s' = s\<lparr>rs_leases := rs_leases s'\<rparr>" "gomap_ok (rs_leases s')" "length (rs_leases s') \<le> max_leases"
    and "\<forall>(r, l) \<in> set (inventory_leases ivs). reconcilable s r l"
proof -
  obtain seen owners where chk: "check_inventories s ivs [] 0 [] = Inr (seen, owners)"
    using assms(2) by (auto simp: reconcile_inventories_def split: if_splits sum.splits)
  define kept where "kept = filter (\<lambda>(gid, l). \<not> (ls_engine_generation l \<in> set seen \<and> \<not> has_key owners gid)) (rs_leases s)"
  define leases where "leases = fold (\<lambda>(gid, l). AList.update gid l) (inventory_leases ivs) kept"
  note C = check_inventories_spec [OF chk]
  have s': "s' = s\<lparr>rs_leases := leases\<rparr>" "length leases \<le> max_leases"
    using assms(2) chk by (auto simp: reconcile_inventories_def Let_def kept_def leases_def split: if_splits)
  have ok: "gomap_ok (rs_leases s)"
    using reg_invD(1) [OF assms(1)] by (simp add: maps_ok_def)
  then have kept_ok: "gomap_ok kept"
    by (simp add: kept_def distinct_map_filter)
  have kept: "map_of kept r = (case map_of (rs_leases s) r of None \<Rightarrow> None
      | Some l \<Rightarrow> if ls_engine_generation l \<in> set seen \<and> \<not> has_key owners r then None else Some l)"
    unfolding kept_def map_of_filter_gomap [OF ok] by (simp split: option.split)
  show "s' = s\<lparr>rs_leases := rs_leases s'\<rparr>" "gomap_ok (rs_leases s')" "length (rs_leases s') \<le> max_leases"
    "\<forall>(r, l) \<in> set (inventory_leases ivs). reconcilable s r l"
    using s' gomap_ok_fold_update [OF kept_ok] C by (simp_all add: leases_def)
  show "map_of (rs_leases s') r =
      (case map_of (inventory_leases ivs) r of
         Some l \<Rightarrow> Some l
       | None \<Rightarrow> (case map_of (rs_leases s) r of
           None \<Rightarrow> None
         | Some l \<Rightarrow> if ls_engine_generation l \<in> ei_engine_generation ` set ivs then None else Some l))"
  proof (cases "map_of (inventory_leases ivs) r")
    case None
    then have "r \<notin> listed ivs"
      by (auto simp: map_of_eq_None_iff)
    with None C show ?thesis
      by (simp add: s'(1) leases_def map_of_fold_update kept split: option.splits)
  next
    case (Some l)
    with C show ?thesis
      by (simp add: s'(1) leases_def map_of_fold_update)
  qed
qed

lemma inventory_leases_lookup:
  "distinct (map fst xs) \<Longrightarrow> map_of xs r = Some l \<longleftrightarrow> (r, l) \<in> set xs"
  by (rule map_of_eq_Some_iff)

lemma reconcile_inv:
  assumes "reg_inv s" "reconcile_inventories ivs s = Inr s'"
  shows "reg_inv s'"
proof -
  note R = reconcile_spec [OF assms]
  have "leases_ok (rs_generations s) (rs_leases s')"
    unfolding leases_ok_def
  proof (intro allI impI)
    fix r l assume l: "map_of (rs_leases s') r = Some l"
    show "lease_ok r l \<and> lease_usable (rs_generations s) l"
    proof (cases "map_of (inventory_leases ivs) r")
      case None
      then have "map_of (rs_leases s) r = Some l"
        using l R(1) [of r] by (auto split: option.splits if_splits)
      then show ?thesis
        using reg_invD(2) [OF assms(1)] by (simp add: leases_ok_def)
    next
      case (Some l')
      then show ?thesis
        using l R(1) [of r] R(5) by (auto simp: reconcilable_def dest: map_of_SomeD)
    qed
  qed
  then have "reg_inv (s\<lparr>rs_leases := rs_leases s'\<rparr>)"
    using R(3,4) by (intro lease_update_inv [OF assms(1)])
  with R(2) show ?thesis by simp
qed

section \<open>The registry as a system of operations\<close>

lemmas mutation_invs = transition_candidate_inv fail_inv activate_inv finalize_activation_inv abort_inv
  rollback_inv mark_dormant_inv pin_inv transfer_inv rollback_transfer_inv release_inv release_owner_inv
  clear_leases_inv cold_start_inv reconcile_inv retire_inv remove_retired_inv

lemma mutation_inv:
  assumes "reg_inv s" "registry_mutation p s = Inr s'" "\<And>g. p = Stage g \<Longrightarrow> \<not> gen_engine_dormant g"
  shows "reg_inv s'"
proof (cases p)
  case (Stage g)
  then show ?thesis using assms stage_inv by simp
next
  case (MarkVerified gid)
  then show ?thesis
    using assms(1,2) transition_candidate_inv [of s gid StateStaging StateVerified s'] by (simp add: mark_verified_def)
next
  case (MarkReady gid)
  then show ?thesis
    using assms(1,2) transition_candidate_inv [of s gid StateVerified StateReady s'] by (simp add: mark_ready_def)
qed (use assms(2) in \<open>auto intro: mutation_invs [OF assms(1)]\<close>)

text \<open>A staged generation that claims to be dormant is the one thing only the final validation rejects.\<close>

lemma stage_dormant_rejected:
  assumes "reg_stage g s = Inr s'" "gen_engine_dormant g"
  shows "validate_snapshot s' \<noteq> None"
proof -
  have g: "gen_state g = StateStaging" and s': "s' = (put_generation (gen_id g) g s)\<lparr>rs_staged := gen_id g\<rparr>"
    using assms(1) by (auto simp: reg_stage_def split: option.splits if_splits)
  have "(gen_id g, g) \<in> set (AList.update (gen_id g) g (rs_generations s))"
    by (intro map_of_SomeD) simp
  then have "list_ex (\<lambda>(_, g). gen_engine_dormant g \<and> gen_state g \<noteq> StateDraining \<and> gen_state g \<noteq> StateRetired)
      (rs_generations s')"
    using assms(2) g by (force simp: list_ex_iff s')
  then show ?thesis
    by (simp add: validate_snapshot_def Let_def)
qed

text \<open>The texts of a generation survive the codec; a client promises it for what it stages.\<close>

definition texts_valid :: "generation \<Rightarrow> bool" where
  "texts_valid g \<longleftrightarrow> utf8_valid (gen_version g) \<and> utf8_valid (gen_commit g)"

definition all_texts_valid :: "reg_snapshot \<Rightarrow> bool" where
  "all_texts_valid s \<longleftrightarrow> list_all (\<lambda>(_, g). texts_valid g) (rs_generations s)"

definition stages_valid_texts :: "registry_op \<Rightarrow> bool" where
  "stages_valid_texts p \<longleftrightarrow> (case p of Stage g \<Rightarrow> texts_valid g | _ \<Rightarrow> True)"

lemma texts_valid_update [simp]:
  "texts_valid (g\<lparr>gen_state := st\<rparr>) = texts_valid g" "texts_valid (g\<lparr>gen_engine_dormant := dorm\<rparr>) = texts_valid g"
  by (simp_all add: texts_valid_def)

lemma list_all_update: "list_all P m \<Longrightarrow> P (k, v) \<Longrightarrow> list_all P (AList.update k v m)"
  by (induction m) auto

lemma list_all_delete: "list_all P m \<Longrightarrow> list_all P (AList.delete k m)"
  by (auto simp: list_all_iff AList.delete_eq)

lemma all_texts_validD: "all_texts_valid s \<Longrightarrow> map_of (rs_generations s) gid = Some g \<Longrightarrow> texts_valid g"
  by (auto simp: all_texts_valid_def list_all_iff dest: map_of_SomeD)

lemma stored_snapshot_id: "all_texts_valid s \<Longrightarrow> stored_snapshot s = s"
proof -
  assume "all_texts_valid s"
  then have "map (\<lambda>(gid, g). (gid, stored_generation g)) (rs_generations s) = rs_generations s"
    by (intro map_idI) (auto simp: all_texts_valid_def list_all_iff texts_valid_def stored_generation_def)
  then show ?thesis
    by (simp add: stored_snapshot_def)
qed

lemma texts_valid_generation_at: "all_texts_valid s \<Longrightarrow> texts_valid (generation_at s gid)"
  by (auto simp: generation_at_def texts_valid_def [of "zero_generation"] dest: all_texts_validD split: option.split)
    (simp_all add: zero_generation_def)

lemma all_texts_valid_same: "rs_generations s' = rs_generations s \<Longrightarrow> all_texts_valid s \<Longrightarrow> all_texts_valid s'"
  by (simp add: all_texts_valid_def)

lemma all_texts_valid_put:
  "rs_generations s' = AList.update gid g (rs_generations s) \<Longrightarrow> all_texts_valid s \<Longrightarrow> texts_valid g \<Longrightarrow> all_texts_valid s'"
  by (simp add: all_texts_valid_def list_all_update)

lemma all_texts_valid_put_two:
  "rs_generations s' = AList.update gid g (AList.update gid' g' (rs_generations s)) \<Longrightarrow> all_texts_valid s \<Longrightarrow>
     texts_valid g \<Longrightarrow> texts_valid g' \<Longrightarrow> all_texts_valid s'"
  by (simp add: all_texts_valid_def list_all_update)

lemma all_texts_valid_delete:
  "rs_generations s' = AList.delete gid (rs_generations s) \<Longrightarrow> all_texts_valid s \<Longrightarrow> all_texts_valid s'"
  by (simp add: all_texts_valid_def list_all_delete)

lemma all_texts_valid_map:
  "rs_generations s' = map (\<lambda>(gid, g). (gid, if P gid g then g\<lparr>gen_engine_dormant := True\<rparr> else g)) (rs_generations s) \<Longrightarrow>
     all_texts_valid s \<Longrightarrow> all_texts_valid s'"
  by (auto simp: all_texts_valid_def list_all_iff)

lemmas texts_intros = all_texts_valid_same all_texts_valid_put all_texts_valid_put_two all_texts_valid_delete
  all_texts_valid_map

text \<open>Every operation leaves the generations as they are, changes one or two in their state, deletes one or marks some
  dormant; \<open>Stage\<close> adds one.\<close>

lemmas mutation_defs = reg_stage_def mark_verified_def mark_ready_def transition_candidate_def reg_fail_def reg_activate_def
  finalize_activation_def abort_activation_def reg_rollback_def mark_engine_dormant_def pin_recording_def
  transfer_recording_def rollback_recording_transfer_def release_recording_def release_recording_owner_def
  clear_leases_def reconcile_cold_start_def reconcile_inventories_def reg_retire_def remove_retired_def

lemma mutation_texts:
  assumes "registry_mutation p s = Inr s'" "all_texts_valid s" "stages_valid_texts p"
  shows "all_texts_valid s'"
proof -
  note valid = assms(2) all_texts_validD [OF assms(2)] texts_valid_generation_at [OF assms(2)]
  show ?thesis
  proof (cases p)
    case (Activate gid)
    then show ?thesis
      using assms(1) valid
      by (auto simp: reg_activate_def Let_def generation_at_def [of "s\<lparr>rs_activation_previous := _\<rparr>"] generation_at_def [of s, symmetric]
          split: option.splits if_splits intro: texts_intros)
  next
    case (Stage g)
    then show ?thesis
      using assms valid
      by (auto simp: reg_stage_def stages_valid_texts_def split: option.splits if_splits intro: texts_intros)
  next
    case (ReconcileInventories ivs)
    then have "rs_generations s' = rs_generations s"
      using assms(1) by (auto simp: reconcile_inventories_def Let_def split: if_splits sum.splits)
    then show ?thesis
      using assms(2) by (rule all_texts_valid_same)
  qed (use assms(1) valid in \<open>auto simp: mutation_defs Let_def split: option.splits if_splits sum.splits intro: texts_intros\<close>)
qed

lemma validated_mutation_inv:
  assumes "reg_inv s" "registry_mutation p s = Inr s'" "validate_snapshot s' = None"
  shows "reg_inv s'"
  using mutation_inv [OF assms(1,2)] stage_dormant_rejected [of _ s s'] assms(2,3) by fastforce

lemma registry_change_state_inv:
  "reg_inv (rg_state r) \<Longrightarrow> reg_inv (rg_state (snd (registry_change outcome (registry_mutation p) r)))"
  by (auto simp: registry_change_def intro: validated_mutation_inv split: sum.split option.split persist_outcome.split)

interpretation reg: op_system "\<lambda>r p. snd (registry_apply r p)" "\<lambda>r. reg_inv (rg_state r)"
  by unfold_locales (simp add: registry_apply_def registry_change_state_inv)

text \<open>As long as clients stage valid texts, the file holds a valid snapshot too.\<close>

definition registry_inv :: "registry \<Rightarrow> bool" where
  "registry_inv r \<longleftrightarrow> reg_inv (rg_state r) \<and> all_texts_valid (rg_state r) \<and> reg_inv (rg_disk r)"

lemma registry_change_inv:
  assumes "registry_inv r" "snd p \<noteq> ReconcileInventories []" "stages_valid_texts (snd p)"
  shows "registry_inv (snd (registry_change (fst p) (registry_mutation (snd p)) r))"
proof (cases "registry_mutation (snd p) (rg_state r)")
  case (Inr s')
  have inv: "reg_inv (rg_state r)" "all_texts_valid (rg_state r)" "reg_inv (rg_disk r)"
    using assms(1) by (simp_all add: registry_inv_def)
  have s': "all_texts_valid s'"
    using mutation_texts [OF Inr inv(2) assms(3)] .
  show ?thesis
  proof (cases "validate_snapshot s'")
    case None
    have "reg_inv s'"
      using inv(1) Inr None by (rule validated_mutation_inv)
    then show ?thesis
      using inv s' Inr None stored_snapshot_id [OF s']
      by (simp add: registry_change_def registry_inv_def split: persist_outcome.split)
  qed (use assms(1) Inr in \<open>simp add: registry_change_def\<close>)
qed (use assms(1) in \<open>simp add: registry_change_def\<close>)

interpretation reg_file: guarded_system "\<lambda>r p. snd (registry_apply r p)" registry_inv "\<lambda>_ p. stages_valid_texts (snd p)"
  by unfold_locales (simp add: registry_apply_def registry_change_inv)

lemma empty_reg_inv: "reg_inv empty_reg_snapshot"
  by (simp add: empty_reg_snapshot_def reg_inv_def maps_ok_def pointers_ok_def leases_ok_def state_at_def)

lemma empty_texts_valid: "all_texts_valid empty_reg_snapshot"
  by (simp add: all_texts_valid_def empty_reg_snapshot_def)

definition run_registry :: "registry \<Rightarrow> (persist_outcome \<times> registry_op) list \<Rightarrow> registry" where
  "run_registry r ops = foldl (\<lambda>r p. snd (registry_apply r p)) r ops"

definition fresh_registry :: registry where
  "fresh_registry = \<lparr>rg_state = empty_reg_snapshot, rg_disk = empty_reg_snapshot\<rparr>"

lemma run_registry_state: "reg_inv (rg_state (run_registry fresh_registry ops))"
  unfolding run_registry_def by (rule reg.run_inv) (simp add: fresh_registry_def empty_reg_inv)

lemma run_registry_inv:
  "list_all (\<lambda>p. stages_valid_texts (snd p)) ops \<Longrightarrow> registry_inv (run_registry fresh_registry ops)"
  unfolding run_registry_def
  by (rule reg_file.run_inv)
    (simp_all add: registry_inv_def fresh_registry_def empty_reg_inv empty_texts_valid)

section \<open>A sample host\<close>

definition sample_id :: "char \<Rightarrow> string" where
  "sample_id c = replicate 32 c"

lemma sample_id_simps [simp]:
  "sample_id c = sample_id d \<longleftrightarrow> c = d" "sample_id c \<noteq> []" "[] \<noteq> sample_id c"
  "opaque_id (sample_id c) \<longleftrightarrow> is_hex c"
  by (auto simp: sample_id_def opaque_id_def uuid_shape_def list_all_iff)

lemma is_hex_abc [simp]: "is_hex CHR ''a''" "is_hex CHR ''b''" "is_hex CHR ''c''"
  by (simp_all add: is_hex_def is_hex_lower_def is_digit_def less_eq_char_def)

definition sample_generation :: "char \<Rightarrow> gen_state \<Rightarrow> generation" where
  "sample_generation c st = \<lparr>gen_id = sample_id c, gen_version = ''v'', gen_commit = ''c'', gen_adapter_set_id = [],
     gen_storage_provider_set_id = [], gen_installed_at = 1, gen_state = st, gen_engine_dormant = False,
     gen_control_protocol = 1, gen_engine_protocol = 1, gen_archive_read = \<lparr>cr_minimum = 1, cr_maximum = 1\<rparr>,
     gen_archive_write_epoch = 1\<rparr>"

lemma sample_generation_simps [simp]:
  "gen_state (sample_generation c st) = st" "gen_id (sample_generation c st) = sample_id c"
  "\<not> gen_engine_dormant (sample_generation c st)"
  by (simp_all add: sample_generation_def)

lemma sample_texts: "trim_space ''v'' = ''v''" "trim_space ''c'' = ''c''"
  by (simp_all add: trim_space_graphic graphic_def)

lemma sample_entry_ok: "is_hex c \<Longrightarrow> valid_gen_state st \<Longrightarrow> entry_ok (sample_id c) (sample_generation c st)"
  using sample_texts
  by (simp add: entry_ok_def validate_generation_def sample_generation_def contains_any_def path_chars_def)

text \<open>Generation \<open>c\<close> is ready to replace \<open>b\<close>, which replaced \<open>a\<close>; one recording runs on \<open>b\<close>.\<close>

definition sample_lease :: "char \<Rightarrow> lease" where
  "sample_lease c = \<lparr>ls_recording_id = sample_id CHR ''a'', ls_engine_generation = sample_id c,
     ls_worker_instance = sample_id CHR ''a'', ls_started_at = 1\<rparr>"

definition sample_host :: reg_snapshot where
  "sample_host = \<lparr>rs_schema_version = reg_schema_version, rs_active = sample_id CHR ''b'',
     rs_previous = sample_id CHR ''a'', rs_activation_previous = [], rs_staged = sample_id CHR ''c'',
     rs_generations = [(sample_id CHR ''a'', sample_generation CHR ''a'' StateDraining),
                       (sample_id CHR ''b'', sample_generation CHR ''b'' StateActive),
                       (sample_id CHR ''c'', sample_generation CHR ''c'' StateReady)],
     rs_leases = [(sample_id CHR ''a'', sample_lease CHR ''b'')]\<rparr>"

lemma sample_host_sel [simp]:
  "rs_active sample_host = sample_id CHR ''b''" "rs_previous sample_host = sample_id CHR ''a''"
  "rs_activation_previous sample_host = []" "rs_staged sample_host = sample_id CHR ''c''"
  "map_of (rs_generations sample_host) (sample_id CHR ''a'') = Some (sample_generation CHR ''a'' StateDraining)"
  "map_of (rs_generations sample_host) (sample_id CHR ''b'') = Some (sample_generation CHR ''b'' StateActive)"
  "map_of (rs_generations sample_host) (sample_id CHR ''c'') = Some (sample_generation CHR ''c'' StateReady)"
  by (simp_all add: sample_host_def)

lemma sample_host_inv: "reg_inv sample_host"
proof (rule reg_invI)
  show "maps_ok sample_host"
    by (auto simp: maps_ok_def sample_host_def max_generations_def max_leases_def intro!: sample_entry_ok)
  show "leases_ok (rs_generations sample_host) (rs_leases sample_host)"
    by (simp add: leases_ok_def sample_host_def sample_lease_def lease_ok_def validate_lease_def lease_usable_def)
  show "pointers_ok (state_at (rs_generations sample_host)) (rs_active sample_host) (rs_previous sample_host)
      (rs_activation_previous sample_host) (rs_staged sample_host)"
    by (rule pointers_okI) (auto simp: sample_host_def state_at_def split: if_splits)
qed

section \<open>Properties\<close>

text \<open>C7: Every run of the registry from an empty state, whatever operations are called with whatever
  arguments and whichever writes fail, leaves a snapshot in memory that validates: at most one generation is active and
  every recording lease refers to an installed Engine generation that is active or draining and not dormant.  If the
  versions and commits of the staged generations are valid UTF-8, so that the JSON encoder writes them as they are, the
  state file validates as well, also after a write that was renamed into place but not synced, and the next start opens
  it.\<close>

theorem registry_runs_are_valid:
  "let r = run_registry fresh_registry ops in
     validate_snapshot (rg_state r) = None \<and> active_count (rs_generations (rg_state r)) \<le> 1 \<and>
     list_all (\<lambda>(_, l). lease_usable (rs_generations (rg_state r)) l) (rs_leases (rg_state r)) \<and>
     (list_all (\<lambda>p. stages_valid_texts (snd p)) ops \<longrightarrow>
       open_registry (Some (rg_disk r)) ok = Inr \<lparr>rg_state = rg_disk r, rg_disk = rg_disk r\<rparr>)"
proof -
  let ?r = "run_registry fresh_registry ops"
  have inv: "reg_inv (rg_state ?r)"
    by (rule run_registry_state)
  note valid = validate_snapshot_reg_inv [OF inv]
  have "active_count (rs_generations (rg_state ?r)) \<le> 1"
    using valid by (auto simp: validate_snapshot_def Let_def split: if_splits)
  moreover have "list_all (\<lambda>(_, l). lease_usable (rs_generations (rg_state ?r)) l) (rs_leases (rg_state ?r))"
    using reg_invD(1,2) [OF inv] by (auto simp: list_all_gomap maps_ok_def leases_ok_def)
  moreover have "validate_snapshot (rg_disk ?r) = None" if "list_all (\<lambda>p. stages_valid_texts (snd p)) ops"
    using run_registry_inv [OF that] validate_snapshot_reg_inv by (simp add: registry_inv_def)
  ultimately show ?thesis
    using valid by (simp add: Let_def open_registry_def)
qed

theorem registry_runs_are_valid_witness:
  "let g = sample_generation CHR ''a'' StateStaging; r = run_registry fresh_registry [(RenamedNotSynced, Stage g)]
   in open_registry (Some (rg_disk r)) False = Inr \<lparr>rg_state = rg_disk r, rg_disk = rg_disk r\<rparr>"
proof -
  have "stages_valid_texts (Stage (sample_generation CHR ''a'' StateStaging))"
    by (simp add: stages_valid_texts_def texts_valid_def sample_generation_def sequence_length_def)
  then show ?thesis
    using registry_runs_are_valid [of "[(RenamedNotSynced, Stage (sample_generation CHR ''a'' StateStaging))]" False]
    by (simp add: Let_def)
qed

text \<open>The premise on the texts is needed.  A version that validates in memory may be longer than the limit once every
  invalid byte has become three; the state file is then one that the next start refuses.\<close>

lemma length_coerce_invalid: "length (coerce_utf8 (replicate n CHR 0xFF @ s)) = 3 * n + length (coerce_utf8 s)"
  by (induction n) (simp_all add: rune_length_def sequence_length_def replacement_char_def)

definition unreadable_generation :: generation where
  "unreadable_generation = (sample_generation CHR ''a'' StateStaging)
     \<lparr>gen_version := ''v'' @ replicate 100 CHR 0xFF @ ''v''\<rparr>"

lemma invalid_text_blocks_restart:
  "let (e, r) = registry_apply fresh_registry (Persisted, Stage unreadable_generation) in
     e = None \<and> open_registry (Some (rg_disk r)) ok = Inl (ErrInvalidState ''generation map entry is invalid'')"
proof -
  let ?g = unreadable_generation
  have "trim_space (gen_version ?g) = gen_version ?g" "trim_space (gen_commit ?g) = gen_commit ?g"
    by (rule trim_space_graphic; simp add: unreadable_generation_def sample_generation_def graphic_def)+
  then have ok: "validate_generation ?g = None"
    using is_hex_abc(1) by (simp add: validate_generation_def unreadable_generation_def sample_generation_def contains_any_def
        path_chars_def valid_gen_state_def list_ex_iff)
  have sel: "gen_state ?g = StateStaging" "gen_id ?g = sample_id CHR ''a''" "\<not> gen_engine_dormant ?g"
    by (simp_all add: unreadable_generation_def)
  have "128 < length (gen_version (stored_generation ?g))"
    by (simp add: stored_generation_def unreadable_generation_def length_coerce_invalid [simplified] rune_length_def
        sequence_length_def)
  then have bad: "validate_generation (stored_generation ?g) \<noteq> None"
    by (simp add: validate_generation_def)
  let ?s = "empty_reg_snapshot\<lparr>rs_generations := [(gen_id ?g, ?g)], rs_staged := gen_id ?g\<rparr>"
  have stage: "reg_stage ?g empty_reg_snapshot = Inr ?s"
    using ok sel by (simp add: reg_stage_def empty_reg_snapshot_def max_generations_def)
  then have "reg_inv ?s"
    using mutation_inv [OF empty_reg_inv, of "Stage ?g" ?s] sel by auto
  then have "registry_apply fresh_registry (Persisted, Stage ?g) =
      (None, \<lparr>rg_state = ?s, rg_disk = stored_snapshot ?s\<rparr>)"
    using stage validate_snapshot_reg_inv [of ?s] by (simp add: registry_apply_def registry_change_def fresh_registry_def)
  moreover have "validate_snapshot (stored_snapshot ?s) = Some (ErrInvalidState ''generation map entry is invalid'')"
    using bad by (simp add: validate_snapshot_def Let_def stored_snapshot_def empty_reg_snapshot_def max_generations_def)
  ultimately show ?thesis
    by (simp add: open_registry_def)
qed

text \<open>C26: The guards of the operations are complete.  In every state that satisfies the registry's invariant, as every
  state reached from an empty registry does, an operation whose own checks pass produces a valid snapshot, so the
  validation before every write never fires; the one exception is staging a generation that claims to be dormant, which
  only that validation rejects.  The invariant is stronger than the validation: a state file with a previous but no
  active generation validates, and after opening it the final validation does refuse an activation.\<close>

theorem registry_guards_are_complete:
  assumes "reg_inv s" "registry_mutation p s = Inr s'"
  shows "validate_snapshot s' = None \<longleftrightarrow> \<not> (case p of Stage g \<Rightarrow> gen_engine_dormant g | _ \<Rightarrow> False)"
proof (cases "\<exists>g. p = Stage g \<and> gen_engine_dormant g")
  case True
  then show ?thesis
    using assms(2) stage_dormant_rejected [of _ s s'] by fastforce
next
  case False
  then have "reg_inv s'"
    using mutation_inv [OF assms] by blast
  with False show ?thesis
    using validate_snapshot_reg_inv by (auto split: registry_op.split)
qed

theorem registry_guards_are_complete_witness:
  "validate_snapshot (sample_host\<lparr>rs_leases := []\<rparr>) = None"
  using registry_guards_are_complete [OF sample_host_inv, of ClearLeases "sample_host\<lparr>rs_leases := []\<rparr>"]
  by (simp add: clear_leases_def)

lemma activate_upgrade:
  assumes "reg_inv s" "reg_activate c s = Inr s1" "rs_active s \<noteq> []"
  obtains g old where "map_of (rs_generations s) c = Some g" "gen_state g = StateReady" "c \<noteq> rs_active s"
    "map_of (rs_generations s) (rs_active s) = Some old" "gen_state old = StateActive" "\<not> gen_engine_dormant old"
    "s1 = (put_generation c (g\<lparr>gen_state := StateActive, gen_engine_dormant := False\<rparr>)
             (put_generation (rs_active s) (old\<lparr>gen_state := StateDraining\<rparr>) s))
            \<lparr>rs_active := c, rs_previous := rs_active s, rs_activation_previous := rs_previous s, rs_staged := []\<rparr>"
proof (cases rule: activate_eq [OF assms(1,2), case_names first upgrade])
  case (upgrade g old)
  have "c \<noteq> rs_active s"
    using upgrade(1,2,5,6) by auto
  with upgrade that show thesis by blast
qed (use assms(3) in simp)

text \<open>C19: Aborting an activation restores the host.  After a second or later upgrade is activated and no
  recording has moved to it, AbortActivation succeeds and restores the active and previous pointers,
  every lease and every generation, except that the candidate is failed and no longer staged.\<close>

theorem abort_restores_previous_generation:
  assumes "reg_inv s" "reg_activate c s = Inr s1" "rs_active s \<noteq> []" "rs_previous s \<noteq> []"
  shows "\<exists>s2 g. abort_activation c (rs_active s) s1 = Inr s2 \<and> map_of (rs_generations s) c = Some g \<and>
     rs_active s2 = rs_active s \<and> rs_previous s2 = rs_previous s \<and> rs_activation_previous s2 = [] \<and>
     rs_staged s2 = [] \<and> rs_leases s2 = rs_leases s \<and>
     map_of (rs_generations s2) gid =
       (if gid = c then Some (g\<lparr>gen_state := StateFailed, gen_engine_dormant := False\<rparr>)
        else map_of (rs_generations s) gid)"
proof -
  obtain g old where g: "map_of (rs_generations s) c = Some g" "gen_state g = StateReady" "c \<noteq> rs_active s"
    and old: "map_of (rs_generations s) (rs_active s) = Some old" "gen_state old = StateActive" "\<not> gen_engine_dormant old"
    and s1: "s1 = (put_generation c (g\<lparr>gen_state := StateActive, gen_engine_dormant := False\<rparr>)
             (put_generation (rs_active s) (old\<lparr>gen_state := StateDraining\<rparr>) s))
            \<lparr>rs_active := c, rs_previous := rs_active s, rs_activation_previous := rs_previous s, rs_staged := []\<rparr>"
    using activate_upgrade [OF assms(1-3)] by blast
  have ids: "opaque_id c" "opaque_id (rs_active s)"
    using entry_ok_opaque reg_inv_entry [OF assms(1)] g(1) old(1) by blast+
  have "ls_engine_generation l \<noteq> c" if "map_of (rs_leases s) rid = Some l" for rid l
    using that g(2) by (intro unusable_not_leased [OF assms(1) g(1)]) auto
  then have free: "\<not> leased s1 c"
    using leased_iff [OF assms(1), of c] by (auto simp: leased_def s1)
  have restored: "old\<lparr>gen_state := StateActive, gen_engine_dormant := False\<rparr> = old"
    using old(2,3) by simp
  show ?thesis
    using ids free g assms(4) restored old(1) unfolding abort_activation_def
    by (simp add: s1)
qed

theorem abort_restores_previous_generation_witness:
  "\<exists>s1 s2. reg_activate (sample_id CHR ''c'') sample_host = Inr s1 \<and>
     abort_activation (sample_id CHR ''c'') (sample_id CHR ''b'') s1 = Inr s2 \<and>
     rs_active s2 = sample_id CHR ''b''"
proof -
  have "\<exists>s1. reg_activate (sample_id CHR ''c'') sample_host = Inr s1"
    by (simp add: reg_activate_def Let_def)
  then show ?thesis
    using abort_restores_previous_generation [OF sample_host_inv] by fastforce
qed

text \<open>C27: The activation journal of the first upgrade is empty.  When the active generation has no
  predecessor, activating a candidate records nothing that marks the activation as pending: finalising
  it changes nothing, and AbortActivation, which the Host relies on to undo a failed activation,
  refuses with an invalid transition for every claimed predecessor.\<close>

theorem first_upgrade_cannot_be_aborted:
  assumes "reg_inv s" "reg_activate c s = Inr s1" "rs_active s \<noteq> []" "rs_previous s = []"
  shows "finalize_activation c s1 = Inr s1 \<and>
     abort_activation c (rs_active s) s1 =
       Inl (ErrInvalidTransition ''activation rollback does not match current generations'')"
proof -
  obtain g old where g: "map_of (rs_generations s) c = Some g"
    and old: "map_of (rs_generations s) (rs_active s) = Some old"
    and s1: "s1 = (put_generation c (g\<lparr>gen_state := StateActive, gen_engine_dormant := False\<rparr>)
             (put_generation (rs_active s) (old\<lparr>gen_state := StateDraining\<rparr>) s))
            \<lparr>rs_active := c, rs_previous := rs_active s, rs_activation_previous := rs_previous s, rs_staged := []\<rparr>"
    using activate_upgrade [OF assms(1-3)] by blast
  have "opaque_id c" "opaque_id (rs_active s)"
    using entry_ok_opaque reg_inv_entry [OF assms(1)] g(1) old(1) by blast+
  then show ?thesis
    using assms(4) by (simp add: s1 finalize_activation_def abort_activation_def)
qed

lemma sample_first_inv: "reg_inv (sample_host\<lparr>rs_previous := []\<rparr>)"
  using reg_invD [OF sample_host_inv] by (intro reg_invI) (simp_all add: pointers_ok_def)

theorem first_upgrade_cannot_be_aborted_witness:
  "\<exists>s1. reg_activate (sample_id CHR ''c'') (sample_host\<lparr>rs_previous := []\<rparr>) = Inr s1 \<and>
     abort_activation (sample_id CHR ''c'') (sample_id CHR ''b'') s1 =
       Inl (ErrInvalidTransition ''activation rollback does not match current generations'')"
proof -
  have "\<exists>s1. reg_activate (sample_id CHR ''c'') (sample_host\<lparr>rs_previous := []\<rparr>) = Inr s1"
    by (simp add: reg_activate_def Let_def)
  then show ?thesis
    using first_upgrade_cannot_be_aborted [OF sample_first_inv] by fastforce
qed

text \<open>Rolling back twice returns to where the host was: the pointers, the leases and the state of
  every generation are the same again.\<close>

theorem rollback_is_an_involution:
  assumes "reg_inv s" "reg_rollback s = Inr s1"
  shows "\<exists>s2. reg_rollback s1 = Inr s2 \<and> rs_active s2 = rs_active s \<and> rs_previous s2 = rs_previous s \<and>
     rs_leases s2 = rs_leases s \<and> state_at (rs_generations s2) = state_at (rs_generations s)"
proof (cases rule: rollback_eq [OF assms, case_names rb])
  case (rb gp ga)
  have ne: "rs_previous s \<noteq> rs_active s"
    using rb(4-7) by auto
  have at: "state_at (rs_generations s) (rs_previous s) = Some StateDraining"
    "state_at (rs_generations s) (rs_active s) = Some StateActive"
    using state_atI [OF rb(4)] state_atI [OF rb(6)] rb(5,7) by simp_all
  show ?thesis
    using rb(1-3) ne at unfolding reg_rollback_def
    by (auto simp: rb(9) generation_at_def registry_simps fun_eq_iff)
qed

theorem rollback_is_an_involution_witness:
  "\<exists>s1 s2. reg_rollback sample_host = Inr s1 \<and> reg_rollback s1 = Inr s2 \<and> rs_active s2 = sample_id CHR ''b''"
proof -
  have "\<exists>s1. reg_rollback sample_host = Inr s1"
    by (simp add: reg_rollback_def)
  then show ?thesis
    using rollback_is_an_involution [OF sample_host_inv] by fastforce
qed

text \<open>C28: Reconciling confirmed inventories is exact.  When a batch is accepted, a recording holds
  precisely the lease its Engine reported; a recording no Engine reported loses its lease if and only
  if the generation that held it reported; nothing but leases changes, and no lease ever moves to
  another generation.\<close>

theorem reconcile_inventories_exact:
  assumes "reg_inv s" "reconcile_inventories ivs s = Inr s'"
  shows "map_of (rs_leases s') r =
      (case map_of (inventory_leases ivs) r of
         Some l \<Rightarrow> Some l
       | None \<Rightarrow> (case map_of (rs_leases s) r of
           None \<Rightarrow> None
         | Some l \<Rightarrow> if ls_engine_generation l \<in> ei_engine_generation ` set ivs then None else Some l)) \<and>
    s' = s\<lparr>rs_leases := rs_leases s'\<rparr> \<and>
    (case (map_of (rs_leases s) r, map_of (rs_leases s') r) of
       (Some l, Some l') \<Rightarrow> ls_engine_generation l' = ls_engine_generation l | _ \<Rightarrow> True)"
proof -
  note R = reconcile_spec [OF assms]
  have "ls_engine_generation l' = ls_engine_generation l"
    if "map_of (rs_leases s) r = Some l" "map_of (rs_leases s') r = Some l'" for l l'
    using that R(1) [of r] R(5)
    by (fastforce simp: reconcilable_def split: option.splits if_splits dest: map_of_SomeD)
  note moved = this
  have same: "case (map_of (rs_leases s) r, map_of (rs_leases s') r) of
       (Some l, Some l') \<Rightarrow> ls_engine_generation l' = ls_engine_generation l | _ \<Rightarrow> True"
  proof (cases "map_of (rs_leases s) r")
    case (Some l)
    then show ?thesis
      using moved [OF Some] by (auto split: option.split)
  qed simp
  show ?thesis
    by (rule conjI [OF R(1) conjI [OF R(2) same]])
qed

definition sample_inventory :: engine_inventory where
  "sample_inventory = \<lparr>ei_confirmed = True, ei_engine_generation = sample_id CHR ''b'',
     ei_worker_instance = sample_id CHR ''a'', ei_observed_at = 5, ei_recordings = []\<rparr>"

theorem reconcile_inventories_exact_witness:
  "\<exists>s'. reconcile_inventories [sample_inventory] sample_host = Inr s' \<and>
     map_of (rs_leases s') (sample_id CHR ''a'') = None"
proof -
  have "\<exists>s'. reconcile_inventories [sample_inventory] sample_host = Inr s'"
    by (simp add: reconcile_inventories_def sample_inventory_def validate_inventory_def max_generations_def
        max_leases_def inventory_leases_def sample_host_def)
  then obtain s' where s': "reconcile_inventories [sample_inventory] sample_host = Inr s'"
    by blast
  show ?thesis
    using reconcile_inventories_exact [OF sample_host_inv s', of "sample_id CHR ''a''"] s'
    by (auto simp: inventory_leases_def sample_inventory_def sample_host_def sample_lease_def)
qed

end
