(* ===== verification/Go_Json.thy ===== *)
theory Go_Json
  imports Go_Encoding
begin

text \<open>
  The part of \<^verbatim>\<open>encoding/json\<close> that reads a flat object from bytes: white space, string literals with their escapes,
  numbers and \<open>null\<close>, and the matching of member names to field names.  A member whose value is an array, an object, a
  boolean or a number with a fraction or an exponent is accepted by no field of the structs that are read this way, so
  the reader refuses it like malformed text.  The last section has the reader's effect on what \<open>Marshal\<close> writes.
\<close>

section \<open>Tokens\<close>

definition quote_mark :: char where "quote_mark = CHR 0x22"
definition backslash :: char where "backslash = CHR 0x5C"

definition json_space :: "char \<Rightarrow> bool" where
  "json_space c \<longleftrightarrow> c \<in> set [CHR 0x20, CHR 0x09, CHR 0x0A, CHR 0x0D]"

abbreviation skip_space :: "string \<Rightarrow> string" where
  "skip_space \<equiv> dropWhile json_space"

definition expect :: "char \<Rightarrow> string \<Rightarrow> string option" where
  "expect c s = (case skip_space s of [] \<Rightarrow> None | d # t \<Rightarrow> if d = c then Some t else None)"

definition hex_value :: "char \<Rightarrow> nat" where
  "hex_value c = (if is_digit c then byte c - 48 else if is_hex_lower c then byte c - 87 else byte c - 55)"

definition unit_value :: "string \<Rightarrow> nat option" where
  "unit_value s =
     (if 4 \<le> length s \<and> list_all is_hex (take 4 s) then Some (foldl (\<lambda>n c. 16 * n + hex_value c) 0 (take 4 s)) else None)"

definition encode_rune :: "nat \<Rightarrow> string" where
  "encode_rune n =
     (if n < 0x80 then [char_of n]
      else if n < 0x800 then [char_of (0xC0 + n div 64), char_of (0x80 + n mod 64)]
      else if n < 0x10000 then [char_of (0xE0 + n div 4096), char_of (0x80 + n div 64 mod 64), char_of (0x80 + n mod 64)]
      else [char_of (0xF0 + n div 262144), char_of (0x80 + n div 4096 mod 64), char_of (0x80 + n div 64 mod 64),
            char_of (0x80 + n mod 64)])"

text \<open>An escape after the backslash: its text and the number of characters read.  A surrogate stands for a rune only
  together with a second escaped surrogate that completes it.\<close>

definition low_surrogate :: "string \<Rightarrow> nat option" where
  "low_surrogate s =
     (if take 2 s = [backslash, CHR ''u''] then
        (case unit_value (drop 2 s) of None \<Rightarrow> None | Some m \<Rightarrow> if 0xDC00 \<le> m \<and> m < 0xE000 then Some m else None)
      else None)"

definition unicode_escape :: "string \<Rightarrow> (string \<times> nat) option" where
  "unicode_escape s =
     (case unit_value s of
        None \<Rightarrow> None
      | Some n \<Rightarrow>
          if n < 0xD800 \<or> 0xE000 \<le> n then Some (encode_rune n, 4)
          else if 0xDC00 \<le> n then Some (replacement_char, 4)
          else (case low_surrogate (drop 4 s) of
              None \<Rightarrow> Some (replacement_char, 4)
            | Some m \<Rightarrow> Some (encode_rune (0x10000 + (n - 0xD800) * 1024 + (m - 0xDC00)), 10)))"

definition json_escape :: "string \<Rightarrow> (string \<times> nat) option" where
  "json_escape s =
     (case s of
        [] \<Rightarrow> None
      | c # t \<Rightarrow>
          if c = CHR ''u'' then map_option (map_prod id Suc) (unicode_escape t)
          else map_option (\<lambda>d. ([d], 1))
            (map_of [(quote_mark, quote_mark), (backslash, backslash), (CHR ''/'', CHR ''/''), (CHR ''b'', CHR 0x08),
               (CHR ''f'', CHR 0x0C), (CHR ''n'', CHR 0x0A), (CHR ''r'', CHR 0x0D), (CHR ''t'', CHR 0x09)] c))"

text \<open>The rest of a string literal after its opening quote.\<close>

fun json_string_body :: "string \<Rightarrow> (string \<times> string) option" where
  "json_string_body [] = None"
| "json_string_body (c # s) =
     (if c = quote_mark then Some ([], s)
      else if byte c < 0x20 then None
      else if c = backslash then
        (case json_escape s of
           None \<Rightarrow> None
         | Some (t, n) \<Rightarrow> map_option (map_prod (\<lambda>u. t @ u) id) (json_string_body (drop n s)))
      else map_option (map_prod (\<lambda>u. c # u) id) (json_string_body s))"

definition json_text :: "string \<Rightarrow> (string \<times> string) option" where
  "json_text s = map_option (map_prod coerce_utf8 id) (Option.bind (expect quote_mark s) json_string_body)"

section \<open>Objects\<close>

datatype json_scalar = JNull | JText string | JNumber string

definition json_number :: "string \<Rightarrow> (json_scalar \<times> string) option" where
  "json_number s =
     (let sign = (if take 1 s = ''-'' then ''-'' else []);
          digits = takeWhile is_digit (drop (length sign) s);
          rest = dropWhile is_digit (drop (length sign) s)
      in if digits = [] \<or> (hd digits = CHR ''0'' \<and> digits \<noteq> ''0'') then None else Some (JNumber (sign @ digits), rest))"

definition json_scalar_value :: "string \<Rightarrow> (json_scalar \<times> string) option" where
  "json_scalar_value s =
     (let t = skip_space s
      in if take 4 t = ''null'' then Some (JNull, drop 4 t)
         else if take 1 t = [quote_mark] then map_option (map_prod JText id) (json_text t)
         else json_number t)"

definition json_member :: "string \<Rightarrow> ((string \<times> json_scalar) \<times> string) option" where
  "json_member s =
     Option.bind (json_text s) (\<lambda>(name, t). Option.bind (expect CHR '':'' t) (\<lambda>u.
       map_option (map_prod (Pair name) id) (json_scalar_value u)))"

lemma expect_shorter: "expect c s = Some t \<Longrightarrow> length t < length s"
  using length_dropWhile_le [of json_space s] by (auto simp: expect_def split: list.splits if_splits)

lemma json_string_body_shorter: "json_string_body s = Some (t, r) \<Longrightarrow> length r < length s"
proof (induction s arbitrary: t r rule: json_string_body.induct)
  case (2 c s)
  then show ?case
    by (fastforce split: if_splits option.splits prod.splits)
qed simp

lemma json_text_shorter: "json_text s = Some (t, r) \<Longrightarrow> length r < length s"
  using expect_shorter json_string_body_shorter
  by (fastforce simp: json_text_def bind_eq_Some_conv)

lemma json_scalar_shorter: "json_scalar_value s = Some (v, r) \<Longrightarrow> length r \<le> length s"
proof -
  assume v: "json_scalar_value s = Some (v, r)"
  have "length r \<le> length (skip_space s)"
    using v json_text_shorter [of "skip_space s"] length_dropWhile_le [of is_digit]
    by (fastforce simp: json_scalar_value_def json_number_def Let_def intro: order_trans split: if_splits)
  then show ?thesis
    using length_dropWhile_le [of json_space s] by linarith
qed

lemma json_member_shorter: "json_member s = Some (m, r) \<Longrightarrow> length r < length s"
proof -
  assume "json_member s = Some (m, r)"
  then obtain name t u v where "json_text s = Some (name, t)" "expect CHR '':'' t = Some u" "json_scalar_value u = Some (v, r)"
    by (auto simp: json_member_def bind_eq_Some_conv)
  then show ?thesis
    using json_text_shorter expect_shorter json_scalar_shorter by fastforce
qed

text \<open>The members after the opening brace: at least one, separated by commas, up to the closing brace.\<close>

function json_members :: "string \<Rightarrow> ((string \<times> json_scalar) list \<times> string) option" where
  "json_members s =
     (case json_member s of
        None \<Rightarrow> None
      | Some (m, t) \<Rightarrow>
          (case skip_space t of
             [] \<Rightarrow> None
           | c # u \<Rightarrow>
               if c = CHR '','' then map_option (map_prod (Cons m) id) (json_members u)
               else if c = CHR ''}'' then Some ([m], u) else None))"
  by pat_completeness auto
termination
proof (relation "measure length")
  fix s p m t c u
  assume "json_member s = Some p" "(m, t) = p" "skip_space t = c # u"
  then show "(u, s) \<in> measure length"
    using json_member_shorter [of s m t] length_dropWhile_le [of json_space t] by simp
qed simp

declare json_members.simps [simp del]

text \<open>One object and nothing but white space around it.\<close>

definition json_object :: "string \<Rightarrow> (string \<times> json_scalar) list option" where
  "json_object s =
     Option.bind (expect CHR ''{'' s) (\<lambda>t.
       Option.bind (case expect CHR ''}'' t of Some u \<Rightarrow> Some ([], u) | None \<Rightarrow> json_members t) (\<lambda>(ms, r).
         if skip_space r = [] then Some ms else None))"

section \<open>Fields\<close>

text \<open>Names are compared without regard to case; the long s and the Kelvin sign fold to ASCII letters.\<close>

fun fold_name :: "string \<Rightarrow> string" where
  "fold_name [] = []"
| "fold_name (c # s) =
     (if c = CHR 0xC5 \<and> take 1 s = [CHR 0xBF] then CHR ''S'' # fold_name (drop 1 s)
      else if c = CHR 0xE2 \<and> take 2 s = [CHR 0x84, CHR 0xAA] then CHR ''K'' # fold_name (drop 2 s)
      else if CHR ''a'' \<le> c \<and> c \<le> CHR ''z'' then char_of (byte c - 32) # fold_name s
      else c # fold_name s)"

definition names_field :: "string \<Rightarrow> string \<Rightarrow> bool" where
  "names_field key field \<longleftrightarrow> fold_name key = fold_name field"

text \<open>What a field of each type makes of a value: \<open>None\<close> is a type error, \<open>null\<close> leaves the old value.\<close>

definition decode_text :: "json_scalar \<Rightarrow> string \<Rightarrow> string option" where
  "decode_text v old = (case v of JNull \<Rightarrow> Some old | JText s \<Rightarrow> Some s | JNumber _ \<Rightarrow> None)"

definition decode_int :: "json_scalar \<Rightarrow> int \<Rightarrow> int option" where
  "decode_int v old = (case v of JNull \<Rightarrow> Some old | JText _ \<Rightarrow> None | JNumber n \<Rightarrow> parse_int64 n)"

definition decode_u64 :: "json_scalar \<Rightarrow> u64 \<Rightarrow> u64 option" where
  "decode_u64 v old = (case v of JNull \<Rightarrow> Some old | JText _ \<Rightarrow> None | JNumber n \<Rightarrow> parse_uint64 n)"

section \<open>Writing\<close>

text \<open>The encoder on texts that need no escape: printable ASCII without quotes, backslashes, and the characters it
  escapes for HTML.\<close>

definition plain_char :: "char \<Rightarrow> bool" where
  "plain_char c \<longleftrightarrow> graphic c \<and> c \<notin> set [quote_mark, backslash, CHR ''<'', CHR ''>'', CHR ''&'']"

definition json_string :: "string \<Rightarrow> string" where
  "json_string s = [quote_mark] @ s @ [quote_mark]"

definition json_field :: "string \<Rightarrow> string \<Rightarrow> string" where
  "json_field name text = json_string name @ CHR '':'' # text"

section \<open>Reading what was written\<close>

lemma graphic_not_space: "graphic c \<Longrightarrow> \<not> json_space c"
  by (auto simp: json_space_def graphic_def)

lemma plain_not_control: "plain_char c \<Longrightarrow> \<not> byte c < 0x20 \<and> c \<noteq> quote_mark \<and> c \<noteq> backslash"
  by (auto simp: plain_char_def graphic_def)

lemma plain_utf8: "list_all plain_char s \<Longrightarrow> utf8_valid s"
  using utf8_valid_graphic [of s] by (auto simp: list_all_iff plain_char_def)

lemma expect_here: "graphic c \<Longrightarrow> expect c (c # s) = Some s"
  by (simp add: expect_def graphic_not_space)

lemma expect_other: "graphic d \<Longrightarrow> d \<noteq> c \<Longrightarrow> expect c (d # s) = None"
  by (simp add: expect_def graphic_not_space)

lemma json_string_body_plain: "list_all plain_char s \<Longrightarrow> json_string_body (s @ quote_mark # r) = Some (s, r)"
  by (induction s) (auto simp: plain_not_control)

lemma quote_graphic: "graphic quote_mark"
  by (simp add: graphic_def quote_mark_def)

lemma json_text_string: "list_all plain_char s \<Longrightarrow> json_text (json_string s @ r) = Some (s, r)"
  by (simp add: json_text_def json_string_def expect_here quote_graphic json_string_body_plain plain_utf8)

lemma digit_graphic: "is_digit c \<Longrightarrow> graphic c"
  by (auto simp: is_digit_def less_eq_char_def graphic_def)

lemma dec_nat_no_zero: "hd (dec_nat n) = CHR ''0'' \<Longrightarrow> dec_nat n = ''0''"
proof (induction n rule: dec_nat.induct)
  case (1 n)
  show ?case
  proof (cases "n < 10")
    case True
    then have d: "dec_nat n = [digit_char n]"
      by (subst dec_nat.simps) simp
    then show ?thesis
      using 1(2) by simp
  next
    case False
    then have "dec_nat n = dec_nat (n div 10) @ [digit_char (n mod 10)]"
      by (subst dec_nat.simps) simp
    then have "dec_nat (n div 10) = ''0''"
      using 1 False by simp
    then have "n div 10 = 0"
      using dec_value_dec_nat [of "n div 10"] by (simp add: dec_value_def digit_value_def)
    with False show ?thesis by simp
  qed
qed

lemma json_number_dec_nat: "\<not> is_digit c \<Longrightarrow> json_number (dec_nat n @ c # r) = Some (JNumber (dec_nat n), c # r)"
proof -
  assume c: "\<not> is_digit c"
  have "hd (dec_nat n) \<noteq> CHR ''-''"
    using dec_nat_hd [of n] by (auto simp: is_digit_def less_eq_char_def)
  then have "take 1 (dec_nat n @ c # r) \<noteq> ''-''"
    using dec_nat_nonempty [of n] by (cases "dec_nat n") auto
  moreover have "takeWhile is_digit (dec_nat n @ c # r) = dec_nat n" "dropWhile is_digit (dec_nat n @ c # r) = c # r"
    using c dec_nat_digits [of n] by (simp_all add: takeWhile_append2 dropWhile_append2 list_all_iff)
  ultimately show ?thesis
    using dec_nat_no_zero [of n] by (simp add: json_number_def Let_def)
qed

lemma json_scalar_number: "\<not> is_digit c \<Longrightarrow> json_scalar_value (dec_nat n @ c # r) = Some (JNumber (dec_nat n), c # r)"
proof -
  assume c: "\<not> is_digit c"
  obtain d s where n: "dec_nat n = d # s" and d: "is_digit d"
    using dec_nat_nonempty [of n] dec_nat_hd [of n] by (cases "dec_nat n") auto
  then have "skip_space (dec_nat n @ c # r) = dec_nat n @ c # r" "d \<noteq> quote_mark" "d \<noteq> CHR ''n''"
    using graphic_not_space [OF digit_graphic [OF d]] by (auto simp: is_digit_def less_eq_char_def quote_mark_def)
  then show ?thesis
    using json_number_dec_nat [OF c, of n r] n by (simp add: json_scalar_value_def Let_def)
qed

lemma json_scalar_string: "list_all plain_char s \<Longrightarrow> json_scalar_value (json_string s @ r) = Some (JText s, r)"
proof -
  assume "list_all plain_char s"
  moreover have "skip_space (json_string s @ r) = json_string s @ r" "take 1 (json_string s @ r) = [quote_mark]"
    "take 4 (json_string s @ r) \<noteq> ''null''"
    by (simp_all add: json_string_def graphic_not_space quote_graphic quote_mark_def [THEN arg_cong [where f = "\<lambda>c. c = _"]])
  ultimately show ?thesis
    by (simp add: json_scalar_value_def json_text_string)
qed

lemma json_member_field:
  assumes "list_all plain_char name" "json_scalar_value (text @ r) = Some (v, r)"
  shows "json_member (json_field name text @ r) = Some ((name, v), r)"
proof -
  have "json_text (json_string name @ CHR '':'' # text @ r) = Some (name, CHR '':'' # text @ r)"
    using assms(1) by (rule json_text_string)
  moreover have "expect CHR '':'' (CHR '':'' # text @ r) = Some (text @ r)"
    by (rule expect_here) (simp add: graphic_def)
  ultimately show ?thesis
    using assms(2) by (simp add: json_member_def json_field_def)
qed

lemma separators [simp]: "\<not> is_digit CHR '',''" "\<not> is_digit CHR ''}''" "\<not> json_space CHR '',''" "\<not> json_space CHR ''}''"
  by (simp_all add: is_digit_def less_eq_char_def json_space_def)

lemma json_members_more:
  "json_member s = Some (m, CHR '','' # t) \<Longrightarrow> json_members s = map_option (map_prod (Cons m) id) (json_members t)"
  by (subst json_members.simps) simp

lemma json_members_last: "json_member s = Some (m, CHR ''}'' # t) \<Longrightarrow> json_members s = Some ([m], t)"
  by (subst json_members.simps) simp

lemma json_members_text:
  assumes "list_all plain_char name" "list_all plain_char s"
  shows "json_members (json_field name (json_string s) @ CHR '','' # r) =
      map_option (map_prod (Cons (name, JText s)) id) (json_members r)"
    "json_members (json_field name (json_string s) @ CHR ''}'' # r) = Some ([(name, JText s)], r)"
  by (intro json_members_more json_members_last json_member_field json_scalar_string assms)+

lemma json_members_number:
  assumes "list_all plain_char name"
  shows "json_members (json_field name (dec_nat n) @ CHR '','' # r) =
      map_option (map_prod (Cons (name, JNumber (dec_nat n))) id) (json_members r)"
    "json_members (json_field name (dec_nat n) @ CHR ''}'' # r) = Some ([(name, JNumber (dec_nat n))], r)"
  by (intro json_members_more json_members_last json_member_field json_scalar_number assms separators)+

lemma json_object_members:
  assumes "json_members (json_field name text @ s) = Some (ms, r)" "skip_space r = []"
  shows "json_object (CHR ''{'' # json_field name text @ s) = Some ms"
proof -
  have "expect CHR ''}'' (json_field name text @ s) = None"
    using expect_other [OF quote_graphic] by (simp add: json_field_def json_string_def quote_mark_def)
  moreover have "expect CHR ''{'' (CHR ''{'' # json_field name text @ s) = Some (json_field name text @ s)"
    by (rule expect_here) (simp add: graphic_def)
  ultimately show ?thesis
    using assms by (simp add: json_object_def)
qed

end
