(* ===== verification/Recording_Owner.thy ===== *)
theory Recording_Owner
  imports Go_Json
begin

text \<open>
  The durable fencing records of Recording writers,
  \<^verbatim>\<open>internal/runtimehost/recordingowner/store.go\<close>.  The owners directory is a map from file names to
  files; a file carries its kind, permissions, size and bytes, and a record is written and read as JSON text.
  Every operation takes what the operating system decided: whether the lock was granted and how far
  the write of the temporary file, its rename and the directory sync got, a crash included.  Commit
  and recovery callbacks are functions on a state \<open>'w\<close> of the caller.
\<close>

section \<open>Records and files\<close>

datatype owner_error =
    ErrNotFound | ErrAlreadyOwned | ErrStaleOwner | ErrInvalidIdentity | ErrInvalidOwnerState
  | ErrEpochOverflow | ErrInvalidCommit | ErrInvalidRecovery | ErrIO | ErrCallback

record owner =
  ow_recording_id :: string
  ow_generation :: string
  ow_worker :: string
  ow_epoch :: u64

record owner_record =
  or_schema :: int
  or_recording_id :: string
  or_generation :: string
  or_worker :: string
  or_epoch :: u64
  or_state :: string

datatype file_kind = Regular | Directory | Symlink | OtherKind

record dir_file =
  df_kind :: file_kind
  df_perm :: nat
  df_size :: int
  df_content :: string

type_synonym owner_dir = "(string, dir_file) gomap"

definition owner_schema :: int where "owner_schema = 1"
definition max_record_size :: int where "max_record_size = 4096"
definition lock_shards :: nat where "lock_shards = 256"
definition private_perm :: nat where "private_perm = 384"
definition lock_dir_name :: string where "lock_dir_name = ''locks''"
definition owner_active :: string where "owner_active = ''active''"
definition owner_fenced :: string where "owner_fenced = ''fenced''"

definition effective_owner_state :: "string \<Rightarrow> string" where
  "effective_owner_state st = (if st = [] then owner_active else st)"

definition valid_owner_state :: "string \<Rightarrow> bool" where
  "valid_owner_state st \<longleftrightarrow> st = [] \<or> st = owner_active \<or> st = owner_fenced"

definition valid_owner_identity :: "owner \<Rightarrow> bool" where
  "valid_owner_identity x \<longleftrightarrow> hex32 (ow_recording_id x) \<and> opaque_id (ow_generation x) \<and>
     opaque_id (ow_worker x) \<and> 0 < ow_epoch x"

definition record_owner :: "owner_record \<Rightarrow> owner" where
  "record_owner r = \<lparr>ow_recording_id = or_recording_id r, ow_generation = or_generation r,
     ow_worker = or_worker r, ow_epoch = or_epoch r\<rparr>"

definition owner_path :: "string \<Rightarrow> string" where
  "owner_path rid = rid @ ''.json''"

text \<open>
  Strict decoding of the bytes: every member must name a field, in any case, and have its type; a repeated member
  overwrites, and a missing one leaves the zero value.  \<open>state_encoded\<close> is the second decoding, which only asks whether
  a member is called exactly \<^verbatim>\<open>state\<close>.
\<close>

definition zero_owner_record :: owner_record where
  "zero_owner_record = \<lparr>or_schema = 0, or_recording_id = [], or_generation = [], or_worker = [], or_epoch = 0, or_state = []\<rparr>"

definition decode_owner_member :: "string \<times> json_scalar \<Rightarrow> owner_record \<Rightarrow> owner_record option" where
  "decode_owner_member m r =
     (let key = fst m; v = snd m
      in if names_field key ''schema_version'' then map_option (\<lambda>n. r\<lparr>or_schema := n\<rparr>) (decode_int v (or_schema r))
      else if names_field key ''recording_id''
      then map_option (\<lambda>s. r\<lparr>or_recording_id := s\<rparr>) (decode_text v (or_recording_id r))
      else if names_field key ''engine_generation''
      then map_option (\<lambda>s. r\<lparr>or_generation := s\<rparr>) (decode_text v (or_generation r))
      else if names_field key ''worker_instance'' then map_option (\<lambda>s. r\<lparr>or_worker := s\<rparr>) (decode_text v (or_worker r))
      else if names_field key ''epoch'' then map_option (\<lambda>n. r\<lparr>or_epoch := n\<rparr>) (decode_u64 v (or_epoch r))
      else if names_field key ''state'' then map_option (\<lambda>s. r\<lparr>or_state := s\<rparr>) (decode_text v (or_state r))
      else None)"

fun decode_owner_members :: "(string \<times> json_scalar) list \<Rightarrow> owner_record \<Rightarrow> owner_record option" where
  "decode_owner_members [] r = Some r"
| "decode_owner_members (m # ms) r =
     (case decode_owner_member m r of None \<Rightarrow> None | Some r' \<Rightarrow> decode_owner_members ms r')"

definition state_encoded :: "(string \<times> json_scalar) list \<Rightarrow> bool" where
  "state_encoded ms \<longleftrightarrow> ''state'' \<in> fst ` set ms"

definition decode_owner_file :: "string \<Rightarrow> dir_file \<Rightarrow> owner_error + owner_record" where
  "decode_owner_file rid f =
     (if df_kind f \<noteq> Regular \<or> df_size f \<le> 0 \<or> max_record_size < df_size f \<or> df_perm f \<noteq> private_perm \<or>
         df_content f = [] \<or> max_record_size < int (length (df_content f))
      then Inl ErrInvalidOwnerState
      else case json_object (df_content f) of
        None \<Rightarrow> Inl ErrInvalidOwnerState
      | Some ms \<Rightarrow>
          (case decode_owner_members ms zero_owner_record of
             None \<Rightarrow> Inl ErrInvalidOwnerState
           | Some r \<Rightarrow>
               if or_schema r \<noteq> owner_schema \<or> or_recording_id r \<noteq> rid \<or>
                  \<not> valid_owner_identity (record_owner r) \<or> \<not> valid_owner_state (or_state r) \<or>
                  (state_encoded ms \<and> or_state r \<noteq> owner_active \<and> or_state r \<noteq> owner_fenced)
               then Inl ErrInvalidOwnerState
               else Inr r))"

definition read_owner_record :: "string \<Rightarrow> owner_dir \<Rightarrow> owner_error + owner_record" where
  "read_owner_record rid d =
     (case map_of d (owner_path rid) of None \<Rightarrow> Inl ErrNotFound | Some f \<Rightarrow> decode_owner_file rid f)"

definition read_owner :: "string \<Rightarrow> owner_dir \<Rightarrow> owner_error + owner" where
  "read_owner rid d =
     (case read_owner_record rid d of
        Inl e \<Rightarrow> Inl e
      | Inr r \<Rightarrow> if effective_owner_state (or_state r) \<noteq> owner_active then Inl ErrNotFound
                else Inr (record_owner r))"

text \<open>The JSON text of a record; the writer has validated its texts by then, so none of them needs escaping.\<close>

definition marshal_owner_record :: "owner_record \<Rightarrow> string" where
  "marshal_owner_record r =
     ''{'' @ json_field ''schema_version'' (dec_nat (nat (or_schema r))) @ '','' @
     json_field ''recording_id'' (json_string (or_recording_id r)) @ '','' @
     json_field ''engine_generation'' (json_string (or_generation r)) @ '','' @
     json_field ''worker_instance'' (json_string (or_worker r)) @ '','' @
     json_field ''epoch'' (dec_nat (unat (or_epoch r))) @
     (if or_state r = [] then [] else '','' @ json_field ''state'' (json_string (or_state r))) @ ''}''"

text \<open>
  How a write ends: published and synced; failed with the temporary file cleaned up; interrupted by a
  crash that leaves the temporary file \<open>.owner-n.tmp\<close> with its first \<open>k\<close> bytes; or renamed into place
  with a failed directory sync.
\<close>

datatype write_outcome = Written | WriteFailed | WriteCrashed nat nat | RenamedUnsynced

definition owner_temp_path :: "nat \<Rightarrow> string" where
  "owner_temp_path n = ''.owner-'' @ dec_nat (n mod 2 ^ 32) @ ''.tmp''"

definition make_owner_record :: "owner \<Rightarrow> string \<Rightarrow> owner_record" where
  "make_owner_record x st = \<lparr>or_schema = owner_schema, or_recording_id = ow_recording_id x,
     or_generation = ow_generation x, or_worker = ow_worker x, or_epoch = ow_epoch x, or_state = st\<rparr>"

definition write_owner_record ::
    "write_outcome \<Rightarrow> owner \<Rightarrow> string \<Rightarrow> owner_dir \<Rightarrow> owner_error option \<times> owner_dir" where
  "write_owner_record w x st d =
     (if \<not> valid_owner_identity x then (Some ErrInvalidIdentity, d)
      else if \<not> valid_owner_state st then (Some ErrInvalidOwnerState, d)
      else
        let r = make_owner_record x st;
            data = marshal_owner_record r;
            n = int (length data) + 1;
            published = AList.update (owner_path (ow_recording_id x))
              \<lparr>df_kind = Regular, df_perm = private_perm, df_size = n, df_content = data @ [CHR 0x0A]\<rparr> d
        in if max_record_size < n then (Some ErrInvalidOwnerState, d)
           else case w of
             Written \<Rightarrow> (None, published)
           | RenamedUnsynced \<Rightarrow> (Some ErrIO, published)
           | WriteFailed \<Rightarrow> (Some ErrIO, d)
           | WriteCrashed m k \<Rightarrow> (Some ErrIO, AList.update (owner_temp_path m)
               \<lparr>df_kind = Regular, df_perm = private_perm, df_size = min (int k) n,
                  df_content = take k (data @ [CHR 0x0A])\<rparr> d))"

definition write_owner :: "write_outcome \<Rightarrow> owner \<Rightarrow> owner_dir \<Rightarrow> owner_error option \<times> owner_dir" where
  "write_owner w x = write_owner_record w x owner_active"

section \<open>Ownership transitions\<close>

definition with_id_lock ::
    "bool \<Rightarrow> string \<Rightarrow> (owner_dir \<Rightarrow> (owner_error + 'a) \<times> owner_dir) \<Rightarrow> owner_dir
       \<Rightarrow> (owner_error + 'a) \<times> owner_dir" where
  "with_id_lock granted rid f d =
     (if \<not> hex32 rid then (Inl ErrInvalidIdentity, d)
      else if \<not> granted then (Inl ErrIO, d) else f d)"

definition publish_owner :: "write_outcome \<Rightarrow> owner \<Rightarrow> owner_dir \<Rightarrow> (owner_error + owner) \<times> owner_dir" where
  "publish_owner w x d =
     (case write_owner w x d of (None, d') \<Rightarrow> (Inr x, d') | (Some e, d') \<Rightarrow> (Inl e, d'))"

definition owner_claim ::
    "bool \<Rightarrow> write_outcome \<Rightarrow> string \<Rightarrow> string \<Rightarrow> string \<Rightarrow> owner_dir \<Rightarrow> (owner_error + owner) \<times> owner_dir" where
  "owner_claim granted w rid gen wk d =
     (let first = \<lparr>ow_recording_id = rid, ow_generation = gen, ow_worker = wk, ow_epoch = 1\<rparr>
      in if \<not> valid_owner_identity first then (Inl ErrInvalidIdentity, d)
         else with_id_lock granted rid (\<lambda>d.
           case read_owner_record rid d of
             Inr r \<Rightarrow>
               if effective_owner_state (or_state r) = owner_active then (Inl ErrAlreadyOwned, d)
               else if or_epoch r = max_u64 then (Inl ErrEpochOverflow, d)
               else publish_owner w (first\<lparr>ow_epoch := or_epoch r + 1\<rparr>) d
           | Inl e \<Rightarrow> if e = ErrNotFound then publish_owner w first d else (Inl e, d)) d)"

definition owner_transfer ::
    "bool \<Rightarrow> write_outcome \<Rightarrow> owner \<Rightarrow> string \<Rightarrow> string \<Rightarrow> owner_dir \<Rightarrow> (owner_error + owner) \<times> owner_dir" where
  "owner_transfer granted w expected gen wk d =
     (if \<not> valid_owner_identity expected \<or> \<not> opaque_id gen \<or> \<not> opaque_id wk
      then (Inl ErrInvalidIdentity, d)
      else with_id_lock granted (ow_recording_id expected) (\<lambda>d.
        case read_owner (ow_recording_id expected) d of
          Inl e \<Rightarrow> (Inl e, d)
        | Inr current \<Rightarrow>
            if current \<noteq> expected then (Inl ErrStaleOwner, d)
            else if ow_epoch current = max_u64 then (Inl ErrEpochOverflow, d)
            else publish_owner w \<lparr>ow_recording_id = ow_recording_id current, ow_generation = gen,
                   ow_worker = wk, ow_epoch = ow_epoch current + 1\<rparr> d) d)"

definition owner_release ::
    "bool \<Rightarrow> write_outcome \<Rightarrow> owner \<Rightarrow> owner_dir \<Rightarrow> (owner_error + unit) \<times> owner_dir" where
  "owner_release granted w expected d =
     (if \<not> valid_owner_identity expected then (Inl ErrInvalidIdentity, d)
      else with_id_lock granted (ow_recording_id expected) (\<lambda>d.
        case read_owner (ow_recording_id expected) d of
          Inl e \<Rightarrow> (Inl e, d)
        | Inr current \<Rightarrow>
            if current \<noteq> expected then (Inl ErrStaleOwner, d)
            else case write_owner_record w current owner_fenced d of
              (None, d') \<Rightarrow> (Inr (), d') | (Some e, d') \<Rightarrow> (Inl e, d')) d)"

definition owner_current :: "bool \<Rightarrow> string \<Rightarrow> owner_dir \<Rightarrow> (owner_error + owner) \<times> owner_dir" where
  "owner_current granted rid d =
     (if \<not> hex32 rid then (Inl ErrInvalidIdentity, d)
      else with_id_lock granted rid (\<lambda>d. (read_owner rid d, d)) d)"

section \<open>Guarded callbacks\<close>

type_synonym 'w callback = "'w \<Rightarrow> owner_error option \<times> 'w"

text \<open>A callback runs inside the lock and does not touch the owners directory; a nil callback is \<open>None\<close>.\<close>

definition locked_callback ::
    "bool \<Rightarrow> string \<Rightarrow> owner_error option \<Rightarrow> 'w callback \<Rightarrow> 'w \<Rightarrow> owner_error option \<times> 'w" where
  "locked_callback granted rid refused commit w =
     (if \<not> hex32 rid then (Some ErrInvalidIdentity, w)
      else if \<not> granted then (Some ErrIO, w)
      else case refused of Some e \<Rightarrow> (Some e, w) | None \<Rightarrow> commit w)"

definition with_commit ::
    "bool \<Rightarrow> owner \<Rightarrow> 'w callback option \<Rightarrow> owner_dir \<Rightarrow> 'w \<Rightarrow> owner_error option \<times> 'w" where
  "with_commit granted expected commit d w =
     (if \<not> valid_owner_identity expected then (Some ErrInvalidIdentity, w)
      else case commit of None \<Rightarrow> (Some ErrInvalidCommit, w)
      | Some f \<Rightarrow> locked_callback granted (ow_recording_id expected)
          (case read_owner (ow_recording_id expected) d of
             Inl e \<Rightarrow> Some e
           | Inr current \<Rightarrow> if current \<noteq> expected then Some ErrStaleOwner else None) f w)"

definition with_unowned_commit ::
    "bool \<Rightarrow> string \<Rightarrow> 'w callback option \<Rightarrow> owner_dir \<Rightarrow> 'w \<Rightarrow> owner_error option \<times> 'w" where
  "with_unowned_commit granted rid commit d w =
     (if \<not> hex32 rid then (Some ErrInvalidIdentity, w)
      else case commit of None \<Rightarrow> (Some ErrInvalidCommit, w)
      | Some f \<Rightarrow> locked_callback granted rid
          (case read_owner_record rid d of
             Inl e \<Rightarrow> if e = ErrNotFound then None else Some e
           | Inr r \<Rightarrow> if effective_owner_state (or_state r) = owner_fenced then None
                     else Some ErrAlreadyOwned) f w)"

section \<open>Recovery\<close>

text \<open>What the operating system answers during a recovery.\<close>

record recovery_io =
  rio_lock :: "nat \<Rightarrow> bool"
  rio_open :: "string \<Rightarrow> bool"
  rio_remove :: "string \<Rightarrow> bool"
  rio_sync :: bool
  rio_write :: "string \<Rightarrow> write_outcome"

definition has_suffix :: "string \<Rightarrow> string \<Rightarrow> bool" where
  "has_suffix s suf \<longleftrightarrow> length suf \<le> length s \<and> drop (length s - length suf) s = suf"

definition trim_suffix :: "string \<Rightarrow> string \<Rightarrow> string" where
  "trim_suffix s suf = (if has_suffix s suf then take (length s - length suf) s else s)"

definition owner_temp_name :: "string \<Rightarrow> bool" where
  "owner_temp_name s \<longleftrightarrow> has_prefix ''.owner-'' s \<and> has_suffix (drop 7 s) ''.tmp'' \<and>
     (let digits = trim_suffix (drop 7 s) ''.tmp''
      in 1 \<le> length digits \<and> length digits \<le> 10 \<and> list_all is_digit digits)"

fun scan_residue ::
    "recovery_io \<Rightarrow> (string \<times> dir_file) list \<Rightarrow> string list \<Rightarrow> bool \<Rightarrow> owner_error + string list \<times> bool" where
  "scan_residue io [] remnants seen = Inr (remnants, seen)"
| "scan_residue io ((name, f) # rest) remnants seen =
     (if name = lock_dir_name then
        (if df_kind f \<noteq> Directory then Inl ErrInvalidOwnerState else scan_residue io rest remnants True)
      else if has_suffix name ''.json'' then scan_residue io rest remnants seen
      else if \<not> owner_temp_name name \<or> df_kind f \<noteq> Regular \<or> df_perm f \<noteq> private_perm \<or>
              df_size f < 0 \<or> max_record_size < df_size f
      then Inl ErrInvalidOwnerState
      else if \<not> rio_open io name then Inl ErrInvalidOwnerState
      else scan_residue io rest (remnants @ [name]) seen)"

fun remove_residue :: "recovery_io \<Rightarrow> string list \<Rightarrow> owner_dir \<Rightarrow> owner_error option \<times> owner_dir" where
  "remove_residue io [] d = (if rio_sync io then None else Some ErrIO, d)"
| "remove_residue io (name # names) d =
     (if \<not> rio_remove io name then (Some ErrIO, d)
      else remove_residue io names (AList.delete name d))"

definition reconcile_owner_temp_files :: "recovery_io \<Rightarrow> owner_dir \<Rightarrow> owner_error option \<times> owner_dir" where
  "reconcile_owner_temp_files io d =
     (case scan_residue io d [] False of
        Inl e \<Rightarrow> (Some e, d)
      | Inr (remnants, lock_dir_seen) \<Rightarrow>
          if \<not> lock_dir_seen then (Some ErrInvalidOwnerState, d)
          else if remnants = [] then (None, d)
          else remove_residue io remnants d)"

fun validated_owner_files :: "owner_dir \<Rightarrow> (string \<times> dir_file) list \<Rightarrow> owner_error + owner_record list" where
  "validated_owner_files d [] = Inr []"
| "validated_owner_files d ((name, f) # rest) =
     (if name = lock_dir_name then
        (if df_kind f \<noteq> Directory then Inl ErrInvalidOwnerState else validated_owner_files d rest)
      else if \<not> has_suffix name ''.json'' then Inl ErrInvalidOwnerState
      else if \<not> hex32 (trim_suffix name ''.json'') \<or> df_kind f \<noteq> Regular then Inl ErrInvalidOwnerState
      else case read_owner_record (trim_suffix name ''.json'') d of
        Inl e \<Rightarrow> Inl e
      | Inr r \<Rightarrow> (case validated_owner_files d rest of Inl e \<Rightarrow> Inl e | Inr rs \<Rightarrow> Inr (r # rs)))"

fun fence_owners :: "recovery_io \<Rightarrow> owner_record list \<Rightarrow> owner_dir \<Rightarrow> owner_error option \<times> owner_dir" where
  "fence_owners io [] d = (None, d)"
| "fence_owners io (r # rs) d =
     (if effective_owner_state (or_state r) = owner_fenced then fence_owners io rs d
      else case write_owner_record (rio_write io (or_recording_id r)) (record_owner r) owner_fenced d of
        (Some e, d') \<Rightarrow> (Some ErrIO, d')
      | (None, d') \<Rightarrow> fence_owners io rs d')"

definition with_all_locks ::
    "recovery_io \<Rightarrow> (owner_dir \<Rightarrow> 'w \<Rightarrow> owner_error option \<times> owner_dir \<times> 'w) \<Rightarrow> owner_dir \<Rightarrow> 'w
       \<Rightarrow> owner_error option \<times> owner_dir \<times> 'w" where
  "with_all_locks io f d w =
     (if list_all (rio_lock io) [0..<lock_shards] then f d w else (Some ErrIO, d, w))"

definition with_fenced_recovery ::
    "recovery_io \<Rightarrow> 'w callback option \<Rightarrow> owner_dir \<Rightarrow> 'w \<Rightarrow> owner_error option \<times> owner_dir \<times> 'w" where
  "with_fenced_recovery io recover d w =
     (case recover of None \<Rightarrow> (Some ErrInvalidRecovery, d, w)
      | Some f \<Rightarrow> with_all_locks io (\<lambda>d w.
          case reconcile_owner_temp_files io d of
            (Some e, d1) \<Rightarrow> (Some e, d1, w)
          | (None, d1) \<Rightarrow>
              (case validated_owner_files d1 d1 of
                 Inl e \<Rightarrow> (Some e, d1, w)
               | Inr owners \<Rightarrow>
                   (case fence_owners io owners d1 of
                      (Some e, d2) \<Rightarrow> (Some e, d2, w)
                    | (None, d2) \<Rightarrow> (case f w of (res, w') \<Rightarrow> (res, d2, w'))))) d w)"

section \<open>Reading what was written\<close>

lemma has_suffix_iff: "has_suffix s suf \<longleftrightarrow> (\<exists>p. s = p @ suf)"
  unfolding has_suffix_def by (metis append_take_drop_id append_eq_conv_conj diff_le_self le_add2 length_append
      add_diff_cancel_right')

lemma has_suffix_append [simp]: "has_suffix (p @ suf) suf"
  by (auto simp: has_suffix_iff)

lemma trim_suffix_append [simp]: "trim_suffix (p @ suf) suf = p"
  by (simp add: trim_suffix_def)

lemma owner_path_suffix [simp]: "has_suffix (owner_path rid) ''.json''" "trim_suffix (owner_path rid) ''.json'' = rid"
  by (simp_all add: owner_path_def del: append.simps)

lemma owner_path_inject [simp]: "owner_path a = owner_path b \<longleftrightarrow> a = b"
  by (simp add: owner_path_def)

lemma owner_path_not_lock [simp]: "owner_path rid \<noteq> lock_dir_name" "lock_dir_name \<noteq> owner_path rid"
proof -
  have "last (owner_path rid) \<noteq> last lock_dir_name"
    by (simp add: owner_path_def lock_dir_name_def)
  then show "owner_path rid \<noteq> lock_dir_name" "lock_dir_name \<noteq> owner_path rid"
    by auto
qed

lemma owner_temp_path_last: "last (owner_temp_path n) = CHR ''p''"
  by (simp add: owner_temp_path_def)

lemma owner_temp_path_not_owner [simp]: "owner_temp_path n \<noteq> owner_path rid" "owner_path rid \<noteq> owner_temp_path n"
proof -
  have "last (owner_path rid) \<noteq> last (owner_temp_path n)"
    by (simp add: owner_temp_path_last owner_path_def)
  then show "owner_temp_path n \<noteq> owner_path rid" "owner_path rid \<noteq> owner_temp_path n"
    by auto
qed

lemma owner_temp_path_not_lock [simp]: "owner_temp_path n \<noteq> lock_dir_name" "lock_dir_name \<noteq> owner_temp_path n"
proof -
  have "last (owner_temp_path n) \<noteq> last lock_dir_name"
    by (simp add: owner_temp_path_last lock_dir_name_def)
  then show "owner_temp_path n \<noteq> lock_dir_name" "lock_dir_name \<noteq> owner_temp_path n"
    by auto
qed

lemma length_dec_nat: "n < 10 ^ k \<Longrightarrow> 0 < k \<Longrightarrow> length (dec_nat n) \<le> k"
proof (induction n arbitrary: k rule: dec_nat.induct)
  case (1 n)
  show ?case
  proof (cases "n < 10")
    case False
    then have "k \<noteq> 1" using 1 by auto
    then obtain j where k: "k = Suc j" "0 < j" using 1 by (cases k) auto
    then have "n div 10 < 10 ^ j"
      using 1 by (simp add: less_mult_imp_div_less mult.commute)
    with 1 False k show ?thesis
      by (subst dec_nat.simps) simp
  qed (use 1 in \<open>subst dec_nat.simps, simp\<close>)
qed

lemma owner_temp_path_name [simp]: "owner_temp_name (owner_temp_path n)"
proof -
  have "n mod 2 ^ 32 < 10 ^ 10"
    using mod_less_divisor [of "2 ^ 32" n] by simp
  then have "length (dec_nat (n mod 2 ^ 32)) \<le> 10"
    by (intro length_dec_nat) auto
  moreover have "0 < length (dec_nat (n mod 2 ^ 32))"
    by simp
  moreover have "drop 7 (owner_temp_path n) = dec_nat (n mod 2 ^ 32) @ ''.tmp''"
    by (simp add: owner_temp_path_def)
  moreover have "has_prefix ''.owner-'' (owner_temp_path n)"
    by (simp add: owner_temp_path_def has_prefix_def)
  ultimately show ?thesis
    unfolding owner_temp_name_def Let_def by (simp add: dec_nat_digits Suc_le_eq del: append.simps)
qed

lemma opaque_id_length: "opaque_id s \<Longrightarrow> length s \<le> 64"
  by (auto simp: opaque_id_def uuid_shape_def)

text \<open>A record with valid identifiers always fits: the size check of the writer never refuses one.\<close>

lemma marshal_owner_record_bound:
  assumes "valid_owner_identity x" "valid_owner_state st"
  shows "length (marshal_owner_record (make_owner_record x st)) \<le> 512"
proof -
  have "length (dec_nat (unat (ow_epoch x))) \<le> 20"
    using unsigned_less [of "ow_epoch x", where ?'a = nat] by (intro length_dec_nat) (auto simp del: unsigned_less)
  moreover have "length (dec_nat (nat owner_schema)) \<le> 1"
    by (intro length_dec_nat) (auto simp: owner_schema_def)
  moreover have "length st \<le> 6"
    using assms(2) by (auto simp: valid_owner_state_def owner_active_def owner_fenced_def)
  moreover have "length (ow_generation x) \<le> 64" "length (ow_worker x) \<le> 64" "length (ow_recording_id x) = 32"
    using assms(1) by (simp_all add: valid_owner_identity_def opaque_id_length hex32_def)
  ultimately show ?thesis
    by (simp add: marshal_owner_record_def make_owner_record_def json_field_def json_string_def)
qed

definition published_file :: "owner \<Rightarrow> string \<Rightarrow> dir_file" where
  "published_file x st = \<lparr>df_kind = Regular, df_perm = private_perm,
     df_size = int (length (marshal_owner_record (make_owner_record x st))) + 1,
     df_content = marshal_owner_record (make_owner_record x st) @ [CHR 0x0A]\<rparr>"

lemma record_owner_make [simp]: "record_owner (make_owner_record x st) = x"
  by (simp add: record_owner_def make_owner_record_def)

lemma is_hex_plain: "is_hex c \<Longrightarrow> plain_char c"
  by (auto simp: is_hex_def is_hex_lower_def is_digit_def less_eq_char_def plain_char_def graphic_def quote_mark_def
      backslash_def)

lemma hex32_plain: "hex32 s \<Longrightarrow> list_all plain_char s"
  by (auto simp: hex32_def list_all_iff is_hex_lower_is_hex is_hex_plain)

lemma opaque_id_plain: "opaque_id s \<Longrightarrow> list_all plain_char s"
proof -
  assume "opaque_id s"
  then consider "list_all is_hex s" | "uuid_shape s"
    by (auto simp: opaque_id_def)
  then show ?thesis
  proof cases
    case 2
    have "plain_char CHR ''-''"
      by (simp add: plain_char_def graphic_def quote_mark_def backslash_def)
    moreover have "s ! i = CHR ''-'' \<or> is_hex (s ! i)" if "i < length s" for i
      using 2 that by (auto simp: uuid_shape_def list_all_length split: if_splits dest!: spec [of _ i])
    ultimately show ?thesis
      using is_hex_plain by (fastforce simp: list_all_length)
  qed (auto simp: list_all_iff is_hex_plain)
qed

lemma owner_state_plain: "valid_owner_state st \<Longrightarrow> list_all plain_char st"
  by (auto simp: valid_owner_state_def owner_active_def owner_fenced_def plain_char_def graphic_def quote_mark_def
      backslash_def)

definition owner_members :: "owner \<Rightarrow> string \<Rightarrow> (string \<times> json_scalar) list" where
  "owner_members x st =
     [(''schema_version'', JNumber (dec_nat (nat owner_schema))), (''recording_id'', JText (ow_recording_id x)),
      (''engine_generation'', JText (ow_generation x)), (''worker_instance'', JText (ow_worker x)),
      (''epoch'', JNumber (dec_nat (unat (ow_epoch x))))] @ (if st = [] then [] else [(''state'', JText st)])"

lemma field_names_plain: "list_all plain_char ''schema_version''" "list_all plain_char ''recording_id''"
    "list_all plain_char ''engine_generation''" "list_all plain_char ''worker_instance''" "list_all plain_char ''epoch''"
    "list_all plain_char ''state''"
  by (simp_all add: plain_char_def graphic_def quote_mark_def backslash_def)

text \<open>The bytes of a record are read back as its members.\<close>

lemma json_object_marshal:
  assumes "valid_owner_identity x" "valid_owner_state st"
  shows "json_object (marshal_owner_record (make_owner_record x st) @ [CHR 0x0A]) = Some (owner_members x st)"
proof -
  have "list_all plain_char (ow_recording_id x)" "list_all plain_char (ow_generation x)"
    "list_all plain_char (ow_worker x)" "list_all plain_char st"
    using assms hex32_plain opaque_id_plain owner_state_plain by (auto simp: valid_owner_identity_def)
  note texts = field_names_plain [THEN json_members_text(1), OF this(1)] field_names_plain [THEN json_members_text(1), OF this(2)]
    field_names_plain [THEN json_members_text(1), OF this(3)] field_names_plain [THEN json_members_text(2), OF this(4)]
  note numbers = field_names_plain [THEN json_members_number(1)] field_names_plain [THEN json_members_number(2)]
  show ?thesis
    unfolding marshal_owner_record_def make_owner_record_def owner_members_def
    by (cases "st = []") (simp_all add: json_object_members texts numbers json_space_def)
qed

lemma decode_owner_members_make: "decode_owner_members (owner_members x st) zero_owner_record = Some (make_owner_record x st)"
  by (simp add: owner_members_def decode_owner_member_def Let_def names_field_def zero_owner_record_def make_owner_record_def
      decode_int_def decode_text_def decode_u64_def owner_schema_def)

lemma state_encoded_owner: "state_encoded (owner_members x st) \<longleftrightarrow> st \<noteq> []"
  by (simp add: state_encoded_def owner_members_def)

lemma decode_published_file [simp]:
  "valid_owner_identity x \<Longrightarrow> valid_owner_state st \<Longrightarrow>
     decode_owner_file (ow_recording_id x) (published_file x st) = Inr (make_owner_record x st)"
  using marshal_owner_record_bound [of x st]
  by (auto simp: decode_owner_file_def published_file_def json_object_marshal decode_owner_members_make max_record_size_def
      make_owner_record_def [of x st, THEN arg_cong [where f = or_schema]]
      make_owner_record_def [of x st, THEN arg_cong [where f = or_recording_id]]
      make_owner_record_def [of x st, THEN arg_cong [where f = or_state]] valid_owner_state_def state_encoded_owner)

lemma write_owner_record_eq:
  "valid_owner_identity x \<Longrightarrow> valid_owner_state st \<Longrightarrow>
   write_owner_record w x st d =
     (case w of
        Written \<Rightarrow> (None, AList.update (owner_path (ow_recording_id x)) (published_file x st) d)
      | RenamedUnsynced \<Rightarrow> (Some ErrIO, AList.update (owner_path (ow_recording_id x)) (published_file x st) d)
      | WriteFailed \<Rightarrow> (Some ErrIO, d)
      | WriteCrashed m k \<Rightarrow> (Some ErrIO, AList.update (owner_temp_path m)
          \<lparr>df_kind = Regular, df_perm = private_perm, df_size = min (int k) (df_size (published_file x st)),
           df_content = take k (df_content (published_file x st))\<rparr> d))"
  using marshal_owner_record_bound [of x st]
  by (simp add: write_owner_record_def Let_def published_file_def max_record_size_def split: write_outcome.split)

section \<open>Well-formed directories\<close>

definition owner_entry_ok :: "string \<Rightarrow> dir_file \<Rightarrow> bool" where
  "owner_entry_ok name f \<longleftrightarrow>
     (if name = lock_dir_name then df_kind f = Directory
      else if has_suffix name ''.json'' then hex32 (trim_suffix name ''.json'') \<and>
        (case decode_owner_file (trim_suffix name ''.json'') f of Inl _ \<Rightarrow> False | Inr _ \<Rightarrow> True)
      else owner_temp_name name \<and> df_kind f = Regular \<and> df_perm f = private_perm \<and>
        0 \<le> df_size f \<and> df_size f \<le> max_record_size)"

definition dir_ok :: "owner_dir \<Rightarrow> bool" where
  "dir_ok d \<longleftrightarrow> gomap_ok d \<and> has_key d lock_dir_name \<and> list_all (\<lambda>(name, f). owner_entry_ok name f) d"

definition fresh_owner_dir :: owner_dir where
  "fresh_owner_dir = [(lock_dir_name, \<lparr>df_kind = Directory, df_perm = 448, df_size = 0, df_content = []\<rparr>)]"

lemma dir_ok_fresh [simp]: "dir_ok fresh_owner_dir"
  by (simp add: dir_ok_def fresh_owner_dir_def owner_entry_ok_def)

lemma dir_ok_update:
  "dir_ok d \<Longrightarrow> owner_entry_ok name f \<Longrightarrow> dir_ok (AList.update name f d)"
  by (auto simp: dir_ok_def list_all_gomap split: if_splits)

lemma dir_ok_delete: "dir_ok d \<Longrightarrow> name \<noteq> lock_dir_name \<Longrightarrow> dir_ok (AList.delete name d)"
  by (auto simp: dir_ok_def list_all_gomap split: if_splits)

lemma dir_ok_entry: "dir_ok d \<Longrightarrow> map_of d name = Some f \<Longrightarrow> owner_entry_ok name f"
  by (auto simp: dir_ok_def list_all_gomap)

lemma owner_temp_name_last: "owner_temp_name s \<Longrightarrow> last s = CHR ''p''"
proof -
  assume "owner_temp_name s"
  then have "has_prefix ''.owner-'' s" "has_suffix (drop 7 s) ''.tmp''"
    by (auto simp: owner_temp_name_def)
  then obtain p where "drop 7 s = p @ ''.tmp''"
    by (auto simp: has_suffix_iff)
  then have "last (drop 7 s) = CHR ''p''" "drop 7 s \<noteq> []"
    by simp_all
  then show ?thesis
    by (metis drop_eq_Nil2 last_drop not_le)
qed

lemma has_suffix_json_last: "has_suffix s ''.json'' \<Longrightarrow> last s = CHR ''n''"
  by (auto simp: has_suffix_iff)

lemma owner_temp_name_not_json [simp]: "owner_temp_name s \<Longrightarrow> \<not> has_suffix s ''.json''"
  using owner_temp_name_last has_suffix_json_last by fastforce

lemma owner_temp_name_not_lock [simp]: "owner_temp_name s \<Longrightarrow> s \<noteq> lock_dir_name"
  using owner_temp_name_last [of s] by (auto simp: lock_dir_name_def)

lemma json_name_path: "has_suffix name ''.json'' \<Longrightarrow> name = owner_path (trim_suffix name ''.json'')"
  by (auto simp: has_suffix_iff owner_path_def)

lemma lock_dir_name_not_json [simp]: "\<not> has_suffix lock_dir_name ''.json''"
  using has_suffix_json_last [of lock_dir_name] by (auto simp: lock_dir_name_def)

lemma published_entry_ok [simp]:
  "valid_owner_identity x \<Longrightarrow> valid_owner_state st \<Longrightarrow>
     owner_entry_ok (owner_path (ow_recording_id x)) (published_file x st)"
  by (simp add: owner_entry_ok_def valid_owner_identity_def [of x])

lemma write_owner_record_ok: "dir_ok d \<Longrightarrow> dir_ok (snd (write_owner_record w x st d))"
proof (cases "valid_owner_identity x \<and> valid_owner_state st")
  case True
  assume "dir_ok d"
  moreover have "owner_entry_ok (owner_temp_path m) \<lparr>df_kind = Regular, df_perm = private_perm,
      df_size = min (int k) (df_size (published_file x st)), df_content = take k (df_content (published_file x st))\<rparr>" for m k
    using True marshal_owner_record_bound [of x st]
    by (simp add: owner_entry_ok_def published_file_def max_record_size_def)
  ultimately show ?thesis
    using True by (auto simp: write_owner_record_eq intro: dir_ok_update split: write_outcome.split)
qed (auto simp: write_owner_record_def)

section \<open>The rank of a recording's record\<close>

text \<open>
  What the directory says of a recording, and its rank: twice the epoch, one more when fenced.  Every
  operation leaves the record as it is or raises its rank, which is what makes a token that has lost
  the recording lose it for good.
\<close>

definition owner_of :: "owner_dir \<Rightarrow> string \<Rightarrow> owner_record option" where
  "owner_of d rid = (case read_owner_record rid d of Inl _ \<Rightarrow> None | Inr r \<Rightarrow> Some r)"

definition live :: "owner_record \<Rightarrow> bool" where
  "live r \<longleftrightarrow> effective_owner_state (or_state r) = owner_active"

definition record_rank :: "owner_record option \<Rightarrow> nat" where
  "record_rank ro = (case ro of None \<Rightarrow> 0 | Some r \<Rightarrow> 2 * unat (or_epoch r) + (if live r then 0 else 1))"

definition advances :: "owner_record option \<Rightarrow> owner_record option \<Rightarrow> bool" where
  "advances a b \<longleftrightarrow> a = b \<or> record_rank a < record_rank b"

definition dir_advances :: "owner_dir \<Rightarrow> owner_dir \<Rightarrow> bool" where
  "dir_advances d d' \<longleftrightarrow> (\<forall>rid. advances (owner_of d rid) (owner_of d' rid))"

lemma dir_advances_refl [simp, intro]: "dir_advances d d"
  by (simp add: dir_advances_def advances_def)

lemma dir_advances_trans: "dir_advances a b \<Longrightarrow> dir_advances b c \<Longrightarrow> dir_advances a c"
  unfolding dir_advances_def advances_def by (metis order_less_trans)

lemma live_make [simp]: "live (make_owner_record x owner_active)" "\<not> live (make_owner_record x owner_fenced)"
  by (simp_all add: live_def make_owner_record_def effective_owner_state_def owner_active_def owner_fenced_def)

lemma valid_states [simp]: "valid_owner_state owner_active" "valid_owner_state owner_fenced"
  by (simp_all add: valid_owner_state_def)

lemma or_epoch_make [simp]: "or_epoch (make_owner_record x st) = ow_epoch x"
  by (simp add: make_owner_record_def)

lemma owner_of_update:
  "owner_of (AList.update name f d) rid =
     (if name = owner_path rid then (case decode_owner_file rid f of Inl _ \<Rightarrow> None | Inr r \<Rightarrow> Some r)
      else owner_of d rid)"
  by (auto simp: owner_of_def read_owner_record_def)

lemma owner_of_delete: "name \<noteq> owner_path rid \<Longrightarrow> owner_of (AList.delete name d) rid = owner_of d rid"
  by (auto simp: owner_of_def read_owner_record_def)

lemma owner_of_write:
  assumes "valid_owner_identity x" "valid_owner_state st"
  shows "owner_of (snd (write_owner_record w x st d)) rid =
     (if rid = ow_recording_id x \<and> w \<in> {Written, RenamedUnsynced}
      then Some (make_owner_record x st) else owner_of d rid)"
  using assms by (auto simp: write_owner_record_eq owner_of_update split: write_outcome.split)

lemma decode_validD:
  assumes "decode_owner_file rid f = Inr r"
  shows "valid_owner_identity (record_owner r)" "or_recording_id r = rid" "valid_owner_state (or_state r)"
  using assms by (auto simp: decode_owner_file_def split: if_splits option.splits)

lemma owner_of_valid:
  assumes "owner_of d rid = Some r"
  shows "valid_owner_identity (record_owner r)" "or_recording_id r = rid" "valid_owner_state (or_state r)"
  using assms decode_validD by (auto simp: owner_of_def read_owner_record_def split: option.splits sum.splits)

lemma owner_of_epoch_pos: "owner_of d rid = Some r \<Longrightarrow> 0 < or_epoch r"
  using owner_of_valid(1) by (fastforce simp: valid_owner_identity_def record_owner_def)

lemma live_or_fenced: "valid_owner_state (or_state r) \<Longrightarrow> effective_owner_state (or_state r) = owner_fenced \<longleftrightarrow> \<not> live r"
  by (auto simp: live_def valid_owner_state_def effective_owner_state_def owner_active_def owner_fenced_def)

lemma read_owner_eq:
  "read_owner rid d = Inr x \<longleftrightarrow> (\<exists>r. owner_of d rid = Some r \<and> live r \<and> record_owner r = x)"
  by (auto simp: read_owner_def owner_of_def live_def split: sum.splits if_splits)

lemma dir_ok_read:
  assumes "dir_ok d"
  shows "read_owner_record rid d = (case owner_of d rid of None \<Rightarrow> Inl ErrNotFound | Some r \<Rightarrow> Inr r)"
proof (cases "map_of d (owner_path rid)")
  case (Some f)
  then have "owner_entry_ok (owner_path rid) f"
    using assms dir_ok_entry by blast
  then show ?thesis
    using Some by (auto simp: owner_of_def read_owner_record_def owner_entry_ok_def split: sum.splits)
qed (simp add: owner_of_def read_owner_record_def)

section \<open>What each transition does\<close>

lemma record_rank_live: "live r \<Longrightarrow> record_rank (Some r) = 2 * unat (or_epoch r)"
  and record_rank_fenced: "\<not> live r \<Longrightarrow> record_rank (Some r) = Suc (2 * unat (or_epoch r))"
  by (simp_all add: record_rank_def)

lemma write_owner_advances:
  assumes "valid_owner_identity x" "st \<in> {owner_active, owner_fenced}"
    "record_rank (owner_of d (ow_recording_id x)) < record_rank (Some (make_owner_record x st))"
  shows "dir_advances d (snd (write_owner_record w x st d))"
  using assms by (auto simp: dir_advances_def advances_def owner_of_write valid_owner_state_def)

lemma publish_owner_cases:
  assumes "valid_owner_identity x"
  obtains "publish_owner w x d = (Inr x, snd (write_owner_record w x owner_active d))" "w = Written"
  | e where "publish_owner w x d = (Inl e, snd (write_owner_record w x owner_active d))" "w \<noteq> Written"
  using assms by (cases w) (auto simp: publish_owner_def write_owner_def write_owner_record_eq)

text \<open>A transition of one recording, with the token it hands out, if any.\<close>

definition transition_ok :: "string \<Rightarrow> owner_dir \<Rightarrow> (owner_error + owner) \<times> owner_dir \<Rightarrow> bool" where
  "transition_ok rid d res \<longleftrightarrow>
     (dir_ok d \<longrightarrow> dir_ok (snd res)) \<and> dir_advances d (snd res) \<and>
     (\<forall>other. other \<noteq> rid \<longrightarrow> owner_of (snd res) other = owner_of d other) \<and>
     (case fst res of Inl _ \<Rightarrow> True
      | Inr x \<Rightarrow> valid_owner_identity x \<and> ow_recording_id x = rid \<and>
          owner_of (snd res) rid = Some (make_owner_record x owner_active) \<and>
          record_rank (owner_of d rid) < 2 * unat (ow_epoch x) \<and>
          ow_epoch x = (case owner_of d rid of None \<Rightarrow> 1 | Some r \<Rightarrow> or_epoch r + 1))"

lemma transition_ok_refused [simp]: "transition_ok rid d (Inl e, d)"
  by (simp add: transition_ok_def)

lemma transition_ok_publish:
  assumes "valid_owner_identity x" "record_rank (owner_of d (ow_recording_id x)) < 2 * unat (ow_epoch x)"
    "ow_epoch x = (case owner_of d (ow_recording_id x) of None \<Rightarrow> 1 | Some r \<Rightarrow> or_epoch r + 1)"
  shows "transition_ok (ow_recording_id x) d (publish_owner w x d)"
proof -
  have rank: "record_rank (owner_of d (ow_recording_id x)) < record_rank (Some (make_owner_record x owner_active))"
    using assms(2) by (simp add: record_rank_live)
  note adv = write_owner_advances [OF assms(1) _ rank, of w] and ok = write_owner_record_ok [of d w x owner_active]
  show ?thesis
    using assms adv ok
    by (cases rule: publish_owner_cases [OF assms(1), of w d])
      (auto simp: transition_ok_def owner_of_write)
qed

lemma with_id_lock_transition:
  assumes "transition_ok rid d (f d)"
  shows "transition_ok rid d (with_id_lock granted rid f d)"
  using assms by (simp add: with_id_lock_def)

lemma unat_pos_u64: "0 < x \<Longrightarrow> 0 < unat x" for x :: u64
  by (simp add: word_less_nat_alt)

lemma claim_transition: "transition_ok rid d (owner_claim granted w rid gen wk d)"
proof -
  let ?first = "\<lparr>ow_recording_id = rid, ow_generation = gen, ow_worker = wk, ow_epoch = 1\<rparr>"
  have "transition_ok rid d (with_id_lock granted rid (\<lambda>d.
           case read_owner_record rid d of
             Inr r \<Rightarrow>
               if effective_owner_state (or_state r) = owner_active then (Inl ErrAlreadyOwned, d)
               else if or_epoch r = max_u64 then (Inl ErrEpochOverflow, d)
               else publish_owner w (?first\<lparr>ow_epoch := or_epoch r + 1\<rparr>) d
           | Inl e \<Rightarrow> if e = ErrNotFound then publish_owner w ?first d else (Inl e, d)) d)"
    if valid: "valid_owner_identity ?first"
  proof (rule with_id_lock_transition, cases "read_owner_record rid d")
    case (Inl e)
    then have "transition_ok (ow_recording_id ?first) d (publish_owner w ?first d)"
      using valid by (intro transition_ok_publish) (auto simp: owner_of_def record_rank_def)
    with Inl show "transition_ok rid d (case read_owner_record rid d of
             Inr r \<Rightarrow>
               if effective_owner_state (or_state r) = owner_active then (Inl ErrAlreadyOwned, d)
               else if or_epoch r = max_u64 then (Inl ErrEpochOverflow, d)
               else publish_owner w (?first\<lparr>ow_epoch := or_epoch r + 1\<rparr>) d
           | Inl e \<Rightarrow> if e = ErrNotFound then publish_owner w ?first d else (Inl e, d))"
      by simp
  next
    case (Inr r)
    let ?next = "?first\<lparr>ow_epoch := or_epoch r + 1\<rparr>"
    have r: "owner_of d rid = Some r"
      using Inr by (simp add: owner_of_def)
    have "transition_ok (ow_recording_id ?next) d (publish_owner w ?next d)"
      if "\<not> live r" "or_epoch r \<noteq> max_u64"
      using valid that r unat_succ_u64 [of "or_epoch r"]
      by (intro transition_ok_publish) (auto simp: valid_owner_identity_def record_rank_fenced u64_simps word_less_nat_alt)
    with Inr show "transition_ok rid d (case read_owner_record rid d of
             Inr r \<Rightarrow>
               if effective_owner_state (or_state r) = owner_active then (Inl ErrAlreadyOwned, d)
               else if or_epoch r = max_u64 then (Inl ErrEpochOverflow, d)
               else publish_owner w (?first\<lparr>ow_epoch := or_epoch r + 1\<rparr>) d
           | Inl e \<Rightarrow> if e = ErrNotFound then publish_owner w ?first d else (Inl e, d))"
      by (simp add: live_def)
  qed
  then show ?thesis
    by (simp add: owner_claim_def Let_def)
qed

lemma transfer_transition: "transition_ok (ow_recording_id x) d (owner_transfer granted w x gen wk d)"
proof -
  have "transition_ok (ow_recording_id x) d (publish_owner w (x\<lparr>ow_generation := gen, ow_worker := wk,
          ow_epoch := ow_epoch x + 1\<rparr>) d)"
    if A: "valid_owner_identity x" "opaque_id gen" "opaque_id wk" "read_owner (ow_recording_id x) d = Inr x"
      "ow_epoch x \<noteq> max_u64"
  proof -
    obtain r where r: "owner_of d (ow_recording_id x) = Some r" "live r" "record_owner r = x"
      using A(4) by (auto simp: read_owner_eq)
    then have "or_epoch r = ow_epoch x"
      by (auto simp: record_owner_def)
    then have "transition_ok (ow_recording_id (x\<lparr>ow_generation := gen, ow_worker := wk, ow_epoch := ow_epoch x + 1\<rparr>)) d
        (publish_owner w (x\<lparr>ow_generation := gen, ow_worker := wk, ow_epoch := ow_epoch x + 1\<rparr>) d)"
      using A r unat_succ_u64 [OF A(5)]
      by (intro transition_ok_publish) (auto simp: valid_owner_identity_def record_rank_live word_less_nat_alt)
    then show ?thesis by simp
  qed
  moreover have "x\<lparr>ow_generation := gen, ow_worker := wk, ow_epoch := ow_epoch x + 1\<rparr> =
      \<lparr>ow_recording_id = ow_recording_id x, ow_generation = gen, ow_worker = wk, ow_epoch = ow_epoch x + 1\<rparr>"
    by (cases x) simp
  ultimately show ?thesis
    by (auto simp: owner_transfer_def intro!: with_id_lock_transition split: sum.split)
qed

lemma release_effect:
  "(dir_ok d \<longrightarrow> dir_ok (snd (owner_release granted w x d))) \<and> dir_advances d (snd (owner_release granted w x d)) \<and>
   (case fst (owner_release granted w x d) of Inl _ \<Rightarrow> True
    | Inr _ \<Rightarrow> owner_of (snd (owner_release granted w x d)) (ow_recording_id x) =
        Some (make_owner_record x owner_fenced))"
proof (cases "valid_owner_identity x \<and> granted \<and> read_owner (ow_recording_id x) d = Inr x")
  case True
  then obtain r where r: "owner_of d (ow_recording_id x) = Some r" "live r" "record_owner r = x"
    by (auto simp: read_owner_eq)
  then have "or_epoch r = ow_epoch x"
    by (auto simp: record_owner_def)
  then have rank: "record_rank (owner_of d (ow_recording_id x)) < record_rank (Some (make_owner_record x owner_fenced))"
    using r by (simp add: record_rank_live record_rank_fenced)
  have snd: "snd (owner_release granted w x d) = snd (write_owner_record w x owner_fenced d)"
    using True by (auto simp: owner_release_def with_id_lock_def valid_owner_identity_def split: prod.splits option.splits)
  moreover have "w = Written" if "fst (owner_release granted w x d) = Inr y" for y
    using that True
    by (cases w) (auto simp: owner_release_def with_id_lock_def write_owner_record_eq split: if_splits)
  ultimately show ?thesis
    using True rank write_owner_record_ok [of d w x owner_fenced] write_owner_advances [of x owner_fenced d w]
    by (auto simp: owner_of_write split: sum.split)
next
  case False
  then have "owner_release granted w x d = (Inl (case owner_release granted w x d of (Inl e, _) \<Rightarrow> e), d)"
    by (auto simp: owner_release_def with_id_lock_def split: sum.splits)
  then show ?thesis
    by (metis dir_advances_refl fst_conv old.sum.simps(5) snd_conv)
qed

section \<open>What a recovery does\<close>

lemma scan_residue_names:
  "scan_residue io es remnants seen = Inr (rs, s) \<Longrightarrow>
     rs = remnants @ map fst (filter (\<lambda>(n, _). n \<noteq> lock_dir_name \<and> \<not> has_suffix n ''.json'') es) \<and>
     list_all (\<lambda>(n, _). n = lock_dir_name \<or> has_suffix n ''.json'' \<or> owner_temp_name n) es"
proof (induction es arbitrary: remnants seen)
  case (Cons e es)
  obtain n f where e: "e = (n, f)" by (cases e)
  show ?case
    using Cons.IH [of remnants True] Cons.IH [of remnants seen] Cons.IH [of "remnants @ [n]" seen] Cons.prems
    by (auto simp: e split: if_splits)
qed simp

lemma scan_residue_total:
  assumes "list_all (\<lambda>(n, f). owner_entry_ok n f) es" "\<And>n. rio_open io n"
  shows "\<exists>rs. scan_residue io es remnants seen = Inr (rs, seen \<or> lock_dir_name \<in> fst ` set es)"
  using assms
proof (induction es arbitrary: remnants seen)
  case (Cons e es)
  obtain n f where e: "e = (n, f)" by (cases e)
  note IH = Cons.IH [OF _ Cons.prems(2)]
  show ?case
    using IH [of remnants True] IH [of remnants seen] IH [of "remnants @ [n]" seen] Cons.prems
    by (auto simp: e owner_entry_ok_def split: if_splits)
qed simp

lemma remove_residue_effect:
  assumes "dir_ok d" "list_all owner_temp_name names"
  shows "dir_ok (snd (remove_residue io names d)) \<and>
    (\<forall>rid. owner_of (snd (remove_residue io names d)) rid = owner_of d rid) \<and>
    (fst (remove_residue io names d) = None \<longrightarrow>
       (\<forall>n. map_of (snd (remove_residue io names d)) n = (if n \<in> set names then None else map_of d n)))"
  using assms
proof (induction names arbitrary: d)
  case (Cons n names)
  then have "dir_ok (AList.delete n d)"
    by (intro dir_ok_delete) auto
  moreover have "n \<noteq> owner_path rid" for rid
    using Cons.prems(2) owner_temp_name_not_json owner_path_suffix(1) by (metis list_all_iff list.set_intros(1))
  ultimately show ?case
    using Cons by (auto simp: owner_of_delete)
qed simp

lemma reconcile_effect:
  assumes "dir_ok d"
  shows "dir_ok (snd (reconcile_owner_temp_files io d)) \<and>
    (\<forall>rid. owner_of (snd (reconcile_owner_temp_files io d)) rid = owner_of d rid) \<and>
    (fst (reconcile_owner_temp_files io d) = None \<longrightarrow>
       (\<forall>n. has_key (snd (reconcile_owner_temp_files io d)) n \<longrightarrow> n = lock_dir_name \<or> has_suffix n ''.json''))"
proof (cases "scan_residue io d [] False")
  case (Inr p)
  then obtain rs s where p: "scan_residue io d [] False = Inr (rs, s)" by (cases p) auto
  note names = scan_residue_names [OF p]
  then have temp: "list_all owner_temp_name rs"
    by (auto simp: list_all_iff)
  have key: "n \<in> fst ` set d" if "map_of d n \<noteq> None" for n
    using that by (simp add: map_of_eq_None_iff)
  have clean: "n = lock_dir_name \<or> has_suffix n ''.json''" if "map_of d n \<noteq> None" "n \<notin> set rs" for n
    using key [OF that(1)] that(2) names by (auto simp: image_iff)
  have eq: "reconcile_owner_temp_files io d = (if \<not> s then (Some ErrInvalidOwnerState, d)
      else if rs = [] then (None, d) else remove_residue io rs d)"
    using p by (simp add: reconcile_owner_temp_files_def)
  have left: "n = lock_dir_name \<or> has_suffix n ''.json''"
    if "map_of (snd (remove_residue io rs d)) n \<noteq> None" "fst (remove_residue io rs d) = None" for n
    using that clean remove_residue_effect [OF assms temp, of io] by metis
  show ?thesis
    using eq clean left remove_residue_effect [OF assms temp, of io] assms
    by (cases s; cases "rs = []") simp_all
qed (simp add: reconcile_owner_temp_files_def assms)

lemma validated_owner_files_names:
  "validated_owner_files d es = Inr rs \<Longrightarrow>
     map or_recording_id rs = map (\<lambda>(n, _). trim_suffix n ''.json'') (filter (\<lambda>(n, _). n \<noteq> lock_dir_name) es) \<and>
     (\<forall>r \<in> set rs. owner_of d (or_recording_id r) = Some r) \<and>
     (\<forall>(n, f) \<in> set es. n = lock_dir_name \<or> has_suffix n ''.json'')"
proof (induction es arbitrary: rs)
  case (Cons e es)
  obtain n f where e: "e = (n, f)" by (cases e)
  show ?case
  proof (cases "n = lock_dir_name")
    case False
    then obtain r rs' where r: "read_owner_record (trim_suffix n ''.json'') d = Inr r" "has_suffix n ''.json''"
      "validated_owner_files d es = Inr rs'" "rs = r # rs'"
      using Cons.prems by (auto simp: e split: if_splits sum.splits)
    then have "owner_of d (trim_suffix n ''.json'') = Some r"
      by (simp add: owner_of_def)
    moreover from this have "or_recording_id r = trim_suffix n ''.json''"
      by (rule owner_of_valid(2))
    ultimately show ?thesis
      using Cons.IH [OF r(3)] r False by (auto simp: e)
  qed (use Cons in \<open>auto simp: e split: if_splits\<close>)
qed simp

lemma validated_owner_files_ids:
  assumes "gomap_ok d" "validated_owner_files d d = Inr rs"
  shows "distinct (map or_recording_id rs)" "\<And>r. r \<in> set rs \<Longrightarrow> owner_of d (or_recording_id r) = Some r"
    "\<And>rid r. owner_of d rid = Some r \<Longrightarrow> r \<in> set rs"
proof -
  note N = validated_owner_files_names [OF assms(2)]
  let ?es = "filter (\<lambda>(n, _). n \<noteq> lock_dir_name) d"
  have json: "has_suffix n ''.json''" if "(n, f) \<in> set ?es" for n f
    using that N by auto
  have "inj_on (\<lambda>n. trim_suffix n ''.json'') (fst ` set ?es)"
  proof (rule inj_onI)
    fix a b assume "a \<in> fst ` set ?es" "b \<in> fst ` set ?es" "trim_suffix a ''.json'' = trim_suffix b ''.json''"
    moreover have "c = owner_path (trim_suffix c ''.json'')" if c: "c \<in> fst ` set ?es" for c
    proof -
      obtain p where "p \<in> set ?es" "c = fst p"
        using c by (rule imageE)
      then have "(c, snd p) \<in> set ?es" by simp
      then show ?thesis
        by (rule json [THEN json_name_path])
    qed
    ultimately show "a = b"
      by metis
  qed
  moreover have "distinct (map fst ?es)"
    using assms(1) by (simp add: distinct_map_filter)
  ultimately have "distinct (map (\<lambda>n. trim_suffix n ''.json'') (map fst ?es))"
    by (simp add: distinct_map comp_inj_on)
  moreover have "map (\<lambda>n. trim_suffix n ''.json'') (map fst ?es) = map or_recording_id rs"
    using N by (simp add: case_prod_beta' comp_def)
  ultimately show "distinct (map or_recording_id rs)" by simp
  show here: "owner_of d (or_recording_id r) = Some r" if "r \<in> set rs" for r
    using N that by blast
  show "r \<in> set rs" if found: "owner_of d rid = Some r" for rid r
  proof -
    obtain f where "map_of d (owner_path rid) = Some f"
      using found by (auto simp: owner_of_def read_owner_record_def split: option.splits)
    then have "(owner_path rid, f) \<in> set ?es"
      by (auto dest: map_of_SomeD)
    then have "rid \<in> set (map (\<lambda>(n, _). trim_suffix n ''.json'') ?es)"
      by force
    then have "rid \<in> set (map or_recording_id rs)"
      using N by simp
    then show ?thesis
      using found here by auto
  qed
qed

lemma fence_owners_effect:
  assumes "dir_ok d" "distinct (map or_recording_id rs)"
    "\<And>r. r \<in> set rs \<Longrightarrow> owner_of d (or_recording_id r) = Some r"
  shows "dir_ok (snd (fence_owners io rs d)) \<and> dir_advances d (snd (fence_owners io rs d)) \<and>
    (\<forall>rid. rid \<notin> set (map or_recording_id rs) \<longrightarrow> owner_of (snd (fence_owners io rs d)) rid = owner_of d rid) \<and>
    (fst (fence_owners io rs d) = None \<longrightarrow> (\<forall>r \<in> set rs. \<exists>r'.
       owner_of (snd (fence_owners io rs d)) (or_recording_id r) = Some r' \<and> \<not> live r' \<and>
       record_owner r' = record_owner r))"
  using assms
proof (induction rs arbitrary: d)
  case (Cons r rs)
  have r: "owner_of d (or_recording_id r) = Some r"
    using Cons.prems(3) by simp
  note valid = owner_of_valid [OF r]
  show ?case
  proof (cases "live r")
    case False
    then have "effective_owner_state (or_state r) = owner_fenced"
      using valid live_or_fenced by blast
    then show ?thesis
      using Cons.IH [of d] Cons.prems False r by auto
  next
    case True
    let ?x = "record_owner r" let ?w = "rio_write io (or_recording_id r)"
    let ?d = "snd (write_owner_record ?w ?x owner_fenced d)"
    have rid: "ow_recording_id ?x = or_recording_id r" "ow_epoch ?x = or_epoch r"
      by (simp_all add: record_owner_def)
    have of_d: "owner_of ?d rid = (if rid = or_recording_id r \<and> ?w \<in> {Written, RenamedUnsynced}
        then Some (make_owner_record ?x owner_fenced) else owner_of d rid)" for rid
      using valid by (simp add: owner_of_write rid)
    have adv: "dir_advances d ?d"
      using valid True r by (intro write_owner_advances) (auto simp: rid record_rank_live record_rank_fenced)
    have ok: "dir_ok ?d"
      using Cons.prems(1) by (rule write_owner_record_ok)
    have rest: "owner_of ?d (or_recording_id q) = Some q" if "q \<in> set rs" for q
      using that Cons.prems(2,3) by (force simp: of_d image_iff)
    have not_fenced: "effective_owner_state (or_state r) \<noteq> owner_fenced"
      using True valid live_or_fenced by blast
    have "distinct (map or_recording_id rs)"
      using Cons.prems(2) by simp
    note IH = Cons.IH [OF ok this rest]
    show ?thesis
    proof (cases "?w = Written")
      case w: True
      have step: "fence_owners io (r # rs) d = fence_owners io rs ?d"
        using w valid not_fenced by (simp add: write_owner_record_eq)
      have "owner_of ?d (or_recording_id r) = Some (make_owner_record ?x owner_fenced)"
        unfolding of_d using w by simp
      then have "owner_of (snd (fence_owners io rs ?d)) (or_recording_id r) = Some (make_owner_record ?x owner_fenced)"
        using IH Cons.prems(2) by auto
      moreover have "dir_advances d (snd (fence_owners io rs ?d))"
        using IH by (intro dir_advances_trans [OF adv]) blast
      ultimately show ?thesis
        using IH Cons.prems(2) unfolding step by (auto simp: of_d)
    next
      case w: False
      then have "fence_owners io (r # rs) d = (Some ErrIO, ?d)"
        using valid not_fenced by (cases ?w) (auto simp: write_owner_record_eq)
      then show ?thesis
        using ok adv by (auto simp: of_d)
    qed
  qed
qed simp

lemma recovery_steps:
  assumes "dir_ok d"
  obtains (refused) e where "with_fenced_recovery io recover d w = (Some e, d, w)"
  | (stopped) e d' where "with_fenced_recovery io recover d w = (Some e, d', w)" "dir_ok d'" "dir_advances d d'"
  | (fenced) f d' where "recover = Some f" "with_fenced_recovery io recover d w = (fst (f w), d', snd (f w))"
      "dir_ok d'" "dir_advances d d'" "\<And>rid r. owner_of d' rid = Some r \<Longrightarrow> \<not> live r"
      "\<And>rid. map_option record_owner (owner_of d' rid) = map_option record_owner (owner_of d rid)"
proof (cases "recover = None \<or> \<not> list_all (rio_lock io) [0..<lock_shards]")
  case True
  then show ?thesis
    by (intro refused [of "if recover = None then ErrInvalidRecovery else ErrIO"])
      (auto simp: with_fenced_recovery_def with_all_locks_def split: option.split)
next
  case False
  then obtain f where f: "recover = Some f" and locks: "list_all (rio_lock io) [0..<lock_shards]"
    by auto
  obtain r1 d1 where rec: "reconcile_owner_temp_files io d = (r1, d1)"
    by (cases "reconcile_owner_temp_files io d")
  have d1: "dir_ok d1" "\<And>rid. owner_of d1 rid = owner_of d rid"
    using reconcile_effect [OF assms, of io] by (simp_all add: rec)
  then have adv1: "dir_advances d d1"
    by (simp add: dir_advances_def advances_def)
  show ?thesis
  proof (cases r1)
    case (Some e)
    then show ?thesis
      using stopped [OF _ d1(1) adv1] f locks rec by (simp add: with_fenced_recovery_def with_all_locks_def)
  next
    case None
    show ?thesis
    proof (cases "validated_owner_files d1 d1")
      case (Inl e)
      then show ?thesis
        using None stopped [OF _ d1(1) adv1] f locks rec by (simp add: with_fenced_recovery_def with_all_locks_def)
    next
      case (Inr rs)
      obtain r2 d2 where fence: "fence_owners io rs d1 = (r2, d2)"
        by (cases "fence_owners io rs d1")
      have "gomap_ok d1"
        using d1(1) by (simp add: dir_ok_def)
      note ids = validated_owner_files_ids [OF this Inr]
      note F = fence_owners_effect [OF d1(1) ids(1,2), of io, simplified]
      have d2: "dir_ok d2" "dir_advances d d2"
        using F dir_advances_trans [OF adv1] by (simp_all add: fence)
      show ?thesis
      proof (cases r2)
        case (Some e)
        then show ?thesis
          using Inr None stopped [OF _ d2] f locks rec fence
          by (simp add: with_fenced_recovery_def with_all_locks_def)
      next
        case r2: None
        have all: "\<exists>r'. owner_of d2 (or_recording_id r) = Some r' \<and> \<not> live r' \<and> record_owner r' = record_owner r"
          if "r \<in> set rs" for r
          using F that by (simp add: fence r2)
        have kept: "owner_of d2 rid = owner_of d1 rid" if none: "owner_of d1 rid = None" for rid
        proof -
          have "rid \<notin> set (map or_recording_id rs)"
            using ids(2) none by auto
          then show ?thesis
            using F by (simp add: fence)
        qed
        have result: "\<not> live r \<and> map_option record_owner (owner_of d1 rid) = Some (record_owner r)"
          if r: "owner_of d2 rid = Some r" for rid r
        proof (cases "owner_of d1 rid")
          case None
          then show ?thesis using kept r by simp
        next
          case (Some r0)
          then show ?thesis
            using all [OF ids(3) [OF Some]] owner_of_valid(2) [OF Some] r by auto
        qed
        have same: "map_option record_owner (owner_of d2 rid) = map_option record_owner (owner_of d rid)" for rid
        proof (cases "owner_of d2 rid")
          case None
          then show ?thesis
            using all ids(3) owner_of_valid(2) d1(2) by (metis not_None_eq option.simps(8))
        next
          case (Some r)
          then show ?thesis
            using result [OF Some] d1(2) [of rid] by auto
        qed
        show ?thesis
          using fenced [OF f _ d2] result same None Inr r2 f locks rec fence
          by (simp add: with_fenced_recovery_def with_all_locks_def split: prod.split)
      qed
    qed
  qed
qed

section \<open>Runs of the store\<close>

text \<open>
  The archive the callbacks write is the list of the writes made so far, each with the authority it was
  made under.  Callbacks record their write and return \<open>outcome\<close>.
\<close>

datatype archive_write = ByOwner owner | Unowned string | Recovery

record owner_system =
  os_dir :: owner_dir
  os_log :: "archive_write list"

datatype owner_op =
    ClaimOp bool write_outcome string string string
  | TransferOp bool write_outcome owner string string
  | ReleaseOp bool write_outcome owner
  | CommitOp bool owner "owner_error option"
  | UnownedOp bool string "owner_error option"
  | RecoverOp recovery_io "owner_error option"

definition logging :: "archive_write \<Rightarrow> owner_error option \<Rightarrow> archive_write list callback" where
  "logging a outcome = (\<lambda>log. (outcome, log @ [a]))"

fun owner_step :: "owner_system \<Rightarrow> owner_op \<Rightarrow> owner_system" where
  "owner_step s (ClaimOp granted w rid gen wk) =
     s\<lparr>os_dir := snd (owner_claim granted w rid gen wk (os_dir s))\<rparr>"
| "owner_step s (TransferOp granted w x gen wk) =
     s\<lparr>os_dir := snd (owner_transfer granted w x gen wk (os_dir s))\<rparr>"
| "owner_step s (ReleaseOp granted w x) = s\<lparr>os_dir := snd (owner_release granted w x (os_dir s))\<rparr>"
| "owner_step s (CommitOp granted x outcome) =
     s\<lparr>os_log := snd (with_commit granted x (Some (logging (ByOwner x) outcome)) (os_dir s) (os_log s))\<rparr>"
| "owner_step s (UnownedOp granted rid outcome) =
     s\<lparr>os_log := snd (with_unowned_commit granted rid (Some (logging (Unowned rid) outcome)) (os_dir s) (os_log s))\<rparr>"
| "owner_step s (RecoverOp io outcome) =
     (case with_fenced_recovery io (Some (logging Recovery outcome)) (os_dir s) (os_log s) of
        (_, d, log) \<Rightarrow> \<lparr>os_dir = d, os_log = log\<rparr>)"

definition fresh_owner_system :: owner_system where
  "fresh_owner_system = \<lparr>os_dir = fresh_owner_dir, os_log = []\<rparr>"

definition run_owner :: "owner_system \<Rightarrow> owner_op list \<Rightarrow> owner_system" where
  "run_owner = foldl owner_step"

lemma owner_step_dir:
  assumes "dir_ok (os_dir s)"
  shows "dir_ok (os_dir (owner_step s p)) \<and> dir_advances (os_dir s) (os_dir (owner_step s p))"
proof (cases p)
  case (ClaimOp granted w rid gen wk)
  then show ?thesis
    using claim_transition [of rid "os_dir s" granted w gen wk] assms by (simp add: transition_ok_def)
next
  case (TransferOp granted w x gen wk)
  then show ?thesis
    using transfer_transition [of x "os_dir s" granted w gen wk] assms by (simp add: transition_ok_def)
next
  case (ReleaseOp granted w x)
  then show ?thesis
    using release_effect [of "os_dir s" granted w x] assms by simp
next
  case (RecoverOp io outcome)
  then show ?thesis
    using assms
    by (cases rule: recovery_steps [OF assms, of io "Some (logging Recovery outcome)" "os_log s"]) auto
qed (use assms in simp_all)

text \<open>Every recording's rank is a monotone level of the store; more precisely every later directory is
  reached from every earlier one by advances only.\<close>

lemma advances_rank: "dir_advances d d' \<Longrightarrow> (\<lambda>rid. record_rank (owner_of d rid)) \<le> (\<lambda>rid. record_rank (owner_of d' rid))"
  by (auto simp: dir_advances_def advances_def le_fun_def intro: order_less_imp_le) (metis order.order_iff_strict)

interpretation owners: monotone_system owner_step "\<lambda>s. dir_ok (os_dir s)"
    "\<lambda>s rid. record_rank (owner_of (os_dir s) rid)"
proof
  fix s :: owner_system and p
  assume ok: "dir_ok (os_dir s)"
  show "dir_ok (os_dir (owner_step s p))"
    using owner_step_dir [OF ok] by blast
  show "(\<lambda>rid. record_rank (owner_of (os_dir s) rid)) \<le> (\<lambda>rid. record_rank (owner_of (os_dir (owner_step s p)) rid))"
    using owner_step_dir [OF ok, of p] by (intro advances_rank) blast
qed

interpretation history: op_system owner_step "\<lambda>s. dir_ok (os_dir s) \<and> dir_advances origin (os_dir s)" for origin
  using owner_step_dir dir_advances_trans by unfold_locales blast

lemma run_dir:
  assumes "dir_ok (os_dir s)"
  shows "dir_ok (os_dir (run_owner s ops))" "dir_advances (os_dir s) (os_dir (run_owner s ops))"
  using history.run_inv [of s "os_dir s" ops] assms by (auto simp: run_owner_def)

section \<open>Tokens that lost their recording\<close>

definition token_stale :: "owner \<Rightarrow> owner_dir \<Rightarrow> bool" where
  "token_stale x d \<longleftrightarrow> read_owner (ow_recording_id x) d \<noteq> Inr x \<and>
     2 * unat (ow_epoch x) \<le> record_rank (owner_of d (ow_recording_id x))"

lemma current_rank:
  assumes "read_owner rid d = Inr x"
  shows "record_rank (owner_of d rid) = 2 * unat (ow_epoch x)" "valid_owner_identity x" "ow_recording_id x = rid"
proof -
  obtain r where "owner_of d rid = Some r" "live r" "record_owner r = x"
    using assms by (auto simp: read_owner_eq)
  then show "record_rank (owner_of d rid) = 2 * unat (ow_epoch x)" "valid_owner_identity x" "ow_recording_id x = rid"
    using owner_of_valid by (auto simp: record_rank_live record_owner_def)
qed

lemma token_stale_advances:
  assumes "token_stale x d" "dir_advances d d'"
  shows "token_stale x d'"
proof -
  let ?rid = "ow_recording_id x"
  have "owner_of d ?rid = owner_of d' ?rid \<or> record_rank (owner_of d ?rid) < record_rank (owner_of d' ?rid)"
    using assms(2) by (simp add: dir_advances_def advances_def)
  then show ?thesis
  proof
    assume "record_rank (owner_of d ?rid) < record_rank (owner_of d' ?rid)"
    then show ?thesis
      using assms(1) current_rank(1) [of ?rid d' x] by (auto simp: token_stale_def)
  qed (use assms(1) in \<open>simp add: token_stale_def read_owner_eq\<close>)
qed

lemma with_commit_current:
  "valid_owner_identity x \<Longrightarrow> read_owner (ow_recording_id x) d = Inr x \<Longrightarrow>
     with_commit True x (Some f) d w = f w"
  by (simp add: with_commit_def locked_callback_def valid_owner_identity_def)

lemma with_commit_not_current:
  "read_owner (ow_recording_id x) d \<noteq> Inr x \<Longrightarrow> \<exists>e. with_commit granted x f d w = (Some e, w)"
  by (auto simp: with_commit_def locked_callback_def split: option.split sum.split)

lemma with_commit_either:
  "(\<exists>e. with_commit granted x (Some f) d w = (Some e, w)) \<or>
   with_commit granted x (Some f) d w = f w \<and> read_owner (ow_recording_id x) d = Inr x"
  by (auto simp: with_commit_def locked_callback_def split: sum.splits)

lemma with_commit_cases:
  obtains e where "with_commit granted x (Some f) d w = (Some e, w)"
  | "with_commit granted x (Some f) d w = f w" "read_owner (ow_recording_id x) d = Inr x"
  using with_commit_either [of granted x f d w] by blast

lemma with_unowned_commit_cases:
  assumes "dir_ok d"
  obtains e where "with_unowned_commit granted rid (Some f) d w = (Some e, w)"
  | "with_unowned_commit granted rid (Some f) d w = f w" "\<And>r. owner_of d rid = Some r \<Longrightarrow> \<not> live r"
proof (cases "\<exists>r. owner_of d rid = Some r \<and> live r")
  case True
  then obtain r where "read_owner_record rid d = Inr r" "effective_owner_state (or_state r) \<noteq> owner_fenced"
    using dir_ok_read [OF assms, of rid] owner_of_valid(3) live_or_fenced by fastforce
  then have "\<exists>e. with_unowned_commit granted rid (Some f) d w = (Some e, w)"
    by (auto simp: with_unowned_commit_def locked_callback_def)
  then show ?thesis
    using that(1) by blast
next
  case False
  then have "with_unowned_commit granted rid (Some f) d w = f w" if "hex32 rid" "granted"
    using that dir_ok_read [OF assms, of rid] owner_of_valid(3) [of d rid] live_or_fenced
    by (auto simp: with_unowned_commit_def locked_callback_def split: option.splits)
  moreover have "\<exists>e. with_unowned_commit granted rid (Some f) d w = (Some e, w)" if "\<not> (hex32 rid \<and> granted)"
    using that by (auto simp: with_unowned_commit_def locked_callback_def)
  ultimately show ?thesis
    using that False by blast
qed

section \<open>The history of the archive\<close>

definition is_barrier :: "string \<Rightarrow> archive_write \<Rightarrow> bool" where
  "is_barrier rid a \<longleftrightarrow> (case a of ByOwner _ \<Rightarrow> False | Unowned r \<Rightarrow> r = rid | Recovery \<Rightarrow> True)"

abbreviation barrier :: "string \<Rightarrow> archive_write list \<Rightarrow> bool" where
  "barrier rid \<equiv> list_ex (is_barrier rid)"

text \<open>What an earlier commit says about the directory now, and about a later commit.\<close>

definition settled :: "owner \<Rightarrow> bool \<Rightarrow> owner_dir \<Rightarrow> bool" where
  "settled x passed d \<longleftrightarrow> 0 < ow_epoch x \<and>
     2 * unat (ow_epoch x) \<le> record_rank (owner_of d (ow_recording_id x)) \<and>
     (record_rank (owner_of d (ow_recording_id x)) = 2 * unat (ow_epoch x) \<longrightarrow>
        \<not> passed \<and> map_option record_owner (owner_of d (ow_recording_id x)) = Some x)"

fun log_ok :: "owner_dir \<Rightarrow> archive_write list \<Rightarrow> bool" where
  "log_ok d [] = True"
| "log_ok d (a # rest) =
     (log_ok d rest \<and> (case a of ByOwner x \<Rightarrow> settled x (barrier (ow_recording_id x) rest) d \<and>
        (\<forall>ys y zs. rest = ys @ ByOwner y # zs \<longrightarrow> ow_recording_id y = ow_recording_id x \<longrightarrow>
           ow_epoch x < ow_epoch y \<or> (x = y \<and> \<not> barrier (ow_recording_id x) ys)) | _ \<Rightarrow> True))"

lemma settled_advances:
  assumes "settled x p d" "dir_advances d d'"
  shows "settled x p d'"
proof -
  let ?rid = "ow_recording_id x"
  have "owner_of d ?rid = owner_of d' ?rid \<or> record_rank (owner_of d ?rid) < record_rank (owner_of d' ?rid)"
    using assms(2) by (simp add: dir_advances_def advances_def)
  then show ?thesis
  proof
    assume "owner_of d ?rid = owner_of d' ?rid"
    with assms(1) show ?thesis
      unfolding settled_def by simp
  qed (use assms(1) in \<open>simp add: settled_def\<close>)
qed

lemma log_ok_advances: "log_ok d log \<Longrightarrow> dir_advances d d' \<Longrightarrow> log_ok d' log"
  by (induction log) (auto split: archive_write.splits intro: settled_advances)

lemma settled_current:
  assumes "settled x p d" "read_owner (ow_recording_id x) d = Inr y"
  shows "ow_epoch x < ow_epoch y \<or> (x = y \<and> \<not> p)"
proof -
  obtain r where r: "owner_of d (ow_recording_id x) = Some r" "record_owner r = y"
    using assms(2) by (auto simp: read_owner_eq)
  have "record_rank (owner_of d (ow_recording_id x)) = 2 * unat (ow_epoch y)"
    by (rule current_rank(1) [OF assms(2)])
  then have "unat (ow_epoch x) < unat (ow_epoch y) \<or> (x = y \<and> \<not> p)"
    using assms(1) r by (auto simp: settled_def)
  then show ?thesis
    by (auto simp: word_less_nat_alt)
qed

lemma append_ByOwner_split:
  "rest @ [a] = ys @ ByOwner y # zs \<Longrightarrow>
     (\<exists>zs'. zs = zs' @ [a] \<and> rest = ys @ ByOwner y # zs') \<or> (zs = [] \<and> ys = rest \<and> a = ByOwner y)"
  by (cases zs rule: rev_cases) auto

lemma log_ok_commit:
  assumes "log_ok d log" "read_owner (ow_recording_id y) d = Inr y"
  shows "log_ok d (log @ [ByOwner y])"
  using assms(1)
proof (induction log)
  case Nil
  obtain r where r: "owner_of d (ow_recording_id y) = Some r" "record_owner r = y"
    using assms(2) by (auto simp: read_owner_eq)
  then show ?case
    using current_rank [OF assms(2)] by (auto simp: settled_def valid_owner_identity_def)
next
  case (Cons a log)
  show ?case
  proof (cases a)
    case (ByOwner x)
    have "ow_epoch x < ow_epoch z \<or> (x = z \<and> \<not> barrier (ow_recording_id x) ys)"
      if "log @ [ByOwner y] = ys @ ByOwner z # zs" "ow_recording_id z = ow_recording_id x" for ys z zs
      using append_ByOwner_split [OF that(1)]
    proof
      assume "zs = [] \<and> ys = log \<and> ByOwner y = ByOwner z"
      then show ?thesis
        using Cons.prems ByOwner that(2) assms(2) settled_current [of x "barrier (ow_recording_id x) log" d y] by auto
    qed (use Cons.prems ByOwner that(2) in auto)
    then show ?thesis
      using Cons ByOwner by (simp add: is_barrier_def)
  qed (use Cons in simp_all)
qed

lemma log_ok_barrier:
  assumes "log_ok d log" "\<And>y. a \<noteq> ByOwner y"
    "\<And>rid r. is_barrier rid a \<Longrightarrow> owner_of d rid = Some r \<Longrightarrow> \<not> live r"
  shows "log_ok d (log @ [a])"
  using assms(1)
proof (induction log)
  case Nil
  then show ?case
    using assms(2) by (cases a) auto
next
  case (Cons b log)
  show ?case
  proof (cases b)
    case (ByOwner x)
    have no_new: "\<exists>zs'. log = ys @ ByOwner z # zs'" if "log @ [a] = ys @ ByOwner z # zs" for ys z zs
      using append_ByOwner_split [OF that] assms(2) by blast
    have "record_rank (owner_of d (ow_recording_id x)) \<noteq> 2 * unat (ow_epoch x)" if "is_barrier (ow_recording_id x) a"
    proof (cases "owner_of d (ow_recording_id x)")
      case None
      then show ?thesis
        using Cons.prems ByOwner by (auto simp: settled_def record_rank_def)
    next
      case (Some r)
      then have "\<not> live r"
        using assms(3) that by blast
      then show ?thesis
        using Some by (simp add: record_rank_fenced) presburger
    qed
    then have "settled x (barrier (ow_recording_id x) (log @ [a])) d"
      using Cons.prems ByOwner by (auto simp: settled_def)
    then show ?thesis
      using Cons ByOwner no_new by fastforce
  qed (use Cons in simp_all)
qed

lemma owner_step_log:
  assumes "dir_ok (os_dir s)" "log_ok (os_dir s) (os_log s)"
  shows "log_ok (os_dir (owner_step s p)) (os_log (owner_step s p))"
proof (cases p)
  case (CommitOp granted x outcome)
  then show ?thesis
    using assms(2)
    by (cases rule: with_commit_cases [of granted x "logging (ByOwner x) outcome" "os_dir s" "os_log s"])
      (auto simp: logging_def intro: log_ok_commit)
next
  case (UnownedOp granted rid outcome)
  then show ?thesis
    using assms(2)
    by (cases rule: with_unowned_commit_cases [OF assms(1), of granted rid "logging (Unowned rid) outcome" "os_log s"])
      (auto simp: logging_def is_barrier_def intro!: log_ok_barrier)
next
  case (RecoverOp io outcome)
  show ?thesis
  proof (cases rule: recovery_steps [OF assms(1), of io "Some (logging Recovery outcome)" "os_log s", case_names refused stopped fenced])
    case (fenced f d')
    then show ?thesis
      using RecoverOp log_ok_advances [OF assms(2)]
      by (auto simp: logging_def is_barrier_def intro!: log_ok_barrier)
  qed (use RecoverOp assms(2) log_ok_advances [OF assms(2)] in auto)
qed (use assms owner_step_dir [OF assms(1), of p] log_ok_advances [OF assms(2)] in auto)

interpretation archive: op_system owner_step "\<lambda>s. dir_ok (os_dir s) \<and> log_ok (os_dir s) (os_log s)"
  using owner_step_dir owner_step_log by unfold_locales blast

lemma run_owner_log: "log_ok (os_dir (run_owner fresh_owner_system ops)) (os_log (run_owner fresh_owner_system ops))"
  using archive.run_inv [of fresh_owner_system ops] by (simp add: run_owner_def fresh_owner_system_def)

section \<open>Sample store\<close>

definition sample_rid :: string where "sample_rid = replicate 32 CHR ''a''"

definition sample_engine :: "char \<Rightarrow> string" where "sample_engine c = replicate 32 c"

lemma sample_rid_ok [simp]: "hex32 sample_rid"
  by (simp add: sample_rid_def hex32_def is_hex_lower_def less_eq_char_def list_all_iff set_replicate_conv_if)

lemma sample_engine_ok [simp]: "opaque_id (sample_engine CHR ''a'')" "opaque_id (sample_engine CHR ''b'')"
  by (simp_all add: sample_engine_def opaque_id_def is_hex_def is_hex_lower_def less_eq_char_def list_all_iff
      set_replicate_conv_if)

definition sample_owner :: "u64 \<Rightarrow> owner" where
  "sample_owner e = \<lparr>ow_recording_id = sample_rid, ow_generation = sample_engine CHR ''a'',
     ow_worker = sample_engine CHR ''b'', ow_epoch = e\<rparr>"

lemma sample_owner_valid [simp]: "valid_owner_identity (sample_owner e) \<longleftrightarrow> 0 < e"
  "ow_recording_id (sample_owner e) = sample_rid" "ow_epoch (sample_owner e) = e"
  by (simp_all add: valid_owner_identity_def sample_owner_def)

definition sample_owner_dir :: "u64 \<Rightarrow> string \<Rightarrow> owner_dir" where
  "sample_owner_dir e st = AList.update (owner_path sample_rid) (published_file (sample_owner e) st) fresh_owner_dir"

lemma sample_owner_dir_read [simp]:
  "0 < e \<Longrightarrow> valid_owner_state st \<Longrightarrow>
     read_owner_record sample_rid (sample_owner_dir e st) = Inr (make_owner_record (sample_owner e) st)"
  using decode_published_file [of "sample_owner e" st] by (simp add: sample_owner_dir_def read_owner_record_def)

lemma sample_owner_dir_live [simp]:
  "0 < e \<Longrightarrow> read_owner sample_rid (sample_owner_dir e owner_active) = Inr (sample_owner e)"
  using live_make(1) [of "sample_owner e"] by (simp add: read_owner_def live_def)

lemma sample_owner_dir_ok: "0 < e \<Longrightarrow> dir_ok (sample_owner_dir e owner_active)"
  using published_entry_ok [of "sample_owner e" owner_active]
  by (auto simp: sample_owner_dir_def intro!: dir_ok_update)

section \<open>Properties\<close>

lemma log_ok_pair:
  assumes "log_ok d (xs @ ByOwner a # ys @ ByOwner b # zs)" "ow_recording_id a = ow_recording_id b"
  shows "ow_epoch a < ow_epoch b \<or> (a = b \<and> \<not> barrier (ow_recording_id a) ys)"
  using assms by (induction xs) auto

text \<open>C10: One writer per epoch.  In every run of the store from an empty directory, whatever callers ask
  for and whichever locks and writes fail or crash, two canonical commits of a recording either carry
  strictly increasing epochs or the same token; and once an unowned mutation of the archive or a
  recovery came between them, the epoch has increased.\<close>

theorem commits_have_a_single_writer_per_epoch:
  assumes "os_log (run_owner fresh_owner_system ops) = xs @ ByOwner a # ys @ ByOwner b # zs"
    "ow_recording_id a = ow_recording_id b"
  shows "ow_epoch a < ow_epoch b \<or>
    (a = b \<and> list_all (\<lambda>w. w \<noteq> Recovery \<and> w \<noteq> Unowned (ow_recording_id a)) ys)"
proof -
  have "log_ok (os_dir (run_owner fresh_owner_system ops)) (xs @ ByOwner a # ys @ ByOwner b # zs)"
    using run_owner_log [of ops] assms(1) by simp
  from log_ok_pair [OF this assms(2)] show ?thesis
    by (force simp: is_barrier_def list_ex_iff list_all_iff split: archive_write.splits)
qed

lemma owner_step_claim_sample:
  "os_dir (owner_step fresh_owner_system (ClaimOp True Written sample_rid (sample_engine CHR ''a'')
     (sample_engine CHR ''b''))) = sample_owner_dir 1 owner_active"
proof -
  have "read_owner_record sample_rid fresh_owner_dir = Inl ErrNotFound"
    by (simp add: read_owner_record_def fresh_owner_dir_def)
  then show ?thesis
    using sample_owner_valid(1) [of 1]
    by (simp add: fresh_owner_system_def owner_claim_def Let_def with_id_lock_def publish_owner_def write_owner_def
        write_owner_record_eq sample_owner_dir_def sample_owner_def)
qed

theorem commits_have_a_single_writer_per_epoch_witness:
  "let c = CommitOp True (sample_owner 1) None;
       ops = [ClaimOp True Written sample_rid (sample_engine CHR ''a'') (sample_engine CHR ''b''), c, c]
   in os_log (run_owner fresh_owner_system ops) = [ByOwner (sample_owner 1), ByOwner (sample_owner 1)] \<and>
      (ow_epoch (sample_owner 1) < ow_epoch (sample_owner 1) \<or> sample_owner 1 = sample_owner 1)"
proof -
  let ?claim = "ClaimOp True Written sample_rid (sample_engine CHR ''a'') (sample_engine CHR ''b'')"
  let ?c = "CommitOp True (sample_owner 1) None"
  have commit: "os_log (owner_step s ?c) = os_log s @ [ByOwner (sample_owner 1)]" "os_dir (owner_step s ?c) = os_dir s"
    if "os_dir s = sample_owner_dir 1 owner_active" for s
    using that with_commit_current [of "sample_owner 1" "os_dir s" "logging (ByOwner (sample_owner 1)) None"]
    by (simp_all add: logging_def)
  have "os_log (owner_step fresh_owner_system ?claim) = []"
    by (simp add: fresh_owner_system_def)
  then have log: "os_log (run_owner fresh_owner_system [?claim, ?c, ?c]) = [] @ ByOwner (sample_owner 1) # [] @ ByOwner (sample_owner 1) # []"
    using owner_step_claim_sample commit by (simp add: run_owner_def del: owner_step.simps)
  from commits_have_a_single_writer_per_epoch [OF log refl] log show ?thesis
    by (simp add: Let_def)
qed

text \<open>C29: A transfer supersedes the previous owner for good.  A successful transfer hands out the next
  epoch without wrapping, the new token may commit at once, and after any further operations, crashes
  and recoveries the old token is refused without the commit callback running.\<close>

theorem transfer_supersedes_previous_owner:
  assumes "dir_ok d" "owner_transfer granted w x gen wk d = (Inr y, d')"
  shows "unat (ow_epoch y) = unat (ow_epoch x) + 1 \<and> with_commit True y (Some f) d' a = f a \<and>
    (\<exists>e. with_commit lock x (Some f) (os_dir (run_owner \<lparr>os_dir = d', os_log = log\<rparr> ops)) a = (Some e, a))"
proof -
  have ok: "transition_ok (ow_recording_id x) d (Inr y, d')"
    using transfer_transition [of x d granted w gen wk] assms(2) by simp
  have cur: "read_owner (ow_recording_id x) d = Inr x" and ne: "ow_epoch x \<noteq> max_u64"
    using assms(2) by (auto simp: owner_transfer_def with_id_lock_def split: if_splits sum.splits)
  then have "ow_epoch y = ow_epoch x + 1"
    using ok by (auto simp: transition_ok_def read_owner_eq record_owner_def)
  then have epoch: "unat (ow_epoch y) = unat (ow_epoch x) + 1"
    using ne by (simp add: unat_succ_u64)
  have y: "valid_owner_identity y" "ow_recording_id y = ow_recording_id x"
    "read_owner (ow_recording_id x) d' = Inr y" "dir_ok d'"
    using ok assms(1) by (auto simp: transition_ok_def read_owner_eq)
  have "token_stale x d'"
    using y(3) epoch current_rank(1) [OF y(3)] by (auto simp: token_stale_def)
  then have "token_stale x (os_dir (run_owner \<lparr>os_dir = d', os_log = log\<rparr> ops))"
    using run_dir(2) [of "\<lparr>os_dir = d', os_log = log\<rparr>" ops] y(4) by (auto intro: token_stale_advances)
  then show ?thesis
    using epoch y with_commit_current [of y d' f a] with_commit_not_current by (auto simp: token_stale_def)
qed

theorem transfer_supersedes_previous_owner_witness:
  "\<exists>y d'. owner_transfer True Written (sample_owner 1) (sample_engine CHR ''b'') (sample_engine CHR ''a'')
       (sample_owner_dir 1 owner_active) = (Inr y, d') \<and> unat (ow_epoch y) = 2"
proof -
  have "valid_owner_identity \<lparr>ow_recording_id = sample_rid, ow_generation = sample_engine CHR ''b'',
      ow_worker = sample_engine CHR ''a'', ow_epoch = 2\<rparr>"
    by (simp add: valid_owner_identity_def)
  then have "\<exists>y d'. owner_transfer True Written (sample_owner 1) (sample_engine CHR ''b'') (sample_engine CHR ''a'')
       (sample_owner_dir 1 owner_active) = (Inr y, d')"
    by (simp add: owner_transfer_def with_id_lock_def publish_owner_def write_owner_def write_owner_record_eq max_u64_def)
  then obtain y d' where t: "owner_transfer True Written (sample_owner 1) (sample_engine CHR ''b'') (sample_engine CHR ''a'')
       (sample_owner_dir 1 owner_active) = (Inr y, d')" by blast
  have ok: "dir_ok (sample_owner_dir 1 owner_active)"
    by (rule sample_owner_dir_ok) simp
  have "unat (ow_epoch y) = unat (ow_epoch (sample_owner 1)) + 1"
    by (rule transfer_supersedes_previous_owner [OF ok t, THEN conjunct1])
  then show ?thesis
    using t by auto
qed

text \<open>C30: A recovery fences every owner before it runs.  Either it returns an error and leaves the archive
  untouched, or its result is the callback's and then no recording has a live owner, every record kept
  its identity and epoch, and no token that was current before can ever commit again.\<close>

theorem recovery_fences_every_owner:
  assumes "dir_ok d" "with_fenced_recovery io (Some f) d w = (res, d', w')"
  shows "(\<exists>e. res = Some e \<and> w' = w) \<or>
    ((res, w') = f w \<and> read_owner rid d' = Inl ErrNotFound \<and>
     map_option record_owner (owner_of d' rid) = map_option record_owner (owner_of d rid) \<and>
     (read_owner (ow_recording_id x) d = Inr x \<longrightarrow>
       (\<exists>e. with_commit lock x (Some g) (os_dir (run_owner \<lparr>os_dir = d', os_log = log\<rparr> ops)) a = (Some e, a))))"
proof (cases rule: recovery_steps [OF assms(1), of io "Some f" w, case_names refused stopped fenced])
  case (fenced f' d2)
  then have d2: "d2 = d'" "(res, w') = f w"
    using assms(2) by (auto simp: prod_eq_iff)
  have dead: "read_owner rid' d' = Inl ErrNotFound" for rid'
    using fenced(5) [of rid'] dir_ok_read [OF fenced(3), of rid']
    unfolding d2 by (auto simp: read_owner_def live_def split: option.splits)
  have "\<exists>e. with_commit lock x (Some g) (os_dir (run_owner \<lparr>os_dir = d', os_log = log\<rparr> ops)) a = (Some e, a)"
    if cur: "read_owner (ow_recording_id x) d = Inr x"
  proof -
    have "advances (owner_of d (ow_recording_id x)) (owner_of d' (ow_recording_id x))"
      using fenced(4) unfolding d2 dir_advances_def by blast
    then have "2 * unat (ow_epoch x) \<le> record_rank (owner_of d' (ow_recording_id x))"
      using current_rank(1) [OF cur] unfolding advances_def by auto
    then have "token_stale x d'"
      using dead by (simp add: token_stale_def)
    then have "token_stale x (os_dir (run_owner \<lparr>os_dir = d', os_log = log\<rparr> ops))"
      using run_dir(2) [of "\<lparr>os_dir = d', os_log = log\<rparr>" ops] fenced(3) d2 by (auto intro: token_stale_advances)
    then show ?thesis
      by (intro with_commit_not_current) (simp add: token_stale_def)
  qed
  then show ?thesis
    using dead fenced(6) [of rid] d2 by blast
qed (use assms in auto)

text \<open>The operating system that refuses nothing.\<close>

definition healthy_io :: recovery_io where
  "healthy_io = \<lparr>rio_lock = \<lambda>_. True, rio_open = \<lambda>_. True, rio_remove = \<lambda>_. True, rio_sync = True,
     rio_write = \<lambda>_. Written\<rparr>"

lemma remove_residue_healthy: "fst (remove_residue healthy_io names d) = None"
  by (induction names arbitrary: d) (simp_all add: healthy_io_def)

lemma validated_owner_files_total:
  assumes "list_all (\<lambda>(n, f). owner_entry_ok n f \<and> map_of d n = Some f \<and> (n = lock_dir_name \<or> has_suffix n ''.json'')) es"
  shows "\<exists>rs. validated_owner_files d es = Inr rs"
  using assms
proof (induction es)
  case (Cons e es)
  obtain n f where e: "e = (n, f)" by (cases e)
  show ?case
  proof (cases "n = lock_dir_name")
    case False
    then have n: "owner_entry_ok n f" "has_suffix n ''.json''" "map_of d n = Some f"
      using Cons.prems by (auto simp: e)
    then obtain r where r: "decode_owner_file (trim_suffix n ''.json'') f = Inr r" "hex32 (trim_suffix n ''.json'')"
      using False by (auto simp: owner_entry_ok_def split: sum.splits)
    then have "df_kind f = Regular"
      by (auto simp: decode_owner_file_def split: if_splits)
    moreover have "read_owner_record (trim_suffix n ''.json'') d = Inr r"
      using r(1) n(3) json_name_path [OF n(2)] by (simp add: read_owner_record_def)
    ultimately show ?thesis
      using Cons n r(2) False by (auto simp: e)
  qed (use Cons in \<open>auto simp: e owner_entry_ok_def\<close>)
qed simp

lemma fence_owners_healthy:
  "(\<And>r. r \<in> set rs \<Longrightarrow> valid_owner_identity (record_owner r)) \<Longrightarrow>
     fst (fence_owners healthy_io rs d) = None \<and>
     (\<forall>n. has_key (snd (fence_owners healthy_io rs d)) n \<longrightarrow> has_key d n \<or> has_suffix n ''.json'')"
proof (induction rs arbitrary: d)
  case (Cons r rs)
  then have valid: "valid_owner_identity (record_owner r)" by simp
  let ?d = "snd (write_owner_record Written (record_owner r) owner_fenced d)"
  have keys: "has_key ?d n \<longleftrightarrow> n = owner_path (ow_recording_id (record_owner r)) \<or> has_key d n" for n
    using valid by (simp add: write_owner_record_eq)
  show ?case
    using Cons.IH [of d] Cons.IH [of ?d] Cons.prems valid keys
    by (auto simp: write_owner_record_eq healthy_io_def [THEN arg_cong [where f = rio_write]])
qed simp

lemma recovery_healthy:
  assumes "dir_ok d"
  shows "\<exists>d'. (\<forall>f w. with_fenced_recovery healthy_io (Some f) d w = (fst (f w), d', snd (f w))) \<and>
    (\<forall>n. has_key d' n \<longrightarrow> n = lock_dir_name \<or> has_suffix n ''.json'')"
proof -
  have "\<exists>rs. scan_residue healthy_io d [] False = Inr (rs, False \<or> lock_dir_name \<in> fst ` set d)"
    using assms by (intro scan_residue_total) (auto simp: dir_ok_def healthy_io_def)
  moreover have "lock_dir_name \<in> fst ` set d"
    using assms by (auto simp: dir_ok_def map_of_eq_None_iff)
  ultimately have "fst (reconcile_owner_temp_files healthy_io d) = None"
    by (auto simp: reconcile_owner_temp_files_def remove_residue_healthy)
  then obtain d1 where rec: "reconcile_owner_temp_files healthy_io d = (None, d1)"
    by (cases "reconcile_owner_temp_files healthy_io d") simp
  have d1: "dir_ok d1" "\<And>n. has_key d1 n \<Longrightarrow> n = lock_dir_name \<or> has_suffix n ''.json''"
    using reconcile_effect [OF assms, of healthy_io] rec by auto
  then have "list_all (\<lambda>(n, f). owner_entry_ok n f \<and> map_of d1 n = Some f \<and> (n = lock_dir_name \<or> has_suffix n ''.json'')) d1"
    by (auto simp: dir_ok_def list_all_gomap)
  then obtain rs where rs: "validated_owner_files d1 d1 = Inr rs"
    using validated_owner_files_total by blast
  have "valid_owner_identity (record_owner r)" if "r \<in> set rs" for r
    using validated_owner_files_ids(2) [OF _ rs that] d1(1) owner_of_valid(1) by (auto simp: dir_ok_def)
  then have fence: "fst (fence_owners healthy_io rs d1) = None \<and>
      (\<forall>n. has_key (snd (fence_owners healthy_io rs d1)) n \<longrightarrow> has_key d1 n \<or> has_suffix n ''.json'')"
    by (rule fence_owners_healthy)
  have "list_all (rio_lock healthy_io) [0..<lock_shards]"
    by (simp add: healthy_io_def list_all_iff)
  then have "with_fenced_recovery healthy_io (Some f) d w = (fst (f w), snd (fence_owners healthy_io rs d1), snd (f w))" for f w
    using rec rs fence
    by (cases "fence_owners healthy_io rs d1") (simp add: with_fenced_recovery_def with_all_locks_def split: prod.split)
  then show ?thesis
    using fence d1(2) by blast
qed

text \<open>What a recovery leaves in the directory.\<close>

definition recovered_entry :: "string \<Rightarrow> dir_file \<Rightarrow> bool" where
  "recovered_entry name f \<longleftrightarrow>
     (if name = lock_dir_name then df_kind f = Directory
      else has_suffix name ''.json'' \<and>
        (case decode_owner_file (trim_suffix name ''.json'') f of
           Inl _ \<Rightarrow> False | Inr r \<Rightarrow> effective_owner_state (or_state r) = owner_fenced))"

lemma recovered_entries:
  assumes "dir_ok d'" "\<And>n. has_key d' n \<Longrightarrow> n = lock_dir_name \<or> has_suffix n ''.json''"
    "\<And>rid r. owner_of d' rid = Some r \<Longrightarrow> \<not> live r"
  shows "list_all (\<lambda>(n, f). recovered_entry n f) d'"
proof -
  have "recovered_entry n f" if nf: "map_of d' n = Some f" for n f
  proof (cases "n = lock_dir_name")
    case False
    then have n: "has_suffix n ''.json''"
      using assms(2) [of n] nf by simp
    then obtain r where r: "decode_owner_file (trim_suffix n ''.json'') f = Inr r"
      using dir_ok_entry [OF assms(1) nf] False by (auto simp: owner_entry_ok_def split: sum.splits)
    then have "owner_of d' (trim_suffix n ''.json'') = Some r"
      using nf json_name_path [OF n] by (simp add: owner_of_def read_owner_record_def)
    then show ?thesis
      using assms(3) live_or_fenced [OF decode_validD(3) [OF r]] n r False by (simp add: recovered_entry_def)
  qed (use dir_ok_entry [OF assms(1) nf] in \<open>simp add: recovered_entry_def owner_entry_ok_def\<close>)
  then show ?thesis
    using assms(1) by (auto simp: dir_ok_def list_all_gomap)
qed

lemma recovery_healthy_clean:
  assumes "dir_ok d"
  shows "\<exists>d'. with_fenced_recovery healthy_io (Some f) d w = (fst (f w), d', snd (f w)) \<and>
    list_all (\<lambda>(n, f). recovered_entry n f) d' \<and>
    (\<forall>rid. map_option record_owner (owner_of d' rid) = map_option record_owner (owner_of d rid))"
proof -
  obtain d' where d': "\<And>f w. with_fenced_recovery healthy_io (Some f) d (w :: 'a) = (fst (f w), d', snd (f w))"
    "\<And>n. has_key d' n \<Longrightarrow> n = lock_dir_name \<or> has_suffix n ''.json''"
    using recovery_healthy [OF assms] by blast
  show ?thesis
  proof (cases rule: recovery_steps [OF assms, of healthy_io "Some (\<lambda>w. (None, w))" w, case_names refused stopped fenced])
    case (fenced f0 d2)
    then have "d2 = d'"
      using d'(1) [of f0 w] by simp
    then show ?thesis
      using fenced(3,5,6) d' recovered_entries [of d'] by blast
  qed (simp_all add: d'(1))
qed

theorem recovery_fences_every_owner_witness:
  "\<exists>d'. with_fenced_recovery healthy_io (Some (logging Recovery None)) (sample_owner_dir 3 owner_active) [] =
     (None, d', [Recovery]) \<and> map_option ow_epoch (map_option record_owner (owner_of d' sample_rid)) = Some 3"
proof -
  obtain d' where r: "with_fenced_recovery healthy_io (Some (logging Recovery None)) (sample_owner_dir 3 owner_active) [] =
     (None, d', [Recovery])"
    using recovery_healthy_clean [OF sample_owner_dir_ok, of 3 "logging Recovery None" "[]"] by (auto simp: logging_def)
  have ok: "dir_ok (sample_owner_dir 3 owner_active)"
    by (rule sample_owner_dir_ok) simp
  have "map_option record_owner (owner_of d' sample_rid) =
      map_option record_owner (owner_of (sample_owner_dir 3 owner_active) sample_rid)"
    using recovery_fences_every_owner [OF ok r, where rid = sample_rid and x = "sample_owner 3" and
        g = "\<lambda>u :: unit. (None, u)" and a = "()" and lock = True and log = "[]" and ops = "[]"] by simp
  then have "map_option record_owner (owner_of d' sample_rid) = Some (sample_owner 3)"
    by (simp add: owner_of_def [of "sample_owner_dir 3 owner_active"])
  then show ?thesis
    using r by auto
qed

text \<open>C11: Recovery never gets stuck.  From every state a run can reach, including the temporary files that
  crashed writes left behind, a recovery whose system calls succeed runs its callback and returns its
  result.  It leaves nothing in the directory but the lock directory and readable owner records, all of them
  fenced, and every recording's record keeps its identity and epoch.\<close>

theorem recovery_always_possible:
  "\<exists>d'. with_fenced_recovery healthy_io (Some f) (os_dir (run_owner fresh_owner_system ops)) w =
       (fst (f w), d', snd (f w)) \<and>
     list_all (\<lambda>(name, file). recovered_entry name file) d' \<and>
     (\<forall>rid. map_option record_owner (owner_of d' rid) =
        map_option record_owner (owner_of (os_dir (run_owner fresh_owner_system ops)) rid))"
  using run_dir(1) [of fresh_owner_system ops] by (intro recovery_healthy_clean) (simp add: fresh_owner_system_def)

text \<open>An exhausted epoch is an error, not a wrap-around.  At the largest epoch both a transfer by the
  current owner and a new claim of the fenced recording fail with ErrEpochOverflow and write nothing.\<close>

theorem epoch_exhaustion_is_refused:
  assumes "owner_of d (ow_recording_id x) = Some r" "record_owner r = x" "or_epoch r = max_u64"
    "opaque_id gen" "opaque_id wk"
  shows "(if live r then owner_transfer True w x gen wk d else owner_claim True w (ow_recording_id x) gen wk d)
     = (Inl ErrEpochOverflow, d)"
proof -
  have x: "valid_owner_identity x"
    using owner_of_valid(1) [OF assms(1)] assms(2) by simp
  then have rid: "hex32 (ow_recording_id x)"
    by (simp add: valid_owner_identity_def)
  have epoch: "ow_epoch x = max_u64"
    using assms(2,3) by (auto simp: record_owner_def)
  have read: "read_owner_record (ow_recording_id x) d = Inr r"
    using assms(1) by (auto simp: owner_of_def split: sum.splits)
  have "valid_owner_identity \<lparr>ow_recording_id = ow_recording_id x, ow_generation = gen, ow_worker = wk, ow_epoch = 1\<rparr>"
    using assms(4,5) rid by (simp add: valid_owner_identity_def)
  moreover have "read_owner (ow_recording_id x) d = Inr x" if "live r"
    using that assms(1,2) by (simp add: read_owner_eq)
  ultimately show ?thesis
    using x rid epoch read assms(3-5)
    by (simp add: owner_transfer_def owner_claim_def Let_def with_id_lock_def live_def)
qed

theorem epoch_exhaustion_is_refused_witness:
  "owner_transfer True Written (sample_owner max_u64) (sample_engine CHR ''b'') (sample_engine CHR ''a'')
     (sample_owner_dir max_u64 owner_active) = (Inl ErrEpochOverflow, sample_owner_dir max_u64 owner_active)"
proof -
  have "0 < max_u64"
    by (simp add: max_u64_def word_gt_0)
  then show ?thesis
    using epoch_exhaustion_is_refused [of "sample_owner_dir max_u64 owner_active" "sample_owner max_u64"
        "make_owner_record (sample_owner max_u64) owner_active" "sample_engine CHR ''b''" "sample_engine CHR ''a''" Written]
    by (simp add: owner_of_def)
qed

text \<open>C31: What is written is what is read.  The JSON bytes of a published record fit the size limit and strictly
  decode, member by member, to the same owner and state, and every other recording's record is untouched; a write that
  failed before the rename, even one interrupted by a crash, changes no record.\<close>

theorem owner_record_roundtrip:
  assumes "valid_owner_identity x" "st = owner_active \<or> st = owner_fenced"
    "write_owner_record w x st d = (e, d')"
  shows "(e = None \<longleftrightarrow> w = Written) \<and>
    read_owner_record rid d' =
      (if rid = ow_recording_id x \<and> w \<in> {Written, RenamedUnsynced}
       then Inr \<lparr>or_schema = owner_schema, or_recording_id = rid, or_generation = ow_generation x,
              or_worker = ow_worker x, or_epoch = ow_epoch x, or_state = st\<rparr>
       else read_owner_record rid d)"
proof -
  have st: "valid_owner_state st"
    using assms(2) by auto
  show ?thesis
    using assms(1,3) st decode_published_file [OF assms(1) st]
    by (cases w) (auto simp: write_owner_record_eq read_owner_record_def make_owner_record_def)
qed

theorem owner_record_roundtrip_witness:
  "read_owner_record sample_rid (snd (write_owner_record Written (sample_owner 7) owner_fenced fresh_owner_dir)) =
     Inr \<lparr>or_schema = owner_schema, or_recording_id = sample_rid, or_generation = sample_engine CHR ''a'',
       or_worker = sample_engine CHR ''b'', or_epoch = 7, or_state = owner_fenced\<rparr>"
  using owner_record_roundtrip [of "sample_owner 7" owner_fenced Written fresh_owner_dir
      "fst (write_owner_record Written (sample_owner 7) owner_fenced fresh_owner_dir)"
      "snd (write_owner_record Written (sample_owner 7) owner_fenced fresh_owner_dir)" sample_rid]
  by (simp add: sample_owner_def [THEN arg_cong [where f = ow_generation]]
      sample_owner_def [THEN arg_cong [where f = ow_worker]])

end
