(* ===== verification/Resource_Coordinator.thy ===== *)
theory Resource_Coordinator
  imports Go_Prelude Complex_Main
begin

text \<open>
  The Runtime Host's admission accounting, \<^verbatim>\<open>internal/runtimehost/resources/coordinator.go\<close>:
  byte reservations, persistence queue slots and the writer permit shared by all Engine processes, and
  the aggregate telemetry ring.  The mutex makes every operation a function on the coordinator.  A call
  that would block returns \<open>Waiting\<close>; the \<^verbatim>\<open>changed\<close> channel is the number of times it was closed, so a
  caller that waits at number \<open>n\<close> is woken once the number is not \<open>n\<close>, and then repeats its attempt.
  The byte rate, a float64 division, is a parameter of the sampler; the sampler goroutine, its ticker
  and Close are not modelled.
\<close>

section \<open>State\<close>

datatype coord_error =
    ErrInvalidLimits | ErrInvalidResourceIdentity | ErrResourceLeaseMismatch | ErrInvalidReservation
  | ErrInvalidTelemetryGauge | ErrTelemetryRegression | ErrTelemetryOverflow
  | ErrContextRequired | ErrContextDone | ErrTelemetryInterval

record limits =
  lim_global :: int
  lim_recording :: int
  lim_queue :: int
  lim_writers :: int

record reservation =
  rv_owner :: string
  rv_recording :: string
  rv_bytes :: int

text \<open>A float64 that is only compared: a finite value, NaN or an infinity.\<close>

datatype float64 = Finite rat | NaN | PosInf | NegInf

record telemetry_owner =
  to_read :: u64
  to_write :: u64
  to_errors :: u64
  to_queue_bytes :: int
  to_oldest_age :: float64

record telemetry_sample =
  ts_at :: instant
  ts_read :: u64
  ts_write :: u64
  ts_buffer_used :: int
  ts_queue_bytes :: int
  ts_observed_for :: int

record throughput =
  tp_read :: u64
  tp_write :: u64
  tp_read_total :: u64
  tp_write_total :: u64

record coordinator =
  co_limits :: limits
  co_reservations :: "(string, reservation) gomap"
  co_recording_bytes :: "(string, int) gomap"
  co_used :: int
  co_queue :: "(string, string) gomap"
  co_writers :: "(string, string) gomap"
  co_changed :: nat
  co_retention :: int
  co_owners :: "(string, telemetry_owner) gomap"
  co_read_total :: u64
  co_write_total :: u64
  co_errors_total :: u64
  co_pending_read :: u64
  co_pending_write :: u64
  co_last_at :: instant
  co_current :: throughput
  co_samples :: "telemetry_sample list"
  co_start :: nat
  co_count :: nat

definition max_global_buffer :: int where "max_global_buffer = 2 * 2 ^ 30"
definition max_recording_buffer :: int where "max_recording_buffer = 1536 * 2 ^ 20"
definition max_queue_objects :: int where "max_queue_objects = 128"
definition max_token_length :: nat where "max_token_length = 128"
definition max_projection_samples :: nat where "max_projection_samples = 24000"
definition max_int64 :: int where "max_int64 = 2 ^ 63 - 1"
definition second :: int where "second = 10 ^ 9"

definition validate_limits :: "limits \<Rightarrow> coord_error option" where
  "validate_limits l =
     (if lim_global l \<le> 0 \<or> max_global_buffer < lim_global l then Some ErrInvalidLimits
      else if lim_recording l \<le> 0 \<or> max_recording_buffer < lim_recording l then Some ErrInvalidLimits
      else if lim_global l < lim_recording l then Some ErrInvalidLimits
      else if lim_queue l < 1 \<or> max_queue_objects < lim_queue l then Some ErrInvalidLimits
      else if lim_writers l \<noteq> 1 then Some ErrInvalidLimits
      else None)"

definition zero_sample :: telemetry_sample where
  "zero_sample = \<lparr>ts_at = 0, ts_read = 0, ts_write = 0, ts_buffer_used = 0, ts_queue_bytes = 0,
     ts_observed_for = 0\<rparr>"

text \<open>Durations are nanoseconds; \<open>started\<close> is the clock reading when the sampler starts.\<close>

definition max_samples_of :: "int \<Rightarrow> int \<Rightarrow> nat" where
  "max_samples_of interval retention =
     (let n = retention div interval + (if retention mod interval \<noteq> 0 then 1 else 0)
      in if n < 1 then 1 else nat n)"

definition new_coordinator :: "limits \<Rightarrow> int \<Rightarrow> int \<Rightarrow> instant option \<Rightarrow> coord_error + coordinator" where
  "new_coordinator l interval retention started =
     (case validate_limits l of
        Some e \<Rightarrow> Inl e
      | None \<Rightarrow> Inr \<lparr>co_limits = l, co_reservations = [], co_recording_bytes = [], co_used = 0, co_queue = [],
          co_writers = [], co_changed = 0, co_retention = retention, co_owners = [],
          co_read_total = 0, co_write_total = 0, co_errors_total = 0, co_pending_read = 0, co_pending_write = 0,
          co_last_at = (case started of None \<Rightarrow> 0 | Some t \<Rightarrow> t),
          co_current = \<lparr>tp_read = 0, tp_write = 0, tp_read_total = 0, tp_write_total = 0\<rparr>,
          co_samples = replicate (max_samples_of interval retention) zero_sample,
          co_start = 0, co_count = 0\<rparr>)"

definition new_default :: "limits \<Rightarrow> coord_error + coordinator" where
  "new_default l = new_coordinator l (5 * second) (86400 * second) None"

definition new_with_telemetry :: "limits \<Rightarrow> int \<Rightarrow> int \<Rightarrow> instant \<Rightarrow> coord_error + coordinator" where
  "new_with_telemetry l interval retention started =
     (if interval \<le> 0 \<or> retention < interval \<or> 86400 * second < retention then Inl ErrTelemetryInterval
      else new_coordinator l interval retention (Some started))"

section \<open>Identifiers\<close>

definition is_alnum :: "char \<Rightarrow> bool" where
  "is_alnum b \<longleftrightarrow> (CHR ''a'' \<le> b \<and> b \<le> CHR ''z'') \<or> (CHR ''A'' \<le> b \<and> b \<le> CHR ''Z'') \<or>
     (CHR ''0'' \<le> b \<and> b \<le> CHR ''9'')"

fun token_chars :: "bool \<Rightarrow> string \<Rightarrow> bool" where
  "token_chars previous_dot [] = (\<not> previous_dot)"
| "token_chars previous_dot (b # rest) =
     (if is_alnum b \<or> b = CHR ''-'' \<or> b = CHR ''_'' then token_chars False rest
      else if b = CHR ''.'' \<and> \<not> previous_dot then token_chars True rest
      else False)"

definition valid_token :: "string \<Rightarrow> bool" where
  "valid_token s \<longleftrightarrow> s \<noteq> [] \<and> length s \<le> max_token_length \<and> is_alnum (hd s) \<and> token_chars False s"

definition validate_ids :: "string list \<Rightarrow> coord_error option" where
  "validate_ids ids = (if list_all valid_token ids then None else Some ErrInvalidResourceIdentity)"

datatype go_context = NilContext | Cancelled | Active

definition validate_context_and_ids :: "go_context \<Rightarrow> string list \<Rightarrow> coord_error option" where
  "validate_context_and_ids ctx ids = (if ctx = NilContext then Some ErrContextRequired else validate_ids ids)"

definition lease_key :: "string \<Rightarrow> string \<Rightarrow> string" where
  "lease_key oid ident = oid @ [CHR 0x00] @ ident"

section \<open>Reservations\<close>

text \<open>One pass through the body of a waiting loop: the call returned, or it waits for a change.\<close>

datatype attempt = Returned "coord_error option" | Waiting

definition signal_changed :: "coordinator \<Rightarrow> coordinator" where
  "signal_changed c = c\<lparr>co_changed := co_changed c + 1\<rparr>"

definition bytes_of :: "(string, int) gomap \<Rightarrow> string \<Rightarrow> int" where
  "bytes_of m k = (case map_of m k of None \<Rightarrow> 0 | Some b \<Rightarrow> b)"

definition add_bytes :: "string \<Rightarrow> int \<Rightarrow> (string, int) gomap \<Rightarrow> (string, int) gomap" where
  "add_bytes k delta m =
     (let m' = AList.update k (bytes_of m k + delta) m
      in if bytes_of m' k = 0 then AList.delete k m' else m')"

definition put_reservation :: "string \<Rightarrow> reservation \<Rightarrow> int \<Rightarrow> coordinator \<Rightarrow> coordinator" where
  "put_reservation rid new old_bytes c =
     (let delta = rv_bytes new - old_bytes
      in c\<lparr>co_used := co_used c + delta,
           co_recording_bytes := add_bytes (rv_recording new) delta (co_recording_bytes c),
           co_reservations := AList.update rid new (co_reservations c)\<rparr>)"

definition set_reservation ::
    "go_context \<Rightarrow> string \<Rightarrow> string \<Rightarrow> string \<Rightarrow> int \<Rightarrow> coordinator \<Rightarrow> attempt \<times> coordinator" where
  "set_reservation ctx oid rec rid desired c =
     (case validate_context_and_ids ctx [oid, rec, rid] of
        Some e \<Rightarrow> (Returned (Some e), c)
      | None \<Rightarrow>
          if desired \<le> 0 then (Returned (Some ErrInvalidReservation), c)
          else if lim_global (co_limits c) < desired \<or> lim_recording (co_limits c) < desired
          then (Returned (Some ErrInvalidReservation), c)
          else if ctx = Cancelled then (Returned (Some ErrContextDone), c)
          else
            let current = map_of (co_reservations c) rid;
                old_bytes = (case current of None \<Rightarrow> 0 | Some r \<Rightarrow> rv_bytes r);
                new = \<lparr>rv_owner = oid, rv_recording = rec, rv_bytes = desired\<rparr>
            in if (case current of None \<Rightarrow> False | Some r \<Rightarrow> rv_owner r \<noteq> oid \<or> rv_recording r \<noteq> rec)
               then (Returned (Some ErrResourceLeaseMismatch), c)
               else if current \<noteq> None \<and> desired = old_bytes then (Returned None, c)
               else if desired < old_bytes
               then (Returned None, signal_changed (put_reservation rid new old_bytes c))
               else if co_used c + (desired - old_bytes) \<le> lim_global (co_limits c) \<and>
                       bytes_of (co_recording_bytes c) rec + (desired - old_bytes) \<le> lim_recording (co_limits c)
               then (Returned None, put_reservation rid new old_bytes c)
               else (Waiting, c))"

definition remove_reservation :: "string \<Rightarrow> reservation \<Rightarrow> coordinator \<Rightarrow> coordinator" where
  "remove_reservation rid r c =
     c\<lparr>co_reservations := AList.delete rid (co_reservations c),
       co_used := co_used c - rv_bytes r,
       co_recording_bytes := add_bytes (rv_recording r) (- rv_bytes r) (co_recording_bytes c)\<rparr>"

definition release_reservation ::
    "string \<Rightarrow> string \<Rightarrow> string \<Rightarrow> coordinator \<Rightarrow> coord_error option \<times> coordinator" where
  "release_reservation oid rec rid c =
     (case validate_ids [oid, rec, rid] of
        Some e \<Rightarrow> (Some e, c)
      | None \<Rightarrow>
          (case map_of (co_reservations c) rid of
             None \<Rightarrow> (None, c)
           | Some r \<Rightarrow>
               if rv_owner r \<noteq> oid \<or> rv_recording r \<noteq> rec then (Some ErrResourceLeaseMismatch, c)
               else (None, signal_changed (remove_reservation rid r c))))"

section \<open>Queue slots and the writer permit\<close>

definition acquire_queue :: "go_context \<Rightarrow> string \<Rightarrow> string \<Rightarrow> coordinator \<Rightarrow> attempt \<times> coordinator" where
  "acquire_queue ctx oid job c =
     (case validate_context_and_ids ctx [oid, job] of
        Some e \<Rightarrow> (Returned (Some e), c)
      | None \<Rightarrow>
          if ctx = Cancelled then (Returned (Some ErrContextDone), c)
          else if has_key (co_queue c) (lease_key oid job) then (Returned None, c)
          else if int (length (co_queue c)) < lim_queue (co_limits c)
          then (Returned None, c\<lparr>co_queue := AList.update (lease_key oid job) oid (co_queue c)\<rparr>)
          else (Waiting, c))"

definition release_queue :: "string \<Rightarrow> string \<Rightarrow> coordinator \<Rightarrow> coord_error option \<times> coordinator" where
  "release_queue oid job c =
     (case validate_ids [oid, job] of
        Some e \<Rightarrow> (Some e, c)
      | None \<Rightarrow>
          if \<not> has_key (co_queue c) (lease_key oid job) then (None, c)
          else (None, signal_changed (c\<lparr>co_queue := AList.delete (lease_key oid job) (co_queue c)\<rparr>)))"

definition acquire_writer :: "go_context \<Rightarrow> string \<Rightarrow> string \<Rightarrow> coordinator \<Rightarrow> attempt \<times> coordinator" where
  "acquire_writer ctx oid wid c =
     (case validate_context_and_ids ctx [oid, wid] of
        Some e \<Rightarrow> (Returned (Some e), c)
      | None \<Rightarrow>
          if ctx = Cancelled then (Returned (Some ErrContextDone), c)
          else if has_key (co_writers c) (lease_key oid wid) then (Returned None, c)
          else if int (length (co_writers c)) < lim_writers (co_limits c)
          then (Returned None, c\<lparr>co_writers := AList.update (lease_key oid wid) oid (co_writers c)\<rparr>)
          else (Waiting, c))"

definition release_writer :: "string \<Rightarrow> string \<Rightarrow> coordinator \<Rightarrow> coord_error option \<times> coordinator" where
  "release_writer oid wid c =
     (case validate_ids [oid, wid] of
        Some e \<Rightarrow> (Some e, c)
      | None \<Rightarrow>
          if \<not> has_key (co_writers c) (lease_key oid wid) then (None, c)
          else (None, signal_changed (c\<lparr>co_writers := AList.delete (lease_key oid wid) (co_writers c)\<rparr>)))"

fun release_reservations_of ::
    "string \<Rightarrow> (string \<times> reservation) list \<Rightarrow> coordinator \<Rightarrow> bool \<times> coordinator" where
  "release_reservations_of oid [] c = (False, c)"
| "release_reservations_of oid ((rid, r) # rest) c =
     (if rv_owner r \<noteq> oid then release_reservations_of oid rest c
      else (True, snd (release_reservations_of oid rest (remove_reservation rid r c))))"

definition release_owner :: "string \<Rightarrow> coordinator \<Rightarrow> coord_error option \<times> coordinator" where
  "release_owner oid c =
     (case validate_ids [oid] of
        Some e \<Rightarrow> (Some e, c)
      | None \<Rightarrow>
          let (changed1, c1) = release_reservations_of oid (co_reservations c) c;
              keep = filter (\<lambda>(_, x). x \<noteq> oid);
              changed = (changed1 \<or> list_ex (\<lambda>(_, x). x = oid) (co_queue c1) \<or>
                         list_ex (\<lambda>(_, x). x = oid) (co_writers c1));
              c2 = c1\<lparr>co_queue := keep (co_queue c1), co_writers := keep (co_writers c1),
                      co_owners := AList.delete oid (co_owners c1)\<rparr>
          in (None, if changed then signal_changed c2 else c2))"

section \<open>Usage\<close>

fun older :: "float64 \<Rightarrow> float64 \<Rightarrow> bool" where
  "older (Finite a) (Finite b) = (a > b)"
| "older PosInf (Finite _) = True"
| "older PosInf NegInf = True"
| "older (Finite _) NegInf = True"
| "older _ _ = False"

fun queue_gauges :: "(string \<times> telemetry_owner) list \<Rightarrow> int \<Rightarrow> float64 \<Rightarrow> int \<times> float64" where
  "queue_gauges [] queue_bytes oldest = (queue_bytes, oldest)"
| "queue_gauges ((_, x) # rest) queue_bytes oldest =
     queue_gauges rest
       (if 0 < to_queue_bytes x \<and> queue_bytes \<le> max_int64 - to_queue_bytes x then queue_bytes + to_queue_bytes x
        else if 0 < to_queue_bytes x then max_int64 else queue_bytes)
       (if older (to_oldest_age x) oldest then to_oldest_age x else oldest)"

record usage =
  us_limits :: limits
  us_used_bytes :: int
  us_queue_objects :: nat
  us_queue_bytes :: int
  us_oldest_age :: float64
  us_active_writers :: nat

definition coordinator_usage :: "coordinator \<Rightarrow> usage" where
  "coordinator_usage c =
     (let (queue_bytes, oldest) = queue_gauges (co_owners c) 0 (Finite 0)
      in \<lparr>us_limits = co_limits c, us_used_bytes = co_used c, us_queue_objects = length (co_queue c),
          us_queue_bytes = queue_bytes, us_oldest_age = oldest, us_active_writers = length (co_writers c)\<rparr>)"

section \<open>Telemetry reports\<close>

definition checked_add_u64 :: "u64 \<Rightarrow> u64 \<Rightarrow> u64 option" where
  "checked_add_u64 a b = (if max_u64 - a < b then None else Some (a + b))"

fun other_queue_bytes :: "int \<Rightarrow> string \<Rightarrow> (string \<times> telemetry_owner) list \<Rightarrow> int \<Rightarrow> int option" where
  "other_queue_bytes limit oid [] tot = Some tot"
| "other_queue_bytes limit oid ((k, x) # rest) tot =
     (if k = oid \<or> to_queue_bytes x = 0 then other_queue_bytes limit oid rest tot
      else if limit - to_queue_bytes x < tot then None
      else other_queue_bytes limit oid rest (tot + to_queue_bytes x))"

definition bad_gauge :: "float64 \<Rightarrow> bool" where
  "bad_gauge x \<longleftrightarrow> x = NaN \<or> x = PosInf \<or> x = NegInf \<or> older (Finite 0) x"

definition added_totals :: "coordinator \<Rightarrow> u64 \<Rightarrow> u64 \<Rightarrow> u64 \<Rightarrow> (u64 \<times> u64 \<times> u64 \<times> u64 \<times> u64) option" where
  "added_totals c rd_delta wr_delta er_delta =
     (case (checked_add_u64 (co_read_total c) rd_delta, checked_add_u64 (co_write_total c) wr_delta,
            checked_add_u64 (co_errors_total c) er_delta, checked_add_u64 (co_pending_read c) rd_delta,
            checked_add_u64 (co_pending_write c) wr_delta) of
        (Some new_read, Some new_write, Some new_errors, Some pending_read, Some pending_write) \<Rightarrow>
          Some (new_read, new_write, new_errors, pending_read, pending_write)
      | _ \<Rightarrow> None)"

definition prev_counter :: "coordinator \<Rightarrow> string \<Rightarrow> (telemetry_owner \<Rightarrow> u64) \<Rightarrow> u64" where
  "prev_counter c oid f = (case map_of (co_owners c) oid of None \<Rightarrow> 0 | Some p \<Rightarrow> f p)"

definition counters_regress :: "coordinator \<Rightarrow> string \<Rightarrow> u64 \<Rightarrow> u64 \<Rightarrow> u64 \<Rightarrow> bool" where
  "counters_regress c oid rd wr er \<longleftrightarrow>
     (case map_of (co_owners c) oid of None \<Rightarrow> False
      | Some p \<Rightarrow> rd < to_read p \<or> wr < to_write p \<or> er < to_errors p)"

definition commit_report ::
    "string \<Rightarrow> telemetry_owner \<Rightarrow> coordinator \<Rightarrow> coord_error option \<times> coordinator" where
  "commit_report oid x c =
     (case added_totals c (to_read x - prev_counter c oid to_read) (to_write x - prev_counter c oid to_write)
             (to_errors x - prev_counter c oid to_errors) of
        None \<Rightarrow> (Some ErrTelemetryOverflow, c)
      | Some (new_read, new_write, new_errors, pending_read, pending_write) \<Rightarrow>
          (case other_queue_bytes (lim_global (co_limits c)) oid (co_owners c) 0 of
             None \<Rightarrow> (Some ErrInvalidTelemetryGauge, c)
           | Some others \<Rightarrow>
               if lim_global (co_limits c) - others < to_queue_bytes x then (Some ErrInvalidTelemetryGauge, c)
               else (None, c\<lparr>co_owners := AList.update oid x (co_owners c),
                             co_read_total := new_read, co_write_total := new_write,
                             co_errors_total := new_errors, co_pending_read := pending_read,
                             co_pending_write := pending_write\<rparr>)))"

definition report_process_telemetry ::
    "string \<Rightarrow> u64 \<Rightarrow> u64 \<Rightarrow> u64 \<Rightarrow> int \<Rightarrow> float64 \<Rightarrow> coordinator \<Rightarrow> coord_error option \<times> coordinator" where
  "report_process_telemetry oid rd wr er qbytes age c =
     (if validate_ids [oid] \<noteq> None then (Some ErrInvalidResourceIdentity, c)
      else if qbytes < 0 \<or> bad_gauge age then (Some ErrInvalidTelemetryGauge, c)
      else if lim_global (co_limits c) < qbytes then (Some ErrInvalidTelemetryGauge, c)
      else if counters_regress c oid rd wr er then (Some ErrTelemetryRegression, c)
      else commit_report oid \<lparr>to_read = rd, to_write = wr, to_errors = er, to_queue_bytes = qbytes,
             to_oldest_age = age\<rparr> c)"

definition report_telemetry ::
    "string \<Rightarrow> u64 \<Rightarrow> u64 \<Rightarrow> u64 \<Rightarrow> coordinator \<Rightarrow> coord_error option \<times> coordinator" where
  "report_telemetry oid rd wr er = report_process_telemetry oid rd wr er 0 (Finite 0)"

section \<open>The sample ring\<close>

definition append_sample :: "telemetry_sample \<Rightarrow> coordinator \<Rightarrow> coordinator" where
  "append_sample x c =
     (let n = length (co_samples c)
      in if n = 0 then c
         else if co_count c < n
         then c\<lparr>co_samples := (co_samples c)[(co_start c + co_count c) mod n := x], co_count := co_count c + 1\<rparr>
         else c\<lparr>co_samples := (co_samples c)[co_start c := x], co_start := (co_start c + 1) mod n\<rparr>)"

function prune_samples :: "instant \<Rightarrow> coordinator \<Rightarrow> coordinator" where
  "prune_samples cutoff c =
     (if 0 < co_count c \<and> ts_at (co_samples c ! co_start c) < cutoff
      then prune_samples cutoff
             (c\<lparr>co_start := (co_start c + 1) mod length (co_samples c), co_count := co_count c - 1\<rparr>)
      else c)"
  by pat_completeness auto
termination
  by (relation "measure (\<lambda>(_, c). co_count c)") auto

declare prune_samples.simps [simp del]

text \<open>time.Time.Sub saturates at the range of a Duration.\<close>

definition time_sub :: "instant \<Rightarrow> instant \<Rightarrow> int" where
  "time_sub a b = max (- (2 ^ 63)) (min max_int64 (a - b))"

text \<open>\<open>rate\<close> is the float64 computation of \<^verbatim>\<open>rateBytes\<close>, bytes per second of an elapsed time.\<close>

definition sample_telemetry_locked :: "(u64 \<Rightarrow> int \<Rightarrow> u64) \<Rightarrow> instant \<Rightarrow> coordinator \<Rightarrow> coordinator" where
  "sample_telemetry_locked rate now c =
     (if co_last_at c = 0 then c\<lparr>co_last_at := now\<rparr>
      else
        let elapsed = time_sub now (co_last_at c)
        in if elapsed \<le> 0 then c
           else
             let cur = \<lparr>tp_read = rate (co_pending_read c) elapsed, tp_write = rate (co_pending_write c) elapsed,
                        tp_read_total = co_read_total c, tp_write_total = co_write_total c\<rparr>;
                 c1 = append_sample \<lparr>ts_at = now, ts_read = tp_read cur, ts_write = tp_write cur,
                        ts_buffer_used = co_used c,
                        ts_queue_bytes = fst (queue_gauges (co_owners c) 0 (Finite 0)),
                        ts_observed_for = elapsed\<rparr> (c\<lparr>co_current := cur\<rparr>)
             in prune_samples (now - co_retention c)
                  (c1\<lparr>co_pending_read := 0, co_pending_write := 0, co_last_at := now\<rparr>))"

definition sample_telemetry_at :: "(u64 \<Rightarrow> int \<Rightarrow> u64) \<Rightarrow> instant \<Rightarrow> coordinator \<Rightarrow> coordinator" where
  "sample_telemetry_at rate now c = (if now = 0 then c else sample_telemetry_locked rate now c)"

definition chronological_samples :: "coordinator \<Rightarrow> telemetry_sample list" where
  "chronological_samples c =
     map (\<lambda>i. co_samples c ! ((co_start c + i) mod length (co_samples c))) [0..<co_count c]"

section \<open>The projection\<close>

text \<open>\<open>\<lceil>0.95 n\<rceil> - 1\<close>; the float64 product of \<^verbatim>\<open>percentile95\<close> rounds to the exact one when that is an
  integer and stays on the same side of it otherwise, for every length a slice can have here.\<close>

definition percentile95 :: "u64 list \<Rightarrow> u64" where
  "percentile95 values =
     (if values = [] then 0 else sort values ! ((19 * length values + 19) div 20 - 1))"

record ceiling_estimate =
  ce_read :: u64
  ce_write :: u64
  ce_observed :: bool

definition active_ceiling :: int where "active_ceiling = 300 * second"

fun active_time :: "telemetry_sample list \<Rightarrow> int \<Rightarrow> int" where
  "active_time [] act = act"
| "active_time (x # rest) act =
     active_time rest
       (if (0 < ts_read x \<or> 0 < ts_write x) \<and> 0 < ts_observed_for x
        then (if active_ceiling - act \<le> ts_observed_for x then active_ceiling else act + ts_observed_for x)
        else act)"

definition unknown_ceiling :: ceiling_estimate where
  "unknown_ceiling = \<lparr>ce_read = 0, ce_write = 0, ce_observed = False\<rparr>"

definition estimate_ceiling :: "telemetry_sample list \<Rightarrow> ceiling_estimate" where
  "estimate_ceiling samples =
     (let reads = filter (\<lambda>r. 0 < r) (map ts_read samples);
          writes = filter (\<lambda>r. 0 < r) (map ts_write samples)
      in if active_time samples 0 < active_ceiling then unknown_ceiling
         else
           let rd = (if 20 \<le> length reads then percentile95 reads else 0);
               wr = (if 20 \<le> length writes then percentile95 writes else 0)
           in if rd = 0 \<and> wr = 0 then unknown_ceiling
              else \<lparr>ce_read = rd, ce_write = wr, ce_observed = True\<rparr>)"

definition bound_projection :: "'a list \<Rightarrow> nat \<Rightarrow> 'a list" where
  "bound_projection samples limit =
     (if length samples \<le> limit then samples
      else if limit \<le> 1 then [last samples]
      else map (\<lambda>i. samples ! (i * (length samples - 1) div (limit - 1))) [0..<limit])"

record telemetry_snapshot =
  te_throughput :: throughput
  te_ceiling :: ceiling_estimate
  te_errors :: u64
  te_samples :: "telemetry_sample list"

definition coordinator_telemetry :: "coordinator \<Rightarrow> telemetry_snapshot" where
  "coordinator_telemetry c =
     (let samples = chronological_samples c
      in \<lparr>te_throughput = (co_current c)\<lparr>tp_read_total := co_read_total c, tp_write_total := co_write_total c\<rparr>,
          te_ceiling = estimate_ceiling samples, te_errors = co_errors_total c,
          te_samples = bound_projection samples max_projection_samples\<rparr>)"

declare map_of_eq_Some_iff [simp del]

section \<open>Lease keys\<close>

lemma token_chars_no_nul: "token_chars p s \<Longrightarrow> CHR 0x00 \<notin> set s"
  by (induction p s rule: token_chars.induct) (auto simp: is_alnum_def less_eq_char_def split: if_splits)

lemma split_at_nul:
  assumes "CHR 0x00 \<notin> set a" "CHR 0x00 \<notin> set a'" "a @ CHR 0x00 # b = a' @ CHR 0x00 # b'"
  shows "a = a' \<and> b = b'"
  using assms by (induction a arbitrary: a') (auto simp: Cons_eq_append_conv append_eq_Cons_conv)

lemma lease_key_inject:
  "valid_token a \<Longrightarrow> valid_token a' \<Longrightarrow> lease_key a b = lease_key a' b' \<longleftrightarrow> a = a' \<and> b = b'"
  using split_at_nul [of a a' b b'] token_chars_no_nul by (auto simp: lease_key_def valid_token_def)

section \<open>Capacity pools\<close>

text \<open>What the queue and the writer permit have in common: named slots, each held by an owner, at most
  \<open>capacity\<close> of them; acquiring a held slot again succeeds, releasing an absent one too.\<close>

definition slots_ok :: "int \<Rightarrow> (string, string) gomap \<Rightarrow> bool" where
  "slots_ok cap m \<longleftrightarrow> gomap_ok m \<and> int (length m) \<le> cap \<and>
     list_all (\<lambda>(k, x). \<exists>j. valid_token x \<and> valid_token j \<and> k = lease_key x j) m"

locale capacity_pool =
  fixes acquire :: "go_context \<Rightarrow> string \<Rightarrow> string \<Rightarrow> coordinator \<Rightarrow> attempt \<times> coordinator"
    and release :: "string \<Rightarrow> string \<Rightarrow> coordinator \<Rightarrow> coord_error option \<times> coordinator"
    and slots :: "coordinator \<Rightarrow> (string, string) gomap"
    and capacity :: "coordinator \<Rightarrow> int"
  assumes refused: "fst (acquire ctx oid j c) \<noteq> Returned None \<Longrightarrow> snd (acquire ctx oid j c) = c"
    and granted: "fst (acquire ctx oid j c) = Returned None \<Longrightarrow>
      valid_token oid \<and> valid_token j \<and>
      (has_key (slots c) (lease_key oid j) \<and> slots (snd (acquire ctx oid j c)) = slots c \<or>
       \<not> has_key (slots c) (lease_key oid j) \<and> int (length (slots c)) < capacity c \<and>
         slots (snd (acquire ctx oid j c)) = AList.update (lease_key oid j) oid (slots c))"
    and waits: "fst (acquire ctx oid j c) = Waiting \<longleftrightarrow>
      ctx = Active \<and> valid_token oid \<and> valid_token j \<and>
      \<not> has_key (slots c) (lease_key oid j) \<and> capacity c \<le> int (length (slots c))"
    and no_other_error: "valid_token oid \<Longrightarrow> valid_token j \<Longrightarrow> fst (acquire Active oid j c) \<in> {Returned None, Waiting}"
    and released: "slots (snd (release oid j c)) =
      (if fst (release oid j c) = None then AList.delete (lease_key oid j) (slots c) else slots c)"
    and release_accepts: "fst (release oid j c) = None \<longleftrightarrow> valid_token oid \<and> valid_token j"
    and same_capacity: "capacity (snd (acquire ctx oid j c)) = capacity c" "capacity (snd (release oid j c)) = capacity c"
begin

lemma acquire_ok: "slots_ok (capacity c) (slots c) \<Longrightarrow> slots_ok (capacity c) (slots (snd (acquire ctx oid j c)))"
  using granted [of ctx oid j c] refused [of ctx oid j c]
  by (cases "fst (acquire ctx oid j c) = Returned None")
    (auto simp: slots_ok_def list_all_gomap length_update_new split: if_splits)

lemma release_ok: "slots_ok (capacity c) (slots c) \<Longrightarrow> slots_ok (capacity c) (slots (snd (release oid j c)))"
  using released [of oid j c] length_delete_le [of "lease_key oid j" "slots c"]
  by (auto simp: slots_ok_def list_all_gomap split: if_splits)

lemma acquire_grows: "has_key (slots c) k \<Longrightarrow> has_key (slots (snd (acquire ctx oid j c))) k"
  using granted [of ctx oid j c] refused [of ctx oid j c]
  by (cases "fst (acquire ctx oid j c) = Returned None") auto

text \<open>A caller that waits keeps waiting while no slot is given up.\<close>

lemma waiting_stays:
  assumes "fst (acquire ctx oid j c) = Waiting" "gomap_ok (slots c)" "slots_ok (capacity c') (slots c')"
    "capacity c' = capacity c" "\<And>k. has_key (slots c) k \<Longrightarrow> has_key (slots c') k"
  shows "fst (acquire ctx oid j c') = Waiting"
proof -
  let ?keys = "\<lambda>m. fst ` set (m :: (string, string) gomap)"
  have len: "length m = card (?keys m)" if "gomap_ok m" for m
    using distinct_card [OF that] by simp
  have ok': "gomap_ok (slots c')" "int (length (slots c')) \<le> capacity c'"
    using assms(3) by (simp_all add: slots_ok_def)
  have sub: "?keys (slots c) \<subseteq> ?keys (slots c')"
    using assms(5) by (metis map_of_eq_None_iff subsetI)
  then have le: "length (slots c) \<le> length (slots c')"
    using len [OF assms(2)] len [OF ok'(1)] by (simp add: card_mono)
  moreover have full: "capacity c \<le> int (length (slots c))" "\<not> has_key (slots c) (lease_key oid j)"
    using assms(1) by (simp_all add: waits)
  ultimately have "length (slots c) = length (slots c')"
    using ok'(2) assms(4) by linarith
  then have "?keys (slots c) = ?keys (slots c')"
    using sub len [OF assms(2)] len [OF ok'(1)] by (intro card_subset_eq) auto
  then have "\<not> has_key (slots c') (lease_key oid j)"
    using full(2) by (simp add: map_of_eq_None_iff)
  then show ?thesis
    using assms(1,4) le full(1) by (simp add: waits)
qed

text \<open>A full pool admits a waiting caller as soon as any other slot is released.\<close>

lemma release_admits:
  assumes "fst (acquire ctx oid j c) = Waiting" "slots_ok (capacity c) (slots c)"
    "has_key (slots c) (lease_key x i)" "valid_token x" "valid_token i"
  shows "fst (acquire Active oid j (snd (release x i c))) = Returned None"
proof -
  obtain v where "map_of (slots c) (lease_key x i) = Some v"
    using assms(3) by auto
  then have "Suc (length (AList.delete (lease_key x i) (slots c))) = length (slots c)"
    using assms(2) length_delete_present by (auto simp: slots_ok_def)
  moreover have "valid_token oid" "valid_token j"
    using assms(1) by (auto simp: waits)
  ultimately show ?thesis
    using assms released [of x i c] release_accepts [of x i c] same_capacity(2) [of x i c]
      no_other_error [of oid j "snd (release x i c)"]
    by (auto simp: waits slots_ok_def)
qed

end

lemma validate_ids_simps [simp]:
  "validate_ids ids = None \<longleftrightarrow> list_all valid_token ids"
  "validate_ids ids = Some e \<longleftrightarrow> \<not> list_all valid_token ids \<and> e = ErrInvalidResourceIdentity"
  by (auto simp: validate_ids_def)

lemma validate_context_simps [simp]:
  "validate_context_and_ids ctx ids = None \<longleftrightarrow> ctx \<noteq> NilContext \<and> list_all valid_token ids"
  "validate_context_and_ids ctx ids = Some e \<longleftrightarrow>
     (if ctx = NilContext then e = ErrContextRequired
      else \<not> list_all valid_token ids \<and> e = ErrInvalidResourceIdentity)"
  by (auto simp: validate_context_and_ids_def)

lemma signal_changed_simps [simp]:
  "co_limits (signal_changed c) = co_limits c" "co_reservations (signal_changed c) = co_reservations c"
  "co_recording_bytes (signal_changed c) = co_recording_bytes c" "co_used (signal_changed c) = co_used c"
  "co_queue (signal_changed c) = co_queue c" "co_writers (signal_changed c) = co_writers c"
  "co_owners (signal_changed c) = co_owners c" "co_changed (signal_changed c) = Suc (co_changed c)"
  "co_samples (signal_changed c) = co_samples c" "co_start (signal_changed c) = co_start c"
  "co_count (signal_changed c) = co_count c" "co_last_at (signal_changed c) = co_last_at c"
  "co_retention (signal_changed c) = co_retention c"
  "co_read_total (signal_changed c) = co_read_total c" "co_write_total (signal_changed c) = co_write_total c"
  "co_errors_total (signal_changed c) = co_errors_total c" "co_pending_read (signal_changed c) = co_pending_read c"
  "co_pending_write (signal_changed c) = co_pending_write c" "co_current (signal_changed c) = co_current c"
  by (simp_all add: signal_changed_def)

interpretation queue_pool: capacity_pool acquire_queue release_queue co_queue "\<lambda>c. lim_queue (co_limits c)"
proof
  fix ctx oid j c
  show "fst (acquire_queue ctx oid j c) = Waiting \<longleftrightarrow>
      ctx = Active \<and> valid_token oid \<and> valid_token j \<and>
      \<not> has_key (co_queue c) (lease_key oid j) \<and> lim_queue (co_limits c) \<le> int (length (co_queue c))"
    by (cases ctx) (auto simp: acquire_queue_def split: option.split)
qed (auto simp: acquire_queue_def release_queue_def delete_absent split: option.splits if_splits)

interpretation writer_pool: capacity_pool acquire_writer release_writer co_writers "\<lambda>c. lim_writers (co_limits c)"
proof
  fix ctx oid j c
  show "fst (acquire_writer ctx oid j c) = Waiting \<longleftrightarrow>
      ctx = Active \<and> valid_token oid \<and> valid_token j \<and>
      \<not> has_key (co_writers c) (lease_key oid j) \<and> lim_writers (co_limits c) \<le> int (length (co_writers c))"
    by (cases ctx) (auto simp: acquire_writer_def split: option.split)
qed (auto simp: acquire_writer_def release_writer_def delete_absent split: option.splits if_splits)

section \<open>Byte accounting\<close>

definition recording_sum :: "string \<Rightarrow> (string, reservation) gomap \<Rightarrow> int" where
  "recording_sum rec m = gomap_sum (\<lambda>r. if rv_recording r = rec then rv_bytes r else 0) m"

definition owner_sum :: "string \<Rightarrow> (string, reservation) gomap \<Rightarrow> int" where
  "owner_sum oid m = gomap_sum (\<lambda>r. if rv_owner r = oid then rv_bytes r else 0) m"

abbreviation account :: "int \<Rightarrow> int option" where
  "account b \<equiv> (if b = 0 then None else Some b)"

definition sums_ok :: "(string, reservation) gomap \<Rightarrow> (string, int) gomap \<Rightarrow> int \<Rightarrow> bool" where
  "sums_ok m by_rec used \<longleftrightarrow> gomap_ok m \<and> gomap_ok by_rec \<and> list_all (\<lambda>(_, r). 0 < rv_bytes r) m \<and>
     used = gomap_sum rv_bytes m \<and> (\<forall>rec. map_of by_rec rec = account (recording_sum rec m))"

definition accounts_ok :: "coordinator \<Rightarrow> bool" where
  "accounts_ok c \<longleftrightarrow> sums_ok (co_reservations c) (co_recording_bytes c) (co_used c) \<and>
     co_used c \<le> lim_global (co_limits c) \<and>
     (\<forall>rec. recording_sum rec (co_reservations c) \<le> lim_recording (co_limits c))"

lemma bytes_of_account: "sums_ok m by_rec used \<Longrightarrow> bytes_of by_rec rec = recording_sum rec m"
  by (simp add: sums_ok_def bytes_of_def)

lemma map_of_add_bytes:
  "map_of (add_bytes k d m) = (map_of m)(k := account (bytes_of m k + d))"
  by (auto simp: add_bytes_def Let_def bytes_of_def)

lemma gomap_ok_add_bytes [simp]: "gomap_ok m \<Longrightarrow> gomap_ok (add_bytes k d m)"
  by (simp add: add_bytes_def Let_def)

lemma sums_ok_update:
  assumes "sums_ok m by_rec used" "0 < rv_bytes new"
    "old = (case map_of m rid of None \<Rightarrow> 0 | Some r \<Rightarrow> rv_bytes r)"
    "\<And>r. map_of m rid = Some r \<Longrightarrow> rv_recording r = rv_recording new"
  shows "sums_ok (AList.update rid new m) (add_bytes (rv_recording new) (rv_bytes new - old) by_rec)
    (used + (rv_bytes new - old))"
proof -
  have m: "gomap_ok m"
    using assms(1) by (simp add: sums_ok_def)
  have rec: "recording_sum rec (AList.update rid new m) =
      recording_sum rec m + (if rec = rv_recording new then rv_bytes new - old else 0)" for rec
    using assms(3,4) by (auto simp: recording_sum_def gomap_sum_update [OF m] split: option.splits)
  have "gomap_sum rv_bytes (AList.update rid new m) = used + (rv_bytes new - old)"
    using assms(1,3) by (auto simp: gomap_sum_update [OF m] sums_ok_def split: option.splits)
  moreover have "list_all (\<lambda>(_, r). 0 < rv_bytes r) (AList.update rid new m)"
    using assms(1,2) m by (auto simp: sums_ok_def list_all_gomap split: if_splits)
  moreover have "map_of (add_bytes (rv_recording new) (rv_bytes new - old) by_rec) rec' =
      account (recording_sum rec' (AList.update rid new m))" for rec'
    using assms(1) by (simp add: map_of_add_bytes rec bytes_of_account [OF assms(1)] sums_ok_def)
  ultimately show ?thesis
    using m assms(1) by (simp add: sums_ok_def)
qed

lemma sums_ok_delete:
  assumes "sums_ok m by_rec used" "map_of m rid = Some r"
  shows "sums_ok (AList.delete rid m) (add_bytes (rv_recording r) (- rv_bytes r) by_rec) (used - rv_bytes r)"
proof -
  have m: "gomap_ok m"
    using assms(1) by (simp add: sums_ok_def)
  have rec: "recording_sum rec (AList.delete rid m) =
      recording_sum rec m + (if rec = rv_recording r then - rv_bytes r else 0)" for rec
    using assms(2) by (auto simp: recording_sum_def gomap_sum_delete [OF m])
  have "gomap_sum rv_bytes (AList.delete rid m) = used - rv_bytes r"
    using assms by (auto simp: gomap_sum_delete [OF m] sums_ok_def)
  moreover have "list_all (\<lambda>(_, r). 0 < rv_bytes r) (AList.delete rid m)"
    using assms(1) m by (auto simp: sums_ok_def list_all_gomap split: if_splits)
  moreover have "map_of (add_bytes (rv_recording r) (- rv_bytes r) by_rec) rec' =
      account (recording_sum rec' (AList.delete rid m))" for rec'
    using assms(1) by (simp add: map_of_add_bytes rec bytes_of_account [OF assms(1)] sums_ok_def)
  ultimately show ?thesis
    using m assms(1) by (simp add: sums_ok_def)
qed

lemma recording_sum_update:
  assumes "gomap_ok m" "\<And>r. map_of m rid = Some r \<Longrightarrow> rv_recording r = rv_recording new"
    "old = (case map_of m rid of None \<Rightarrow> 0 | Some r \<Rightarrow> rv_bytes r)"
  shows "recording_sum rec (AList.update rid new m) =
      recording_sum rec m + (if rec = rv_recording new then rv_bytes new - old else 0)"
  using assms(2,3) by (auto simp: recording_sum_def gomap_sum_update [OF assms(1)] split: option.splits)

lemma recording_sum_delete_le:
  assumes "sums_ok m by_rec used"
  shows "recording_sum rec (AList.delete rid m) \<le> recording_sum rec m"
proof (cases "map_of m rid")
  case (Some r)
  then have "0 < rv_bytes r"
    using assms by (auto simp: sums_ok_def list_all_gomap)
  then show ?thesis
    using assms Some by (auto simp: recording_sum_def gomap_sum_delete sums_ok_def)
qed (simp add: delete_absent)

section \<open>The waiting loop of a reservation\<close>

abbreviation current_bytes :: "coordinator \<Rightarrow> string \<Rightarrow> int" where
  "current_bytes c rid \<equiv> (case map_of (co_reservations c) rid of None \<Rightarrow> 0 | Some r \<Rightarrow> rv_bytes r)"

lemma set_reservation_cases:
  obtains (refused) e where "set_reservation ctx oid rec rid desired c = (Returned (Some e), c)"
      "desired \<le> 0 \<or> ctx \<noteq> Active \<or> \<not> list_all valid_token [oid, rec, rid] \<or>
       lim_global (co_limits c) < desired \<or> lim_recording (co_limits c) < desired \<or>
       (e = ErrResourceLeaseMismatch \<and>
         (\<exists>r. map_of (co_reservations c) rid = Some r \<and> (rv_owner r \<noteq> oid \<or> rv_recording r \<noteq> rec)))"
  | (same) r where "set_reservation ctx oid rec rid desired c = (Returned None, c)"
      "map_of (co_reservations c) rid = Some r" "rv_bytes r = desired" "rv_owner r = oid" "rv_recording r = rec"
  | (changes) "set_reservation ctx oid rec rid desired c = (Returned None,
       (if desired < current_bytes c rid then signal_changed else (\<lambda>x. x))
         (put_reservation rid \<lparr>rv_owner = oid, rv_recording = rec, rv_bytes = desired\<rparr> (current_bytes c rid) c))"
      "0 < desired" "desired \<noteq> current_bytes c rid \<or> map_of (co_reservations c) rid = None"
      "\<And>r. map_of (co_reservations c) rid = Some r \<Longrightarrow> rv_owner r = oid \<and> rv_recording r = rec"
      "desired < current_bytes c rid \<or>
       co_used c + (desired - current_bytes c rid) \<le> lim_global (co_limits c) \<and>
       bytes_of (co_recording_bytes c) rec + (desired - current_bytes c rid) \<le> lim_recording (co_limits c)"
  | (waits) "set_reservation ctx oid rec rid desired c = (Waiting, c)"
      "0 < desired" "desired > current_bytes c rid" "ctx = Active" "list_all valid_token [oid, rec, rid]"
      "desired \<le> lim_global (co_limits c)" "desired \<le> lim_recording (co_limits c)"
      "\<And>r. map_of (co_reservations c) rid = Some r \<Longrightarrow> rv_owner r = oid \<and> rv_recording r = rec"
      "\<not> (co_used c + (desired - current_bytes c rid) \<le> lim_global (co_limits c) \<and>
         bytes_of (co_recording_bytes c) rec + (desired - current_bytes c rid) \<le> lim_recording (co_limits c))"
proof -
  let ?bad = "validate_context_and_ids ctx [oid, rec, rid] \<noteq> None \<or> desired \<le> 0 \<or> ctx = Cancelled \<or>
      lim_global (co_limits c) < desired \<or> lim_recording (co_limits c) < desired"
  show thesis
  proof (cases ?bad)
    case bad: True
    then have "\<exists>e. set_reservation ctx oid rec rid desired c = (Returned (Some e), c)"
      by (auto simp: set_reservation_def split: option.split)
    moreover have "desired \<le> 0 \<or> ctx \<noteq> Active \<or> \<not> list_all valid_token [oid, rec, rid] \<or>
        lim_global (co_limits c) < desired \<or> lim_recording (co_limits c) < desired"
      using bad by (cases ctx) auto
    ultimately show thesis
      using refused by blast
  next
    case False
    then have ok: "ctx = Active" "list_all valid_token [oid, rec, rid]" "0 < desired"
      "desired \<le> lim_global (co_limits c)" "desired \<le> lim_recording (co_limits c)"
      by (cases ctx; auto)+
    let ?old = "current_bytes c rid"
    let ?new = "\<lparr>rv_owner = oid, rv_recording = rec, rv_bytes = desired\<rparr>"
    let ?fits = "co_used c + (desired - ?old) \<le> lim_global (co_limits c) \<and>
       bytes_of (co_recording_bytes c) rec + (desired - ?old) \<le> lim_recording (co_limits c)"
    have valid: "validate_context_and_ids Active [oid, rec, rid] = None"
      using ok by simp
    have eq: "set_reservation ctx oid rec rid desired c =
       (if (case map_of (co_reservations c) rid of None \<Rightarrow> False | Some r \<Rightarrow> rv_owner r \<noteq> oid \<or> rv_recording r \<noteq> rec)
        then (Returned (Some ErrResourceLeaseMismatch), c)
        else if map_of (co_reservations c) rid \<noteq> None \<and> desired = ?old then (Returned None, c)
        else if desired < ?old then (Returned None, signal_changed (put_reservation rid ?new ?old c))
        else if ?fits then (Returned None, put_reservation rid ?new ?old c) else (Waiting, c))"
      using ok(3-5) unfolding set_reservation_def Let_def ok(1) valid by simp
    show thesis
    proof (cases "case map_of (co_reservations c) rid of None \<Rightarrow> False | Some r \<Rightarrow> rv_owner r \<noteq> oid \<or> rv_recording r \<noteq> rec")
      case True
      then show thesis
        using eq by (intro refused [of ErrResourceLeaseMismatch]) (auto split: option.splits)
    next
      case same_lease: False
      then have mine: "rv_owner r = oid \<and> rv_recording r = rec" if "map_of (co_reservations c) rid = Some r" for r
        using that by auto
      show thesis
      proof (cases "map_of (co_reservations c) rid \<noteq> None \<and> desired = ?old")
        case True
        then obtain r where "map_of (co_reservations c) rid = Some r"
          by auto
        then show thesis
          using eq same_lease True by (intro same [of r]) auto
      next
        case changed: False
        show thesis
        proof (cases "desired < ?old \<or> ?fits")
          case True
          then show thesis
            using eq same_lease changed ok mine by (intro changes) auto
        next
          case False
          then have "?old < desired"
            using changed ok by (cases "map_of (co_reservations c) rid") auto
          then show thesis
            using eq same_lease changed ok mine False by (intro waits) auto
        qed
      qed
    qed
  qed
qed

section \<open>The ring as a bounded window\<close>

definition ring_ok :: "coordinator \<Rightarrow> bool" where
  "ring_ok c \<longleftrightarrow> co_start c < length (co_samples c) \<and> co_count c \<le> length (co_samples c)"

text \<open>The abstract sampler: keep the newest \<open>cap\<close> samples, then drop those older than the retention.\<close>

definition window :: "nat \<Rightarrow> int \<Rightarrow> telemetry_sample list \<Rightarrow> telemetry_sample \<Rightarrow> telemetry_sample list" where
  "window cap retention xs x =
     dropWhile (\<lambda>s. ts_at s < ts_at x - retention) (drop (Suc (length xs) - cap) (xs @ [x]))"

lemma mod_ring_inject:
  fixes i j n s :: nat
  assumes "(s + i) mod n = (s + j) mod n" "i < n" "j < n"
  shows "i = j"
proof -
  have le: "a = b" if "(s + a) mod n = (s + b) mod n" "a \<le> b" "b < n" for a b
  proof -
    have "n dvd (s + b) - (s + a)"
      using that by (intro mod_eq_dvd_iff_nat [THEN iffD1]) auto
    then have "n dvd b - a" by simp
    then show ?thesis
      using that by (metis dvd_imp_le diff_is_0_eq leD le_antisym less_imp_diff_less neq0_conv)
  qed
  show ?thesis
    using le [of i j] le [of j i] assms by (cases "i \<le> j") auto
qed

lemma chronological_length [simp]: "length (chronological_samples c) = co_count c"
  by (simp add: chronological_samples_def)

lemma chronological_nth:
  "i < co_count c \<Longrightarrow> chronological_samples c ! i = co_samples c ! ((co_start c + i) mod length (co_samples c))"
  by (simp add: chronological_samples_def)

lemma append_sample_ring: "ring_ok c \<Longrightarrow> ring_ok (append_sample x c)"
  by (auto simp: ring_ok_def append_sample_def Let_def)

lemma append_sample_chronological:
  assumes "ring_ok c"
  shows "chronological_samples (append_sample x c) =
    drop (Suc (co_count c) - length (co_samples c)) (chronological_samples c @ [x])"
proof (cases "co_count c < length (co_samples c)")
  case True
  let ?n = "length (co_samples c)" let ?k = "(co_start c + co_count c) mod ?n"
  have eq: "append_sample x c = c\<lparr>co_samples := (co_samples c)[?k := x], co_count := co_count c + 1\<rparr>"
    using True by (auto simp: append_sample_def Let_def)
  have "chronological_samples (append_sample x c) ! i = (chronological_samples c @ [x]) ! i" if i: "i \<le> co_count c" for i
  proof (cases "i = co_count c")
    case False
    then have "(co_start c + i) mod ?n \<noteq> ?k"
      using mod_ring_inject [of "co_start c" i ?n "co_count c"] i True by auto
    then show ?thesis
      using False i by (simp add: eq chronological_nth nth_append)
  next
    case same: True
    have "?k < ?n"
      using True by (intro mod_less_divisor) linarith
    then show ?thesis
      using same by (simp add: eq chronological_nth nth_append)
  qed
  then show ?thesis
    using True by (intro nth_equalityI) (auto simp: eq)
next
  case False
  let ?n = "length (co_samples c)"
  have full: "co_count c = ?n" "0 < ?n" "co_start c < ?n"
    using False assms by (auto simp: ring_ok_def)
  have eq: "append_sample x c = c\<lparr>co_samples := (co_samples c)[co_start c := x], co_start := (co_start c + 1) mod ?n\<rparr>"
    using full by (simp add: append_sample_def Let_def)
  have "chronological_samples (append_sample x c) ! i = (chronological_samples c @ [x]) ! Suc i" if i: "i < ?n" for i
  proof -
    have pos: "(Suc (co_start c) mod ?n + i) mod ?n = Suc (co_start c + i) mod ?n"
      by (metis add_Suc mod_add_left_eq)
    show ?thesis
    proof (cases "Suc i < ?n")
      case True
      then have "(co_start c + Suc i) mod ?n \<noteq> co_start c"
        using mod_ring_inject [of "co_start c" "Suc i" ?n 0] full by auto
      then show ?thesis
        using True i full by (simp add: eq chronological_nth nth_append pos)
    next
      case last: False
      then have "Suc i = ?n" using i by linarith
      then have "Suc (co_start c + i) mod ?n = co_start c"
        using full(3) by (metis add_Suc_right mod_add_self2 mod_less)
      then show ?thesis
        using \<open>Suc i = ?n\<close> i full by (simp add: eq chronological_nth nth_append pos)
    qed
  qed
  then show ?thesis
    using full by (intro nth_equalityI) (auto simp: eq nth_append)
qed

lemma prune_samples_spec:
  "ring_ok c \<Longrightarrow> ring_ok (prune_samples cutoff c) \<and>
     chronological_samples (prune_samples cutoff c) = dropWhile (\<lambda>x. ts_at x < cutoff) (chronological_samples c)"
proof (induction cutoff c rule: prune_samples.induct)
  case (1 cutoff c)
  let ?c = "c\<lparr>co_start := (co_start c + 1) mod length (co_samples c), co_count := co_count c - 1\<rparr>"
  have split: "chronological_samples c = co_samples c ! co_start c # chronological_samples ?c" if "0 < co_count c"
  proof -
    have "[0..<co_count c] = 0 # map Suc [0..<co_count c - 1]"
      using that by (simp add: upt_conv_Cons map_Suc_upt)
    then show ?thesis
      using 1(2) by (simp add: chronological_samples_def ring_ok_def comp_def mod_add_left_eq)
  qed
  have "0 < length (co_samples c)"
    using 1(2) by (auto simp: ring_ok_def)
  then have ring: "ring_ok ?c"
    using 1(2) mod_less_divisor by (auto simp: ring_ok_def)
  show ?case
  proof (cases "0 < co_count c \<and> ts_at (co_samples c ! co_start c) < cutoff")
    case True
    then show ?thesis
      using 1(1) [OF True ring] split by (subst (1 2) prune_samples.simps) simp
  next
    case False
    have "dropWhile (\<lambda>x. ts_at x < cutoff) (chronological_samples c) = chronological_samples c"
    proof (cases "co_count c = 0")
      case True
      then have "chronological_samples c = []"
        by (simp add: chronological_samples_def)
      then show ?thesis by simp
    next
      case nonempty: False
      then show ?thesis
        using split False by auto
    qed
    moreover have "prune_samples cutoff c = c"
      using False by (subst prune_samples.simps) (rule if_not_P)
    ultimately show ?thesis
      using 1(2) by simp
  qed
qed

lemma prune_samples_frame:
  "\<exists>start count. prune_samples cutoff c = c\<lparr>co_start := start, co_count := count\<rparr>"
proof (induction cutoff c rule: prune_samples.induct)
  case (1 cutoff c)
  show ?case
  proof (cases "0 < co_count c \<and> ts_at (co_samples c ! co_start c) < cutoff")
    case True
    then show ?thesis
      using 1 by (subst prune_samples.simps) auto
  next
    case False
    then have "prune_samples cutoff c = c"
      by (subst prune_samples.simps) (rule if_not_P)
    then have "prune_samples cutoff c = c\<lparr>co_start := co_start c, co_count := co_count c\<rparr>"
      by simp
    then show ?thesis by blast
  qed
qed

lemma append_sample_frame:
  "\<exists>samples start count. append_sample x c = c\<lparr>co_samples := samples, co_start := start, co_count := count\<rparr> \<and>
     length samples = length (co_samples c)"
proof (cases "co_count c < length (co_samples c)")
  case True
  then have "append_sample x c = c\<lparr>co_samples := (co_samples c)[(co_start c + co_count c) mod length (co_samples c) := x],
      co_start := co_start c, co_count := co_count c + 1\<rparr>"
    by (auto simp: append_sample_def Let_def)
  then show ?thesis
    by (intro exI [where x = "(co_samples c)[(co_start c + co_count c) mod length (co_samples c) := x]"]
        exI [where x = "co_start c"] exI [where x = "co_count c + 1"]) simp
next
  case False
  show ?thesis
  proof (cases "co_samples c = []")
    case True
    then have "append_sample x c = c\<lparr>co_samples := co_samples c, co_start := co_start c, co_count := co_count c\<rparr>"
      by (simp add: append_sample_def)
    then show ?thesis by blast
  next
    case nonempty: False
    then have "append_sample x c = c\<lparr>co_samples := (co_samples c)[co_start c := x],
        co_start := (co_start c + 1) mod length (co_samples c), co_count := co_count c\<rparr>"
      using False by (simp add: append_sample_def Let_def)
    then show ?thesis
      by (intro exI [where x = "(co_samples c)[co_start c := x]"]
          exI [where x = "(co_start c + 1) mod length (co_samples c)"] exI [where x = "co_count c"]) simp
  qed
qed

section \<open>Telemetry owners\<close>

definition owners_ok :: "coordinator \<Rightarrow> bool" where
  "owners_ok c \<longleftrightarrow> gomap_ok (co_owners c) \<and> list_all (\<lambda>(_, x). 0 \<le> to_queue_bytes x) (co_owners c) \<and>
     gomap_sum to_queue_bytes (co_owners c) \<le> lim_global (co_limits c) \<and>
     co_pending_read c \<le> co_read_total c \<and> co_pending_write c \<le> co_write_total c"

lemma queue_sum_nonneg:
  "list_all (\<lambda>(_, x). 0 \<le> to_queue_bytes x) m \<Longrightarrow> 0 \<le> gomap_sum to_queue_bytes m"
  by (induction m) auto

lemma queue_gauges_exact:
  "list_all (\<lambda>(_, x). 0 \<le> to_queue_bytes x) m \<Longrightarrow> t + gomap_sum to_queue_bytes m \<le> max_int64 \<Longrightarrow>
     fst (queue_gauges m t age) = t + gomap_sum to_queue_bytes m"
proof (induction m arbitrary: t age)
  case (Cons p m)
  obtain k x where p: "p = (k, x)" by (cases p)
  have "0 \<le> gomap_sum to_queue_bytes m"
    using Cons.prems by (simp add: queue_sum_nonneg)
  then show ?case
    using Cons.IH [of "t + to_queue_bytes x"] Cons.IH [of t] Cons.prems by (auto simp: p)
qed simp

lemma other_queue_bytes_exact:
  "list_all (\<lambda>(_, x). 0 \<le> to_queue_bytes x) m \<Longrightarrow> t + gomap_sum to_queue_bytes (AList.delete oid m) \<le> limit \<Longrightarrow>
     other_queue_bytes limit oid m t = Some (t + gomap_sum to_queue_bytes (AList.delete oid m))"
proof (induction m arbitrary: t)
  case (Cons p m)
  obtain k x where p: "p = (k, x)" by (cases p)
  have "list_all (\<lambda>(_, x). 0 \<le> to_queue_bytes x) (AList.delete oid m)"
    using Cons.prems(1) by (auto simp: AList.delete_eq list_all_iff)
  then have "0 \<le> gomap_sum to_queue_bytes (AList.delete oid m)"
    by (rule queue_sum_nonneg)
  then show ?case
    using Cons.IH [of "t + to_queue_bytes x"] Cons.IH [of t] Cons.prems by (auto simp: p)
qed simp

lemma checked_add_u64_eq:
  "checked_add_u64 a b = (if unat a + unat b < 2 ^ 64 then Some (a + b) else None)"
proof -
  have "unat (max_u64 - a) = 2 ^ 64 - 1 - unat a"
    by (simp add: unat_sub max_u64_def unsigned_minus_1_eq_mask mask_eq_exp_minus_1)
  moreover have "unat a < 2 ^ 64"
    using unsigned_less [of a, where ?'a = nat] by simp
  ultimately show ?thesis
    by (auto simp: checked_add_u64_def word_less_nat_alt)
qed

lemma added_totals_eq:
  "added_totals c r w e =
     (if unat (co_read_total c) + unat r < 2 ^ 64 \<and> unat (co_write_total c) + unat w < 2 ^ 64 \<and>
         unat (co_errors_total c) + unat e < 2 ^ 64 \<and> unat (co_pending_read c) + unat r < 2 ^ 64 \<and>
         unat (co_pending_write c) + unat w < 2 ^ 64
      then Some (co_read_total c + r, co_write_total c + w, co_errors_total c + e,
             co_pending_read c + r, co_pending_write c + w)
      else None)"
  by (simp add: added_totals_def checked_add_u64_eq)

lemma unat_add_u64: "unat a + unat b < 2 ^ 64 \<Longrightarrow> unat (a + b) = unat a + unat b" for a b :: u64
  by (simp add: unat_word_ariths)

lemma unat_sub_u64: "b \<le> a \<Longrightarrow> unat (a - b) = unat a - unat b" for a b :: u64
  by (rule unat_sub)

lemma commit_report_refused: "fst (commit_report oid x c) = Some e \<Longrightarrow> snd (commit_report oid x c) = c"
  by (auto simp: commit_report_def split: option.splits if_splits)

lemma report_refused:
  "fst (report_process_telemetry oid rd wr er qb age c) = Some e \<Longrightarrow>
     snd (report_process_telemetry oid rd wr er qb age c) = c"
  using commit_report_refused by (auto simp: report_process_telemetry_def split: if_splits)

text \<open>An accepted report, as the counters it leaves.\<close>

lemma report_accepted:
  assumes "report_process_telemetry oid rd wr er qb age c = (None, c')"
  shows "c' = c\<lparr>co_owners := AList.update oid \<lparr>to_read = rd, to_write = wr, to_errors = er,
                 to_queue_bytes = qb, to_oldest_age = age\<rparr> (co_owners c),
           co_read_total := co_read_total c + (rd - prev_counter c oid to_read),
           co_write_total := co_write_total c + (wr - prev_counter c oid to_write),
           co_errors_total := co_errors_total c + (er - prev_counter c oid to_errors),
           co_pending_read := co_pending_read c + (rd - prev_counter c oid to_read),
           co_pending_write := co_pending_write c + (wr - prev_counter c oid to_write)\<rparr>"
    "prev_counter c oid to_read \<le> rd" "prev_counter c oid to_write \<le> wr" "prev_counter c oid to_errors \<le> er"
    "unat (co_read_total c) + unat (rd - prev_counter c oid to_read) < 2 ^ 64"
    "unat (co_write_total c) + unat (wr - prev_counter c oid to_write) < 2 ^ 64"
    "unat (co_errors_total c) + unat (er - prev_counter c oid to_errors) < 2 ^ 64"
    "unat (co_pending_read c) + unat (rd - prev_counter c oid to_read) < 2 ^ 64"
    "unat (co_pending_write c) + unat (wr - prev_counter c oid to_write) < 2 ^ 64"
    "valid_token oid" "0 \<le> qb"
    "\<exists>others. other_queue_bytes (lim_global (co_limits c)) oid (co_owners c) 0 = Some others \<and>
       qb \<le> lim_global (co_limits c) - others"
proof -
  let ?x = "\<lparr>to_read = rd, to_write = wr, to_errors = er, to_queue_bytes = qb, to_oldest_age = age\<rparr>"
  have go: "valid_token oid" "0 \<le> qb" "\<not> counters_regress c oid rd wr er" "commit_report oid ?x c = (None, c')"
    using assms by (auto simp: report_process_telemetry_def split: if_splits)
  show "valid_token oid" "0 \<le> qb"
    by (fact go)+
  show "prev_counter c oid to_read \<le> rd" "prev_counter c oid to_write \<le> wr" "prev_counter c oid to_errors \<le> er"
    using go(3) by (auto simp: prev_counter_def counters_regress_def split: option.splits)
  show sums: "unat (co_read_total c) + unat (rd - prev_counter c oid to_read) < 2 ^ 64"
    "unat (co_write_total c) + unat (wr - prev_counter c oid to_write) < 2 ^ 64"
    "unat (co_errors_total c) + unat (er - prev_counter c oid to_errors) < 2 ^ 64"
    "unat (co_pending_read c) + unat (rd - prev_counter c oid to_read) < 2 ^ 64"
    "unat (co_pending_write c) + unat (wr - prev_counter c oid to_write) < 2 ^ 64"
    using go(4) by (auto simp: commit_report_def added_totals_eq split: if_splits)
  obtain o1 where o1: "other_queue_bytes (lim_global (co_limits c)) oid (co_owners c) 0 = Some o1"
    using go(4) sums by (auto simp: commit_report_def added_totals_eq split: option.splits)
  have fits: "qb \<le> lim_global (co_limits c) - o1"
    using go(4) sums o1 by (simp add: commit_report_def added_totals_eq split: if_splits)
  then show "\<exists>others. other_queue_bytes (lim_global (co_limits c)) oid (co_owners c) 0 = Some others \<and>
       qb \<le> lim_global (co_limits c) - others"
    using o1 by blast
  show "c' = c\<lparr>co_owners := AList.update oid ?x (co_owners c),
           co_read_total := co_read_total c + (rd - prev_counter c oid to_read),
           co_write_total := co_write_total c + (wr - prev_counter c oid to_write),
           co_errors_total := co_errors_total c + (er - prev_counter c oid to_errors),
           co_pending_read := co_pending_read c + (rd - prev_counter c oid to_read),
           co_pending_write := co_pending_write c + (wr - prev_counter c oid to_write)\<rparr>"
    using go(4) o1 fits sums by (simp add: commit_report_def added_totals_eq)
qed

lemma report_owners_ok:
  assumes "owners_ok c"
  shows "owners_ok (snd (report_process_telemetry oid rd wr er qb age c))"
proof (cases "report_process_telemetry oid rd wr er qb age c")
  case (Pair e c')
  show ?thesis
  proof (cases e)
    case None
    note A = report_accepted [OF Pair [unfolded None]]
    have ok: "gomap_ok (co_owners c)" "list_all (\<lambda>(_, x). 0 \<le> to_queue_bytes x) (co_owners c)"
      "gomap_sum to_queue_bytes (co_owners c) \<le> lim_global (co_limits c)"
      "co_pending_read c \<le> co_read_total c" "co_pending_write c \<le> co_write_total c"
      using assms by (simp_all add: owners_ok_def)
    have "0 \<le> (case map_of (co_owners c) oid of None \<Rightarrow> 0 | Some u \<Rightarrow> to_queue_bytes u)"
      using ok(1,2) by (auto simp: list_all_gomap split: option.split)
    then have le: "0 + gomap_sum to_queue_bytes (AList.delete oid (co_owners c)) \<le> lim_global (co_limits c)"
      using ok(3) by (simp add: gomap_sum_delete [OF ok(1)])
    have "qb + gomap_sum to_queue_bytes (AList.delete oid (co_owners c)) \<le> lim_global (co_limits c)"
      using A(12) other_queue_bytes_exact [OF ok(2) le] by auto
    then have "gomap_sum to_queue_bytes (co_owners c') \<le> lim_global (co_limits c)"
      by (simp add: A(1) gomap_sum_update [OF ok(1)] gomap_sum_delete [OF ok(1)])
    moreover have "co_pending_read c' \<le> co_read_total c'" "co_pending_write c' \<le> co_write_total c'"
      using ok(4,5) A(5,6,8,9) by (simp_all add: A(1) word_le_nat_alt unat_add_u64)
    moreover have "list_all (\<lambda>(_, x). 0 \<le> to_queue_bytes x) (co_owners c')"
      using ok(1,2) A(11) by (auto simp: A(1) list_all_gomap split: if_splits)
    ultimately show ?thesis
      using ok(1) by (simp add: Pair owners_ok_def) (simp add: A(1))
  qed (use assms report_refused [of oid rd wr er qb age c] in \<open>simp add: Pair\<close>)
qed

section \<open>Runs of the coordinator\<close>

datatype coord_op =
    SetReservation go_context string string string int
  | ReleaseReservation string string string
  | AcquireQueue go_context string string
  | ReleaseQueue string string
  | AcquireWriter go_context string string
  | ReleaseWriter string string
  | ReleaseOwner string
  | ReportTelemetry string u64 u64 u64 int float64
  | SampleTelemetry "u64 \<Rightarrow> int \<Rightarrow> u64" instant

fun coord_step :: "coordinator \<Rightarrow> coord_op \<Rightarrow> coordinator" where
  "coord_step c (SetReservation ctx oid rec rid desired) = snd (set_reservation ctx oid rec rid desired c)"
| "coord_step c (ReleaseReservation oid rec rid) = snd (release_reservation oid rec rid c)"
| "coord_step c (AcquireQueue ctx oid job) = snd (acquire_queue ctx oid job c)"
| "coord_step c (ReleaseQueue oid job) = snd (release_queue oid job c)"
| "coord_step c (AcquireWriter ctx oid wid) = snd (acquire_writer ctx oid wid c)"
| "coord_step c (ReleaseWriter oid wid) = snd (release_writer oid wid c)"
| "coord_step c (ReleaseOwner oid) = snd (release_owner oid c)"
| "coord_step c (ReportTelemetry oid rd wr er q age) = snd (report_process_telemetry oid rd wr er q age c)"
| "coord_step c (SampleTelemetry rate now) = sample_telemetry_at rate now c"

definition run_coordinator :: "coordinator \<Rightarrow> coord_op list \<Rightarrow> coordinator" where
  "run_coordinator = foldl coord_step"

definition coord_inv :: "coordinator \<Rightarrow> bool" where
  "coord_inv c \<longleftrightarrow> validate_limits (co_limits c) = None \<and> accounts_ok c \<and>
     slots_ok (lim_queue (co_limits c)) (co_queue c) \<and> slots_ok (lim_writers (co_limits c)) (co_writers c) \<and>
     owners_ok c \<and> ring_ok c"

text \<open>Without a signal nothing is given back: every lease of \<open>c\<close> is still there, as large or larger.\<close>

definition grows :: "coordinator \<Rightarrow> coordinator \<Rightarrow> bool" where
  "grows c c' \<longleftrightarrow>
     (\<forall>rid r. map_of (co_reservations c) rid = Some r \<longrightarrow>
        (\<exists>r'. map_of (co_reservations c') rid = Some r' \<and> rv_owner r' = rv_owner r \<and>
              rv_recording r' = rv_recording r \<and> rv_bytes r \<le> rv_bytes r')) \<and>
     (\<forall>k. has_key (co_queue c) k \<longrightarrow> has_key (co_queue c') k) \<and>
     (\<forall>k. has_key (co_writers c) k \<longrightarrow> has_key (co_writers c') k)"

lemma grows_refl [simp]: "grows c c"
  by (auto simp: grows_def)

lemma grows_trans:
  assumes ab: "grows a b" and bc: "grows b c"
  shows "grows a c"
proof -
  have "\<exists>r'. map_of (co_reservations c) rid = Some r' \<and> rv_owner r' = rv_owner r \<and>
      rv_recording r' = rv_recording r \<and> rv_bytes r \<le> rv_bytes r'"
    if a: "map_of (co_reservations a) rid = Some r" for rid r
  proof -
    obtain r1 where r1: "map_of (co_reservations b) rid = Some r1" "rv_owner r1 = rv_owner r"
      "rv_recording r1 = rv_recording r" "rv_bytes r \<le> rv_bytes r1"
      using ab a unfolding grows_def by blast
    obtain r2 where "map_of (co_reservations c) rid = Some r2" "rv_owner r2 = rv_owner r1"
      "rv_recording r2 = rv_recording r1" "rv_bytes r1 \<le> rv_bytes r2"
      using bc r1(1) unfolding grows_def by blast
    with r1 show ?thesis by auto
  qed
  then show ?thesis
    using ab bc unfolding grows_def by blast
qed

text \<open>The frame of a step that keeps the invariant: the limits stay, the channel is only ever replaced.\<close>

definition steps_to :: "coordinator \<Rightarrow> coordinator \<Rightarrow> bool" where
  "steps_to c c' \<longleftrightarrow> coord_inv c' \<and> co_limits c' = co_limits c \<and> co_changed c \<le> co_changed c' \<and>
     (co_changed c' = co_changed c \<longrightarrow> grows c c')"

lemma steps_to_refl: "coord_inv c \<Longrightarrow> steps_to c c"
  by (simp add: steps_to_def)

lemma steps_to_trans: "steps_to a b \<Longrightarrow> steps_to b c \<Longrightarrow> steps_to a c"
  unfolding steps_to_def using grows_trans by (auto dest: order.antisym)

lemma coord_inv_signal [simp]: "coord_inv (signal_changed c) \<longleftrightarrow> coord_inv c"
  by (simp add: coord_inv_def accounts_ok_def owners_ok_def ring_ok_def)

lemma coord_invD:
  assumes "coord_inv c"
  shows "accounts_ok c" "slots_ok (lim_queue (co_limits c)) (co_queue c)" "owners_ok c" "ring_ok c"
    "slots_ok (lim_writers (co_limits c)) (co_writers c)"
    "sums_ok (co_reservations c) (co_recording_bytes c) (co_used c)" "gomap_ok (co_reservations c)"
  using assms by (simp_all add: coord_inv_def accounts_ok_def sums_ok_def)

lemma put_reservation_simps [simp]:
  "co_limits (put_reservation rid r old_bytes c) = co_limits c" "co_queue (put_reservation rid r old_bytes c) = co_queue c"
  "co_writers (put_reservation rid r old_bytes c) = co_writers c" "co_owners (put_reservation rid r old_bytes c) = co_owners c"
  "co_changed (put_reservation rid r old_bytes c) = co_changed c"
  "co_reservations (put_reservation rid r old_bytes c) = AList.update rid r (co_reservations c)"
  by (simp_all add: put_reservation_def Let_def)

lemma put_reservation_inv:
  assumes "coord_inv c" "0 < rv_bytes new" "\<And>r. map_of (co_reservations c) rid = Some r \<Longrightarrow> rv_recording r = rv_recording new"
    "rv_bytes new < current_bytes c rid \<or>
     co_used c + (rv_bytes new - current_bytes c rid) \<le> lim_global (co_limits c) \<and>
     bytes_of (co_recording_bytes c) (rv_recording new) + (rv_bytes new - current_bytes c rid) \<le> lim_recording (co_limits c)"
  shows "coord_inv (put_reservation rid new (current_bytes c rid) c)"
proof -
  note inv = coord_invD [OF assms(1)]
  have sums: "sums_ok (AList.update rid new (co_reservations c))
      (add_bytes (rv_recording new) (rv_bytes new - current_bytes c rid) (co_recording_bytes c))
      (co_used c + (rv_bytes new - current_bytes c rid))"
    by (rule sums_ok_update [OF inv(6) assms(2) refl assms(3)])
  have rec: "recording_sum rec (AList.update rid new (co_reservations c)) =
      recording_sum rec (co_reservations c) + (if rec = rv_recording new then rv_bytes new - current_bytes c rid else 0)" for rec
    by (rule recording_sum_update [OF inv(7) assms(3) refl])
  have used: "co_used c \<le> lim_global (co_limits c)" "\<And>rec. recording_sum rec (co_reservations c) \<le> lim_recording (co_limits c)"
    using inv(1) by (simp_all add: accounts_ok_def)
  have "co_used c + (rv_bytes new - current_bytes c rid) \<le> lim_global (co_limits c)"
    using assms(4) used(1) by linarith
  moreover have "recording_sum rec (AList.update rid new (co_reservations c)) \<le> lim_recording (co_limits c)" for rec
    using assms(4) used(2) [of rec] bytes_of_account [OF inv(6), of "rv_recording new"] by (auto simp: rec)
  ultimately have "accounts_ok (put_reservation rid new (current_bytes c rid) c)"
    using sums by (simp add: accounts_ok_def) (simp add: put_reservation_def Let_def)
  then show ?thesis
    using assms(1) by (simp add: coord_inv_def owners_ok_def ring_ok_def) (simp add: put_reservation_def Let_def)
qed

lemma set_reservation_step:
  assumes "coord_inv c"
  shows "steps_to c (snd (set_reservation ctx oid rec rid desired c))"
proof (cases rule: set_reservation_cases [of ctx oid rec rid desired c])
  case changes
  let ?new = "\<lparr>rv_owner = oid, rv_recording = rec, rv_bytes = desired\<rparr>"
  let ?c = "put_reservation rid ?new (current_bytes c rid) c"
  have inv: "coord_inv ?c"
    by (rule put_reservation_inv [OF assms]) (use changes in auto)
  show ?thesis
  proof (cases "desired < current_bytes c rid")
    case True
    then show ?thesis
      using inv by (simp add: changes(1) steps_to_def)
  next
    case False
    have "grows c ?c"
      using False changes(4) by (auto simp: grows_def)
    then show ?thesis
      using inv False by (simp add: changes(1) steps_to_def)
  qed
qed (use assms steps_to_refl in simp_all)

lemma remove_reservation_inv:
  assumes "coord_inv c" "map_of (co_reservations c) rid = Some r"
  shows "coord_inv (remove_reservation rid r c)"
proof -
  note inv = coord_invD [OF assms(1)]
  have "0 < rv_bytes r"
    using inv(6) assms(2) by (auto simp: sums_ok_def list_all_gomap)
  then have "accounts_ok (remove_reservation rid r c)"
    using inv(1) sums_ok_delete [OF inv(6) assms(2)] recording_sum_delete_le [OF inv(6)] order_trans
    by (fastforce simp: accounts_ok_def remove_reservation_def)
  then show ?thesis
    using assms(1) by (simp add: coord_inv_def owners_ok_def ring_ok_def) (simp add: remove_reservation_def)
qed

lemma remove_reservation_simps [simp]:
  "co_limits (remove_reservation rid r c) = co_limits c" "co_queue (remove_reservation rid r c) = co_queue c"
  "co_writers (remove_reservation rid r c) = co_writers c" "co_owners (remove_reservation rid r c) = co_owners c"
  "co_changed (remove_reservation rid r c) = co_changed c"
  "co_reservations (remove_reservation rid r c) = AList.delete rid (co_reservations c)"
  "co_used (remove_reservation rid r c) = co_used c - rv_bytes r"
  by (simp_all add: remove_reservation_def)

lemma release_reservation_step:
  assumes "coord_inv c"
  shows "steps_to c (snd (release_reservation oid rec rid c))"
  using assms steps_to_refl remove_reservation_inv [OF assms, of rid]
  by (auto simp: release_reservation_def steps_to_def split: option.split)

lemma coord_inv_queue:
  "coord_inv c \<Longrightarrow> slots_ok (lim_queue (co_limits c)) m \<Longrightarrow> coord_inv (c\<lparr>co_queue := m\<rparr>)"
  by (simp add: coord_inv_def accounts_ok_def owners_ok_def ring_ok_def)

lemma coord_inv_writers:
  "coord_inv c \<Longrightarrow> slots_ok (lim_writers (co_limits c)) m \<Longrightarrow> coord_inv (c\<lparr>co_writers := m\<rparr>)"
  by (simp add: coord_inv_def accounts_ok_def owners_ok_def ring_ok_def)

lemma acquire_queue_step:
  assumes "coord_inv c"
  shows "steps_to c (snd (acquire_queue ctx oid job c))"
proof -
  let ?c = "snd (acquire_queue ctx oid job c)"
  have frame: "?c = c\<lparr>co_queue := co_queue ?c\<rparr>"
    by (simp add: acquire_queue_def split: option.split)
  have "coord_inv (c\<lparr>co_queue := co_queue ?c\<rparr>)"
    using queue_pool.acquire_ok [OF coord_invD(2) [OF assms], of ctx oid job] by (rule coord_inv_queue [OF assms])
  moreover have "grows c (c\<lparr>co_queue := co_queue ?c\<rparr>)"
    using queue_pool.acquire_grows [of c _ ctx oid job] by (auto simp: grows_def)
  ultimately show ?thesis
    by (subst frame) (simp add: steps_to_def)
qed

lemma acquire_writer_step:
  assumes "coord_inv c"
  shows "steps_to c (snd (acquire_writer ctx oid wid c))"
proof -
  let ?c = "snd (acquire_writer ctx oid wid c)"
  have frame: "?c = c\<lparr>co_writers := co_writers ?c\<rparr>"
    by (simp add: acquire_writer_def split: option.split)
  have "coord_inv (c\<lparr>co_writers := co_writers ?c\<rparr>)"
    using writer_pool.acquire_ok [OF coord_invD(5) [OF assms], of ctx oid wid] by (rule coord_inv_writers [OF assms])
  moreover have "grows c (c\<lparr>co_writers := co_writers ?c\<rparr>)"
    using writer_pool.acquire_grows [of c _ ctx oid wid] by (auto simp: grows_def)
  ultimately show ?thesis
    by (subst frame) (simp add: steps_to_def)
qed

lemma release_queue_step:
  assumes "coord_inv c"
  shows "steps_to c (snd (release_queue oid job c))"
proof -
  have "coord_inv (c\<lparr>co_queue := co_queue (snd (release_queue oid job c))\<rparr>)"
    using queue_pool.release_ok [OF coord_invD(2) [OF assms], of oid job] by (rule coord_inv_queue [OF assms])
  then show ?thesis
    using steps_to_refl [OF assms] by (auto simp: release_queue_def steps_to_def split: option.splits if_splits)
qed

lemma release_writer_step:
  assumes "coord_inv c"
  shows "steps_to c (snd (release_writer oid wid c))"
proof -
  have "coord_inv (c\<lparr>co_writers := co_writers (snd (release_writer oid wid c))\<rparr>)"
    using writer_pool.release_ok [OF coord_invD(5) [OF assms], of oid wid] by (rule coord_inv_writers [OF assms])
  then show ?thesis
    using steps_to_refl [OF assms] by (auto simp: release_writer_def steps_to_def split: option.splits if_splits)
qed

lemma release_reservations_of_spec:
  assumes "coord_inv c" "distinct (map fst items)"
    "\<And>rid r. (rid, r) \<in> set items \<Longrightarrow> map_of (co_reservations c) rid = Some r"
  shows "let c' = snd (release_reservations_of oid items c) in
    coord_inv c' \<and> co_limits c' = co_limits c \<and> co_queue c' = co_queue c \<and> co_writers c' = co_writers c \<and>
    co_owners c' = co_owners c \<and> co_changed c' = co_changed c \<and>
    map_of (co_reservations c') = (\<lambda>rid. case map_of items rid of
      Some r \<Rightarrow> if rv_owner r = oid then None else map_of (co_reservations c) rid
    | None \<Rightarrow> map_of (co_reservations c) rid) \<and>
    co_used c' = co_used c - owner_sum oid items \<and>
    (\<not> fst (release_reservations_of oid items c) \<longrightarrow> c' = c)"
  using assms
proof (induction items arbitrary: c)
  case (Cons p items)
  obtain rid r where p: "p = (rid, r)" by (cases p)
  have r: "map_of (co_reservations c) rid = Some r"
    using Cons.prems(3) by (simp add: p)
  have fresh: "map_of items rid = None"
    using Cons.prems(2) by (simp add: p map_of_eq_None_iff)
  show ?case
  proof (cases "rv_owner r = oid")
    case True
    let ?c = "remove_reservation rid r c"
    have "map_of (co_reservations ?c) k = Some x" if "(k, x) \<in> set items" for k x
      using that Cons.prems(2,3) by (force simp: p)
    note IH = Cons.IH [OF remove_reservation_inv [OF Cons.prems(1) r] _ this]
    show ?thesis
      using IH Cons.prems(2) True fresh
      by (auto simp: p Let_def owner_sum_def fun_eq_iff split: option.splits)
  next
    case False
    then show ?thesis
      using Cons.IH [OF Cons.prems(1)] Cons.prems(2,3) fresh r
      by (auto simp: p Let_def owner_sum_def fun_eq_iff split: option.splits)
  qed
qed (simp add: owner_sum_def)

lemma slots_ok_filter:
  assumes "slots_ok cap m"
  shows "slots_ok cap (filter (\<lambda>(_, x). x \<noteq> oid) m)"
proof -
  have "length (filter (\<lambda>(_, x). x \<noteq> oid) m) \<le> length m"
    by (rule length_filter_le)
  then have "int (length (filter (\<lambda>(_, x). x \<noteq> oid) m)) \<le> cap"
    using assms unfolding slots_ok_def by linarith
  with assms show ?thesis
    unfolding slots_ok_def by (auto simp: list_all_iff distinct_map_filter)
qed

lemma filter_other_owner:
  "list_ex (\<lambda>(_, x). x = oid) m \<or> filter (\<lambda>(_, x). x \<noteq> oid) m = m"
  by (auto simp: list_ex_iff filter_id_conv)

lemma owners_ok_delete: "owners_ok c \<Longrightarrow> owners_ok (c\<lparr>co_owners := AList.delete oid (co_owners c)\<rparr>)"
proof -
  assume ok: "owners_ok c"
  then have "0 \<le> (case map_of (co_owners c) oid of None \<Rightarrow> 0 | Some u \<Rightarrow> to_queue_bytes u)"
    by (auto simp: owners_ok_def list_all_gomap split: option.split)
  then have "gomap_sum to_queue_bytes (AList.delete oid (co_owners c)) \<le> lim_global (co_limits c)"
    using ok by (simp add: owners_ok_def gomap_sum_delete)
  then show ?thesis
    using ok by (auto simp: owners_ok_def list_all_gomap split: if_splits)
qed

lemma release_reservations_flag:
  "fst (release_reservations_of oid items c) \<longleftrightarrow> list_ex (\<lambda>(_, r). rv_owner r = oid) items"
  by (induction oid items c rule: release_reservations_of.induct) auto

text \<open>The state ReleaseOwner leaves, before the signal.\<close>

lemma release_owner_eq:
  assumes "coord_inv c" "valid_token oid"
  obtains c1 changed where
    "release_owner oid c = (None, if changed then signal_changed c1 else c1)" "coord_inv c1"
    "co_limits c1 = co_limits c" "co_changed c1 = co_changed c"
    "co_used c1 = co_used c - owner_sum oid (co_reservations c)"
    "map_of (co_reservations c1) = (\<lambda>rid. case map_of (co_reservations c) rid of
       Some r \<Rightarrow> if rv_owner r = oid then None else Some r | None \<Rightarrow> None)"
    "co_queue c1 = filter (\<lambda>(_, x). x \<noteq> oid) (co_queue c)"
    "co_writers c1 = filter (\<lambda>(_, x). x \<noteq> oid) (co_writers c)"
    "co_owners c1 = AList.delete oid (co_owners c)"
    "changed \<longleftrightarrow> list_ex (\<lambda>(_, r). rv_owner r = oid) (co_reservations c) \<or>
       list_ex (\<lambda>(_, x). x = oid) (co_queue c) \<or> list_ex (\<lambda>(_, x). x = oid) (co_writers c)"
    "\<not> changed \<Longrightarrow> c1 = c\<lparr>co_owners := AList.delete oid (co_owners c)\<rparr>"
proof -
  obtain ch0 c0 where rel: "release_reservations_of oid (co_reservations c) c = (ch0, c0)"
    by (cases "release_reservations_of oid (co_reservations c) c")
  let ?keep = "filter (\<lambda>(_, x). x \<noteq> oid)"
  let ?c1 = "c0\<lparr>co_queue := ?keep (co_queue c0), co_writers := ?keep (co_writers c0),
      co_owners := AList.delete oid (co_owners c0)\<rparr>"
  let ?changed = "ch0 \<or> list_ex (\<lambda>(_, x). x = oid) (co_queue c0) \<or> list_ex (\<lambda>(_, x). x = oid) (co_writers c0)"
  have gomap: "gomap_ok (co_reservations c)"
    by (rule coord_invD(7) [OF assms(1)])
  have S: "coord_inv c0" "co_limits c0 = co_limits c" "co_queue c0 = co_queue c" "co_writers c0 = co_writers c"
    "co_owners c0 = co_owners c" "co_changed c0 = co_changed c"
    "map_of (co_reservations c0) = (\<lambda>rid. case map_of (co_reservations c) rid of
      Some r \<Rightarrow> if rv_owner r = oid then None else map_of (co_reservations c) rid
    | None \<Rightarrow> map_of (co_reservations c) rid)"
    "co_used c0 = co_used c - owner_sum oid (co_reservations c)" "\<not> ch0 \<Longrightarrow> c0 = c"
    using release_reservations_of_spec [OF assms(1) gomap in_gomap_iff [OF gomap, THEN iffD1], of oid]
    by (simp_all add: rel Let_def)
  have eq: "release_owner oid c = (None, if ?changed then signal_changed ?c1 else ?c1)"
    using assms(2) by (simp add: release_owner_def rel Let_def validate_ids_def)
  have "coord_inv (c0\<lparr>co_queue := ?keep (co_queue c0)\<rparr>)"
    by (intro coord_inv_queue S(1) slots_ok_filter coord_invD(2))
  then have "coord_inv (c0\<lparr>co_queue := ?keep (co_queue c0), co_writers := ?keep (co_writers c0)\<rparr>)"
    by (rule coord_inv_writers) (use slots_ok_filter [OF coord_invD(5) [OF S(1)]] in simp)
  then have inv: "coord_inv ?c1"
    using owners_ok_delete [OF coord_invD(3) [OF S(1)], of oid]
    by (simp add: coord_inv_def accounts_ok_def owners_ok_def ring_ok_def)
  have same: "?c1 = c\<lparr>co_owners := AList.delete oid (co_owners c)\<rparr>" if no: "\<not> ?changed"
  proof -
    have "c0 = c" "?keep (co_queue c) = co_queue c" "?keep (co_writers c) = co_writers c"
      using no S(9) filter_other_owner [of oid "co_queue c"] filter_other_owner [of oid "co_writers c"] by auto
    then show ?thesis by simp
  qed
  show thesis
    by (rule that [OF eq inv _ _ _ _ _ _ _ _ same])
      (simp_all add: S(2-8) release_reservations_flag [of oid "co_reservations c" c, unfolded rel, simplified]
        fun_eq_iff split: option.split)
qed

lemma release_owner_step:
  assumes "coord_inv c"
  shows "steps_to c (snd (release_owner oid c))"
proof (cases "valid_token oid")
  case True
  show ?thesis
  proof (rule release_owner_eq [OF assms True])
    fix c1 and changed :: bool
    assume r: "release_owner oid c = (None, if changed then signal_changed c1 else c1)" "coord_inv c1"
      "co_limits c1 = co_limits c" "co_changed c1 = co_changed c"
      and same: "\<not> changed \<Longrightarrow> c1 = c\<lparr>co_owners := AList.delete oid (co_owners c)\<rparr>"
    have "grows c c1" if "\<not> changed"
      using same [OF that] by (simp add: grows_def)
    then show ?thesis
      using r by (cases changed) (simp_all add: steps_to_def)
  qed
qed (simp add: release_owner_def validate_ids_def steps_to_refl assms)

lemma report_step:
  assumes "coord_inv c"
  shows "steps_to c (snd (report_process_telemetry oid rd wr er qb age c))"
proof (cases "report_process_telemetry oid rd wr er qb age c")
  case (Pair e c')
  show ?thesis
  proof (cases e)
    case None
    have c': "co_limits c' = co_limits c" "co_reservations c' = co_reservations c" "co_recording_bytes c' = co_recording_bytes c"
      "co_used c' = co_used c" "co_queue c' = co_queue c" "co_writers c' = co_writers c" "co_changed c' = co_changed c"
      "co_samples c' = co_samples c" "co_start c' = co_start c" "co_count c' = co_count c"
      unfolding report_accepted(1) [OF Pair [unfolded None]] by simp_all
    have "owners_ok c'"
      using report_owners_ok [OF coord_invD(3) [OF assms], of oid rd wr er qb age] by (simp add: Pair)
    then show ?thesis
      using assms c' by (simp add: Pair steps_to_def coord_inv_def accounts_ok_def ring_ok_def grows_def)
  next
    case (Some x)
    then show ?thesis
      using report_refused [of oid rd wr er qb age c x] steps_to_refl [OF assms] by (simp add: Pair)
  qed
qed

lemma append_sample_simps [simp]:
  "co_limits (append_sample x c) = co_limits c" "co_reservations (append_sample x c) = co_reservations c"
  "co_recording_bytes (append_sample x c) = co_recording_bytes c" "co_used (append_sample x c) = co_used c"
  "co_queue (append_sample x c) = co_queue c" "co_writers (append_sample x c) = co_writers c"
  "co_owners (append_sample x c) = co_owners c" "co_changed (append_sample x c) = co_changed c"
  "co_read_total (append_sample x c) = co_read_total c" "co_write_total (append_sample x c) = co_write_total c"
  "co_retention (append_sample x c) = co_retention c" "length (co_samples (append_sample x c)) = length (co_samples c)"
  by (simp_all add: append_sample_def Let_def)

lemma prune_samples_simps [simp]:
  "co_limits (prune_samples t c) = co_limits c" "co_reservations (prune_samples t c) = co_reservations c"
  "co_recording_bytes (prune_samples t c) = co_recording_bytes c" "co_used (prune_samples t c) = co_used c"
  "co_queue (prune_samples t c) = co_queue c" "co_writers (prune_samples t c) = co_writers c"
  "co_owners (prune_samples t c) = co_owners c" "co_changed (prune_samples t c) = co_changed c"
  "co_read_total (prune_samples t c) = co_read_total c" "co_write_total (prune_samples t c) = co_write_total c"
  "co_pending_read (prune_samples t c) = co_pending_read c" "co_pending_write (prune_samples t c) = co_pending_write c"
  "co_last_at (prune_samples t c) = co_last_at c" "co_samples (prune_samples t c) = co_samples c"
  "co_retention (prune_samples t c) = co_retention c"
  using prune_samples_frame [of t c] by auto

lemma ring_ok_cong:
  "co_samples c' = co_samples c \<Longrightarrow> co_start c' = co_start c \<Longrightarrow> co_count c' = co_count c \<Longrightarrow> ring_ok c' = ring_ok c"
  by (simp add: ring_ok_def)

lemma sample_step:
  assumes "coord_inv c"
  shows "steps_to c (sample_telemetry_at rate now c)"
proof (cases "now = 0 \<or> co_last_at c = 0 \<or> time_sub now (co_last_at c) \<le> 0")
  case True
  then have "sample_telemetry_at rate now c = c \<or> sample_telemetry_at rate now c = c\<lparr>co_last_at := now\<rparr>"
    by (auto simp: sample_telemetry_at_def sample_telemetry_locked_def Let_def)
  then show ?thesis
    using assms by (auto simp: steps_to_def coord_inv_def accounts_ok_def owners_ok_def ring_ok_def grows_def)
next
  case False
  define x where "x = \<lparr>ts_at = now, ts_read = rate (co_pending_read c) (time_sub now (co_last_at c)),
      ts_write = rate (co_pending_write c) (time_sub now (co_last_at c)), ts_buffer_used = co_used c,
      ts_queue_bytes = fst (queue_gauges (co_owners c) 0 (Finite 0)), ts_observed_for = time_sub now (co_last_at c)\<rparr>"
  define c1 where "c1 = append_sample x (c\<lparr>co_current := \<lparr>tp_read = ts_read x, tp_write = ts_write x,
      tp_read_total = co_read_total c, tp_write_total = co_write_total c\<rparr>\<rparr>)"
  define c2 where "c2 = c1\<lparr>co_pending_read := 0, co_pending_write := 0, co_last_at := now\<rparr>"
  have eq: "sample_telemetry_at rate now c = prune_samples (now - co_retention c) c2"
    using False by (simp add: sample_telemetry_at_def sample_telemetry_locked_def Let_def c2_def c1_def x_def)
  have "ring_ok c1"
    unfolding c1_def using coord_invD(4) [OF assms] by (intro append_sample_ring) (simp add: ring_ok_def)
  then have "ring_ok c2"
    by (simp add: c2_def ring_ok_def)
  then have ring: "ring_ok (prune_samples (now - co_retention c) c2)"
    using prune_samples_spec by blast
  show ?thesis
    unfolding eq using ring assms
    by (simp add: steps_to_def coord_inv_def accounts_ok_def owners_ok_def grows_def c2_def c1_def)
qed

lemma coord_step_steps: "coord_inv c \<Longrightarrow> steps_to c (coord_step c p)"
  using set_reservation_step release_reservation_step acquire_queue_step release_queue_step acquire_writer_step
    release_writer_step release_owner_step report_step sample_step
  by (cases p) simp_all

interpretation resources: monotone_system coord_step coord_inv co_changed
  using coord_step_steps by unfold_locales (auto simp: steps_to_def)

interpretation leases: op_system coord_step "steps_to origin" for origin
  using coord_step_steps steps_to_trans by unfold_locales (meson steps_to_def)

lemma run_steps_to: "coord_inv c \<Longrightarrow> steps_to c (run_coordinator c ops)"
  using leases.run_inv [of c c ops] steps_to_refl by (simp add: run_coordinator_def)

lemma new_coordinator_inv:
  assumes "new_coordinator l interval retention started = Inr c"
  shows "coord_inv c \<and> co_limits c = l"
proof -
  have l: "validate_limits l = None"
    using assms by (simp add: new_coordinator_def split: option.splits)
  have "0 < max_samples_of interval retention"
    by (simp add: max_samples_of_def Let_def)
  moreover have "0 < lim_global l" "0 < lim_recording l" "0 < lim_queue l" "lim_writers l = 1"
    using l by (auto simp: validate_limits_def split: if_splits)
  ultimately show ?thesis
    using assms l by (auto simp: new_coordinator_def coord_inv_def accounts_ok_def sums_ok_def recording_sum_def
        slots_ok_def owners_ok_def ring_ok_def)
qed

section \<open>Sums of a growing map\<close>

lemma gomap_sum_dom: "gomap_ok m \<Longrightarrow> gomap_sum f m = (\<Sum>k\<in>dom (map_of m). f (the (map_of m k)))"
proof (induction m)
  case (Cons p m)
  obtain k v where p: "p = (k, v)" by (cases p)
  have fresh: "k \<notin> dom (map_of m)"
    using Cons.prems by (simp add: p dom_map_of_conv_image_fst)
  let ?f = "\<lambda>j. f (the (map_of (p # m) j))"
  have "dom (map_of (p # m)) = insert k (dom (map_of m))"
    by (auto simp: p)
  then have "sum ?f (dom (map_of (p # m))) = ?f k + sum ?f (dom (map_of m))"
    using fresh by (simp only: sum.insert [OF finite_dom_map_of fresh])
  moreover have "sum ?f (dom (map_of m)) = (\<Sum>j\<in>dom (map_of m). f (the (map_of m j)))"
    using fresh by (intro sum.cong) (auto simp: p)
  moreover have "gomap_sum f (p # m) = ?f k + gomap_sum f m"
    by (simp add: p)
  moreover have "gomap_sum f m = (\<Sum>j\<in>dom (map_of m). f (the (map_of m j)))"
    using Cons by simp
  ultimately show ?case
    by linarith
qed simp

lemma gomap_sum_mono:
  assumes "gomap_ok m" "gomap_ok m'"
    "\<And>k r. map_of m k = Some r \<Longrightarrow> \<exists>r'. map_of m' k = Some r' \<and> f r \<le> f r'"
    "\<And>k r. map_of m' k = Some r \<Longrightarrow> 0 \<le> f r"
  shows "gomap_sum f m \<le> gomap_sum f m'"
proof -
  have "dom (map_of m) \<subseteq> dom (map_of m')"
    using assms(3) by fastforce
  moreover have "f (the (map_of m k)) \<le> f (the (map_of m' k))" if "k \<in> dom (map_of m)" for k
    using that assms(3) by force
  moreover have "0 \<le> f (the (map_of m' k))" if "k \<in> dom (map_of m')" for k
    using that assms(4) by force
  ultimately have "(\<Sum>k\<in>dom (map_of m). f (the (map_of m k))) \<le> (\<Sum>k\<in>dom (map_of m'). f (the (map_of m' k)))"
    by (intro order_trans [OF sum_mono sum_mono2]) (auto simp: finite_dom_map_of)
  then show ?thesis
    using assms(1,2) by (simp add: gomap_sum_dom)
qed

text \<open>What the other reservations of a state hold, in all and of one recording.\<close>

definition others_used :: "string \<Rightarrow> coordinator \<Rightarrow> int" where
  "others_used rid c = gomap_sum rv_bytes (AList.delete rid (co_reservations c))"

definition others_recording :: "string \<Rightarrow> string \<Rightarrow> coordinator \<Rightarrow> int" where
  "others_recording rec rid c = recording_sum rec (AList.delete rid (co_reservations c))"

lemma others_used_eq: "coord_inv c \<Longrightarrow> others_used rid c = co_used c - current_bytes c rid"
  using coord_invD(6,7) by (auto simp: others_used_def gomap_sum_delete sums_ok_def split: option.split)

lemma others_recording_eq:
  assumes "coord_inv c" "\<And>r. map_of (co_reservations c) rid = Some r \<Longrightarrow> rv_recording r = rec"
  shows "others_recording rec rid c = bytes_of (co_recording_bytes c) rec - current_bytes c rid"
  using assms bytes_of_account [OF coord_invD(6) [OF assms(1)], of rec] coord_invD(7) [OF assms(1)]
  by (auto simp: others_recording_def recording_sum_def gomap_sum_delete split: option.split)

lemma others_grow:
  assumes "coord_inv c" "coord_inv c'" "grows c c'"
  shows "others_used rid c \<le> others_used rid c'" "others_recording rec rid c \<le> others_recording rec rid c'"
proof -
  have pos: "0 < rv_bytes r" if "map_of (co_reservations c') k = Some r" for k r
    using that coord_invD(6,7) [OF assms(2)] by (auto simp: sums_ok_def list_all_gomap)
  have ok: "gomap_ok (AList.delete rid (co_reservations c))" "gomap_ok (AList.delete rid (co_reservations c'))"
    using coord_invD(7) [OF assms(1)] coord_invD(7) [OF assms(2)] by auto
  have kept: "\<exists>r'. map_of (AList.delete rid (co_reservations c')) k = Some r' \<and> rv_recording r' = rv_recording r \<and>
      rv_bytes r \<le> rv_bytes r'" if found: "map_of (AList.delete rid (co_reservations c)) k = Some r" for k r
  proof -
    have "k \<noteq> rid" "map_of (co_reservations c) k = Some r"
      using found by (auto split: if_splits)
    moreover from this obtain r' where "map_of (co_reservations c') k = Some r'" "rv_recording r' = rv_recording r"
      "rv_bytes r \<le> rv_bytes r'"
      using assms(3) unfolding grows_def by blast
    ultimately show ?thesis by simp
  qed
  show "others_used rid c \<le> others_used rid c'"
    unfolding others_used_def using ok
    by (rule gomap_sum_mono) (use kept pos in \<open>fastforce intro: order_less_imp_le split: if_splits\<close>)+
  show "others_recording rec rid c \<le> others_recording rec rid c'"
    unfolding others_recording_def recording_sum_def using ok
  proof (rule gomap_sum_mono)
    fix k r assume "map_of (AList.delete rid (co_reservations c)) k = Some r"
    from kept [OF this] show "\<exists>r'. map_of (AList.delete rid (co_reservations c')) k = Some r' \<and>
        (if rv_recording r = rec then rv_bytes r else 0) \<le> (if rv_recording r' = rec then rv_bytes r' else 0)"
      by force
  qed (use pos in \<open>auto intro: order_less_imp_le split: if_splits\<close>)
qed

section \<open>Properties\<close>

definition attempt_of :: "coord_op \<Rightarrow> coordinator \<Rightarrow> attempt" where
  "attempt_of p c =
     (case p of
        SetReservation ctx oid rec rid desired \<Rightarrow> fst (set_reservation ctx oid rec rid desired c)
      | AcquireQueue ctx oid job \<Rightarrow> fst (acquire_queue ctx oid job c)
      | AcquireWriter ctx oid wid \<Rightarrow> fst (acquire_writer ctx oid wid c)
      | _ \<Rightarrow> Returned None)"

lemma reservation_keeps_waiting:
  assumes "coord_inv c" "fst (set_reservation ctx oid rec rid desired c) = Waiting"
    "coord_inv c'" "co_limits c' = co_limits c" "grows c c'"
  shows "fst (set_reservation ctx oid rec rid desired c') \<in> {Waiting, Returned (Some ErrResourceLeaseMismatch)}"
proof (cases rule: set_reservation_cases [of ctx oid rec rid desired c])
  case w: waits
  have mine: "\<And>r. map_of (co_reservations c) rid = Some r \<Longrightarrow> rv_recording r = rec"
    using w(8) by blast
  have full: "\<not> (others_used rid c + desired \<le> lim_global (co_limits c) \<and>
      others_recording rec rid c + desired \<le> lim_recording (co_limits c))"
    using w(9) others_used_eq [OF assms(1), of rid] others_recording_eq [OF assms(1) mine, of rid] by auto
  have used': "co_used c' \<le> lim_global (co_limits c)" "bytes_of (co_recording_bytes c') rec \<le> lim_recording (co_limits c)"
    using coord_invD(1) [OF assms(3)] bytes_of_account [OF coord_invD(6) [OF assms(3)]] assms(4)
    by (simp_all add: accounts_ok_def)
  note grow = others_grow(1) [OF assms(1,3,5), of rid] others_grow(2) [OF assms(1,3,5), of rec rid] others_used_eq [OF assms(3), of rid]
  show ?thesis
  proof (cases rule: set_reservation_cases [of ctx oid rec rid desired c'])
    case (same r)
    have "others_recording rec rid c' = bytes_of (co_recording_bytes c') rec - current_bytes c' rid"
      by (intro others_recording_eq [OF assms(3)]) (simp add: same(2,5))
    moreover have "current_bytes c' rid = desired"
      using same(2,3) by simp
    ultimately have "others_used rid c + desired \<le> lim_global (co_limits c) \<and>
        others_recording rec rid c + desired \<le> lim_recording (co_limits c)"
      using grow used' by linarith
    then show ?thesis
      using full by blast
  next
    case ch: changes
    then have rec': "others_recording rec rid c' = bytes_of (co_recording_bytes c') rec - current_bytes c' rid"
      by (intro others_recording_eq [OF assms(3)]) blast
    have "others_used rid c + desired \<le> lim_global (co_limits c) \<and>
        others_recording rec rid c + desired \<le> lim_recording (co_limits c)"
    proof (cases "desired < current_bytes c' rid")
      case True
      then show ?thesis
        using grow rec' used' by linarith
    next
      case False
      then have "co_used c' + (desired - current_bytes c' rid) \<le> lim_global (co_limits c)"
        "bytes_of (co_recording_bytes c') rec + (desired - current_bytes c' rid) \<le> lim_recording (co_limits c)"
        using ch(5) assms(4) by simp_all
      then show ?thesis
        using grow rec' by linarith
    qed
    then show ?thesis
      using full by blast
  qed (use w assms(4) in auto)
qed (use assms(2) in auto)

text \<open>C18: No wake-up is lost.  An attempt that has to wait for bytes, a queue slot or the writer permit
  cannot succeed later, whatever operations run, until the channel it waits on has been closed: in every
  reachable later state with the same channel the attempt still waits, or its reservation identifier has
  been taken by another owner.\<close>

theorem no_wakeup_is_lost:
  assumes "coord_inv c" "attempt_of p c = Waiting" "co_changed (run_coordinator c ops) = co_changed c"
  shows "attempt_of p (run_coordinator c ops) \<in> {Waiting, Returned (Some ErrResourceLeaseMismatch)}"
proof -
  let ?c = "run_coordinator c ops"
  have s: "coord_inv ?c" "co_limits ?c = co_limits c" "grows c ?c"
    using run_steps_to [OF assms(1), of ops] assms(3) by (auto simp: steps_to_def)
  show ?thesis
  proof (cases p)
    case (SetReservation ctx oid rec rid desired)
    then show ?thesis
      using reservation_keeps_waiting [OF assms(1) _ s] assms(2) by (simp add: attempt_of_def)
  next
    case (AcquireQueue ctx oid job)
    have ok: "gomap_ok (co_queue c)"
      using coord_invD(2) [OF assms(1)] by (simp add: slots_ok_def)
    have wait: "fst (acquire_queue ctx oid job c) = Waiting"
      using AcquireQueue assms(2) by (simp add: attempt_of_def)
    have cap: "lim_queue (co_limits ?c) = lim_queue (co_limits c)"
      using s(2) by simp
    have "has_key (co_queue c) k \<Longrightarrow> has_key (co_queue ?c) k" for k
      using s(3) unfolding grows_def by blast
    then have "fst (acquire_queue ctx oid job ?c) = Waiting"
      by (rule queue_pool.waiting_stays [OF wait ok coord_invD(2) [OF s(1)] cap])
    then show ?thesis
      using AcquireQueue by (simp add: attempt_of_def)
  next
    case (AcquireWriter ctx oid wid)
    have ok: "gomap_ok (co_writers c)"
      using coord_invD(5) [OF assms(1)] by (simp add: slots_ok_def)
    have wait: "fst (acquire_writer ctx oid wid c) = Waiting"
      using AcquireWriter assms(2) by (simp add: attempt_of_def)
    have cap: "lim_writers (co_limits ?c) = lim_writers (co_limits c)"
      using s(2) by simp
    have "has_key (co_writers c) k \<Longrightarrow> has_key (co_writers ?c) k" for k
      using s(3) unfolding grows_def by blast
    then have "fst (acquire_writer ctx oid wid ?c) = Waiting"
      by (rule writer_pool.waiting_stays [OF wait ok coord_invD(5) [OF s(1)] cap])
    then show ?thesis
      using AcquireWriter by (simp add: attempt_of_def)
  qed (use assms(2) in \<open>simp_all add: attempt_of_def\<close>)
qed

text \<open>A coordinator whose single queue slot is taken, for the examples.\<close>

definition sample_limits :: limits where
  "sample_limits = \<lparr>lim_global = 10, lim_recording = 8, lim_queue = 1, lim_writers = 1\<rparr>"

definition sample_coordinator :: coordinator where
  "sample_coordinator = \<lparr>co_limits = sample_limits, co_reservations = [], co_recording_bytes = [], co_used = 0,
     co_queue = [(lease_key ''a'' ''j'', ''a'')], co_writers = [], co_changed = 0, co_retention = 100, co_owners = [],
     co_read_total = 0, co_write_total = 0, co_errors_total = 0, co_pending_read = 0, co_pending_write = 0,
     co_last_at = 1, co_current = \<lparr>tp_read = 0, tp_write = 0, tp_read_total = 0, tp_write_total = 0\<rparr>,
     co_samples = [zero_sample, zero_sample], co_start = 0, co_count = 0\<rparr>"

lemma sample_tokens [simp]: "valid_token ''a''" "valid_token ''b''" "valid_token ''j''"
  by (simp_all add: valid_token_def is_alnum_def max_token_length_def less_eq_char_def)

lemma sample_limits_ok [simp]: "validate_limits sample_limits = None"
  by (simp add: validate_limits_def sample_limits_def max_global_buffer_def max_recording_buffer_def max_queue_objects_def)

lemma sample_coordinator_inv: "coord_inv sample_coordinator"
proof -
  have "\<exists>i. valid_token i \<and> lease_key ''a'' ''j'' = lease_key ''a'' i"
    using sample_tokens by blast
  then show ?thesis
    by (simp add: coord_inv_def sample_coordinator_def accounts_ok_def sums_ok_def slots_ok_def owners_ok_def ring_ok_def
        recording_sum_def) (simp add: sample_limits_def)
qed

lemma sample_key_free: "lease_key ''a'' ''j'' \<noteq> lease_key ''b'' ''j''"
  by (simp add: lease_key_inject)

lemma sample_waits: "acquire_queue Active ''b'' ''j'' sample_coordinator = (Waiting, sample_coordinator)"
  using sample_key_free by (auto simp: acquire_queue_def validate_context_and_ids_def validate_ids_def
      sample_coordinator_def sample_limits_def)

theorem no_wakeup_is_lost_witness:
  "attempt_of (AcquireQueue Active ''b'' ''j'')
     (run_coordinator sample_coordinator [AcquireQueue Active ''b'' ''j'']) \<in> {Waiting, Returned (Some ErrResourceLeaseMismatch)}"
  by (rule no_wakeup_is_lost [OF sample_coordinator_inv])
    (simp_all add: attempt_of_def sample_waits run_coordinator_def)

text \<open>C12: The limits hold in every run.  From a new coordinator, whatever operations clients call, the used
  bytes are the sum of the live reservations and within the global limit, each recording's account is the
  sum of its reservations and within its limit, at most the configured number of queue slots and one
  writer permit are held, and the reported queue bytes are the exact, bounded sum of the owners' gauges.\<close>

theorem coordinator_limits_hold:
  assumes "new_coordinator l interval retention started = Inr c0"
  shows "let c = run_coordinator c0 ops; u = coordinator_usage c in
    us_used_bytes u = gomap_sum rv_bytes (co_reservations c) \<and> us_used_bytes u \<le> lim_global l \<and>
    bytes_of (co_recording_bytes c) rec = recording_sum rec (co_reservations c) \<and>
    recording_sum rec (co_reservations c) \<le> lim_recording l \<and>
    int (us_queue_objects u) \<le> lim_queue l \<and> us_active_writers u \<le> 1 \<and>
    us_queue_bytes u = gomap_sum to_queue_bytes (co_owners c) \<and> us_queue_bytes u \<le> lim_global l"
proof -
  let ?c = "run_coordinator c0 ops"
  have c0: "coord_inv c0" "co_limits c0 = l"
    using new_coordinator_inv [OF assms] by auto
  have c: "coord_inv ?c" "co_limits ?c = l"
    using run_steps_to [OF c0(1), of ops] c0(2) by (simp_all add: steps_to_def)
  note inv = coord_invD [OF c(1), unfolded c(2)]
  have l: "lim_global l \<le> max_int64" "lim_writers l = 1"
    using c by (auto simp: coord_inv_def validate_limits_def max_global_buffer_def max_int64_def split: if_splits)
  have owners: "list_all (\<lambda>(_, x). 0 \<le> to_queue_bytes x) (co_owners ?c)"
    "gomap_sum to_queue_bytes (co_owners ?c) \<le> lim_global l"
    using inv(3) c(2) by (auto simp: owners_ok_def)
  have "us_queue_bytes (coordinator_usage ?c) = gomap_sum to_queue_bytes (co_owners ?c)"
    using queue_gauges_exact [OF owners(1), of 0 "Finite 0"] owners(2) l(1)
    by (simp add: coordinator_usage_def case_prod_beta)
  moreover have "us_used_bytes (coordinator_usage ?c) = co_used ?c" "us_queue_objects (coordinator_usage ?c) = length (co_queue ?c)"
    "us_active_writers (coordinator_usage ?c) = length (co_writers ?c)"
    by (simp_all add: coordinator_usage_def case_prod_beta)
  ultimately show ?thesis
    using inv(1,2,5) l(2) owners(2) bytes_of_account [OF inv(6)] c(2)
    by (simp add: Let_def accounts_ok_def sums_ok_def slots_ok_def)
qed

theorem coordinator_limits_hold_witness:
  "\<exists>c0. new_coordinator sample_limits 5 10 None = Inr c0 \<and>
     us_used_bytes (coordinator_usage (run_coordinator c0 [SetReservation Active ''a'' ''a'' ''j'' 7])) \<le> 10"
proof -
  obtain c0 where c0: "new_coordinator sample_limits 5 10 None = Inr c0"
    by (simp add: new_coordinator_def)
  have "us_used_bytes (coordinator_usage (run_coordinator c0 [SetReservation Active ''a'' ''a'' ''j'' 7])) \<le>
      lim_global sample_limits"
    using coordinator_limits_hold [OF c0, where ops = "[SetReservation Active ''a'' ''a'' ''j'' 7]" and rec = "''a''"]
    unfolding Let_def by (elim conjE)
  then show ?thesis
    using c0 by (auto simp: sample_limits_def)
qed

text \<open>A released slot admits the waiter.  When a caller waits for a queue slot and the holder of any
  slot releases it, the channel the caller waits on is closed and its next attempt is granted.\<close>

theorem released_slot_admits_waiter:
  assumes "coord_inv c" "fst (acquire_queue ctx oid job c) = Waiting"
    "has_key (co_queue c) (lease_key x j)" "valid_token x" "valid_token j"
  shows "let c' = snd (release_queue x j c) in
    co_changed c' = co_changed c + 1 \<and> fst (acquire_queue Active oid job c') = Returned None"
proof -
  have "co_changed (snd (release_queue x j c)) = co_changed c + 1"
    using assms(3-5) by (auto simp: release_queue_def validate_ids_def)
  then show ?thesis
    using queue_pool.release_admits [OF assms(2) coord_invD(2) [OF assms(1)] assms(3-5)] by (simp add: Let_def)
qed

theorem released_slot_admits_waiter_witness:
  "fst (acquire_queue Active ''b'' ''j'' (snd (release_queue ''a'' ''j'' sample_coordinator))) = Returned None"
  using released_slot_admits_waiter [OF sample_coordinator_inv, of Active "''b''" "''j''" "''a''" "''j''"]
  by (simp add: sample_waits Let_def) (simp add: sample_coordinator_def)

text \<open>C32: Reclaiming a dead process is exact.  ReleaseOwner removes every reservation, queue slot and writer
  permit of the owner and no other lease, gives back exactly the bytes it held, forgets its telemetry
  baseline, and calling it again changes nothing.\<close>

theorem release_owner_is_exact:
  assumes "coord_inv c" "valid_token oid"
  shows "let c' = snd (release_owner oid c) in fst (release_owner oid c) = None \<and>
    map_of (co_reservations c') rid = (case map_of (co_reservations c) rid of
      Some r \<Rightarrow> if rv_owner r = oid then None else Some r | None \<Rightarrow> None) \<and>
    map_of (co_queue c') k = (case map_of (co_queue c) k of Some x \<Rightarrow> if x = oid then None else Some x | None \<Rightarrow> None) \<and>
    map_of (co_writers c') k = (case map_of (co_writers c) k of Some x \<Rightarrow> if x = oid then None else Some x | None \<Rightarrow> None) \<and>
    co_used c' = co_used c - owner_sum oid (co_reservations c) \<and> map_of (co_owners c') oid = None \<and>
    release_owner oid c' = (None, c')"
proof (rule release_owner_eq [OF assms])
  fix c1 and changed :: bool
  assume r: "release_owner oid c = (None, if changed then signal_changed c1 else c1)" "coord_inv c1"
    "co_used c1 = co_used c - owner_sum oid (co_reservations c)"
    "map_of (co_reservations c1) = (\<lambda>rid. case map_of (co_reservations c) rid of
       Some r \<Rightarrow> if rv_owner r = oid then None else Some r | None \<Rightarrow> None)"
    "co_queue c1 = filter (\<lambda>(_, x). x \<noteq> oid) (co_queue c)"
    "co_writers c1 = filter (\<lambda>(_, x). x \<noteq> oid) (co_writers c)"
    "co_owners c1 = AList.delete oid (co_owners c)"
  let ?c = "snd (release_owner oid c)"
  have c': "coord_inv ?c" "co_reservations ?c = co_reservations c1" "co_queue ?c = co_queue c1"
    "co_writers ?c = co_writers c1" "co_owners ?c = co_owners c1" "co_used ?c = co_used c1"
    using r(1,2) by simp_all
  have none: "\<not> list_ex (\<lambda>(_, r). rv_owner r = oid) (co_reservations ?c)"
    using list_ex_gomap [OF coord_invD(7) [OF c'(1)], of "\<lambda>_ r. rv_owner r = oid"] r(4)
    by (auto simp: c'(2) split: option.splits if_splits)
  have gone: "\<not> list_ex (\<lambda>(_, x). x = oid) (filter (\<lambda>(_, x). x \<noteq> oid) m)" for m :: "(string, string) gomap"
    by (auto simp: list_ex_iff)
  have again: "release_owner oid ?c = (None, ?c)"
  proof (rule release_owner_eq [OF c'(1) assms(2)])
    fix c2 and changed2 :: bool
    assume q: "release_owner oid ?c = (None, if changed2 then signal_changed c2 else c2)"
      "changed2 \<longleftrightarrow> list_ex (\<lambda>(_, r). rv_owner r = oid) (co_reservations ?c) \<or>
         list_ex (\<lambda>(_, x). x = oid) (co_queue ?c) \<or> list_ex (\<lambda>(_, x). x = oid) (co_writers ?c)"
      "\<not> changed2 \<Longrightarrow> c2 = ?c\<lparr>co_owners := AList.delete oid (co_owners ?c)\<rparr>"
    have no: "\<not> changed2"
      using q(2) none gone by (simp add: c'(3,4) r(5,6))
    have "AList.delete oid (co_owners ?c) = co_owners ?c"
      by (rule delete_absent) (simp add: c'(5) r(7))
    then have "c2 = ?c"
      using q(3) [OF no] by simp
    then show ?thesis
      using q(1) no by simp
  qed
  have ok: "gomap_ok (co_queue c)" "gomap_ok (co_writers c)"
    using coord_invD(2,5) [OF assms(1)] by (simp_all add: slots_ok_def)
  have "map_of (co_queue ?c) k = (case map_of (co_queue c) k of Some x \<Rightarrow> if x = oid then None else Some x | None \<Rightarrow> None)"
    "map_of (co_writers ?c) k = (case map_of (co_writers c) k of Some x \<Rightarrow> if x = oid then None else Some x | None \<Rightarrow> None)"
    unfolding c'(3,4) r(5,6) using map_of_filter_gomap [OF ok(1), of "\<lambda>_ x. x \<noteq> oid" k]
      map_of_filter_gomap [OF ok(2), of "\<lambda>_ x. x \<noteq> oid" k] by (simp_all split: option.split)
  moreover have "fst (release_owner oid c) = None"
    using r(1) by simp
  moreover have "map_of (co_reservations ?c) rid = (case map_of (co_reservations c) rid of
      Some r \<Rightarrow> if rv_owner r = oid then None else Some r | None \<Rightarrow> None)"
    unfolding c'(2) r(4) by (rule refl)
  moreover have "co_used ?c = co_used c - owner_sum oid (co_reservations c)"
    unfolding c'(6) by (rule r(3))
  moreover have "map_of (co_owners ?c) oid = None"
    unfolding c'(5) r(7) by simp
  ultimately show ?thesis
    unfolding Let_def using again by blast
qed

theorem release_owner_is_exact_witness:
  "map_of (co_queue (snd (release_owner ''a'' sample_coordinator))) (lease_key ''a'' ''j'') = None"
  using release_owner_is_exact [OF sample_coordinator_inv, of "''a''" "[]" "lease_key ''a'' ''j''"]
  by (simp add: Let_def) (simp add: sample_coordinator_def)

text \<open>C33: The ring implements a bounded time window.  Seen chronologically, a sampler tick that advances the
  clock acts on the ring exactly like appending the new sample to the window, keeping the newest
  \<open>capacity\<close> samples and dropping those older than the retention; the tick also starts a new interval.\<close>

theorem sampler_refines_window:
  assumes "coord_inv c" "co_last_at c \<noteq> 0" "co_last_at c < now" "now \<noteq> 0"
  shows "let elapsed = time_sub now (co_last_at c); c' = sample_telemetry_at rate now c in
    chronological_samples c' =
      window (length (co_samples c)) (co_retention c) (chronological_samples c)
        \<lparr>ts_at = now, ts_read = rate (co_pending_read c) elapsed, ts_write = rate (co_pending_write c) elapsed,
         ts_buffer_used = co_used c, ts_queue_bytes = gomap_sum to_queue_bytes (co_owners c),
         ts_observed_for = elapsed\<rparr> \<and>
    length (co_samples c') = length (co_samples c) \<and> co_pending_read c' = 0 \<and> co_pending_write c' = 0 \<and>
    co_last_at c' = now"
proof -
  define el where "el = time_sub now (co_last_at c)"
  define x where "x = \<lparr>ts_at = now, ts_read = rate (co_pending_read c) el, ts_write = rate (co_pending_write c) el,
      ts_buffer_used = co_used c, ts_queue_bytes = fst (queue_gauges (co_owners c) 0 (Finite 0)), ts_observed_for = el\<rparr>"
  define c0 where "c0 = c\<lparr>co_current := \<lparr>tp_read = ts_read x, tp_write = ts_write x,
      tp_read_total = co_read_total c, tp_write_total = co_write_total c\<rparr>\<rparr>"
  define c2 where "c2 = (append_sample x c0)\<lparr>co_pending_read := 0, co_pending_write := 0, co_last_at := now\<rparr>"
  have "0 < el"
    using assms(3) by (simp add: el_def time_sub_def max_int64_def)
  then have eq: "sample_telemetry_at rate now c = prune_samples (now - co_retention c) c2"
    using assms(2,4) by (simp add: sample_telemetry_at_def sample_telemetry_locked_def Let_def c2_def c0_def x_def el_def)
  have owners: "list_all (\<lambda>(_, x). 0 \<le> to_queue_bytes x) (co_owners c)"
    "gomap_sum to_queue_bytes (co_owners c) \<le> lim_global (co_limits c)"
    using coord_invD(3) [OF assms(1)] by (auto simp: owners_ok_def)
  moreover have "lim_global (co_limits c) \<le> max_int64"
    using assms(1) by (auto simp: coord_inv_def validate_limits_def max_global_buffer_def max_int64_def split: if_splits)
  ultimately have queue: "ts_queue_bytes x = gomap_sum to_queue_bytes (co_owners c)"
    using queue_gauges_exact [OF owners(1), of 0 "Finite 0"] by (simp add: x_def)
  have ring0: "ring_ok c0"
    using coord_invD(4) [OF assms(1)] by (simp add: ring_ok_def c0_def)
  then have ring: "ring_ok c2"
    using append_sample_ring [OF ring0, of x] by (simp add: ring_ok_def c2_def)
  have "chronological_samples c2 = chronological_samples (append_sample x c0)"
    by (simp add: chronological_samples_def c2_def)
  also have "\<dots> = drop (Suc (co_count c0) - length (co_samples c0)) (chronological_samples c0 @ [x])"
    by (rule append_sample_chronological [OF ring0])
  also have "\<dots> = drop (Suc (co_count c) - length (co_samples c)) (chronological_samples c @ [x])"
    by (simp add: chronological_samples_def c0_def)
  finally have "chronological_samples c2 = \<dots>" .
  then have "chronological_samples (sample_telemetry_at rate now c) =
      window (length (co_samples c)) (co_retention c) (chronological_samples c) x"
    using prune_samples_spec [OF ring, of "now - co_retention c"] by (simp add: eq window_def x_def)
  moreover have "x = \<lparr>ts_at = now, ts_read = rate (co_pending_read c) el, ts_write = rate (co_pending_write c) el,
      ts_buffer_used = co_used c, ts_queue_bytes = gomap_sum to_queue_bytes (co_owners c), ts_observed_for = el\<rparr>"
    using queue by (simp add: x_def)
  moreover have "length (co_samples c2) = length (co_samples c)"
    by (simp add: c2_def c0_def)
  moreover have "co_pending_read c2 = 0" "co_pending_write c2 = 0" "co_last_at c2 = now"
    by (simp_all add: c2_def)
  ultimately show ?thesis
    by (simp add: Let_def eq el_def)
qed

lemma sample_ring: "co_last_at sample_coordinator = 1" "co_retention sample_coordinator = 100"
  "chronological_samples sample_coordinator = []" "length (co_samples sample_coordinator) = 2"
  by (simp_all add: sample_coordinator_def chronological_samples_def)

theorem sampler_refines_window_witness:
  "map ts_at (chronological_samples (sample_telemetry_at (\<lambda>b _. b) 7 sample_coordinator)) = [7]"
  using sampler_refines_window [OF sample_coordinator_inv, of 7 "\<lambda>b _. b"]
  by (simp add: Let_def window_def sample_ring)

section \<open>Percentiles\<close>

lemma sorted_prefix_count:
  assumes "sorted ys" "k < length ys" "\<And>x y. P y \<Longrightarrow> x \<le> y \<Longrightarrow> P x"
  shows "P (ys ! k) \<Longrightarrow> Suc k \<le> length (filter P ys)" "\<not> P (ys ! k) \<Longrightarrow> length (filter P ys) \<le> k"
proof -
  have split: "filter P ys = filter P (take k ys) @ filter P (drop k ys)"
    by (metis append_take_drop_id filter_append)
  have low: "x \<le> ys ! k" if "x \<in> set (take k ys)" for x
    using that assms(1,2) by (auto simp: in_set_conv_nth sorted_nth_mono)
  have high: "ys ! k \<le> x" if "x \<in> set (drop k ys)" for x
    using that assms(1,2) by (auto simp: in_set_conv_nth sorted_nth_mono)
  show "Suc k \<le> length (filter P ys)" if "P (ys ! k)"
  proof -
    have "filter P (take k ys) = take k ys"
      using low assms(3) [OF that] by (simp add: filter_id_conv)
    moreover have "drop k ys = ys ! k # drop (Suc k) ys"
      using assms(2) by (simp add: Cons_nth_drop_Suc)
    ultimately show ?thesis
      using assms(2) that by (simp add: split)
  qed
  show "length (filter P ys) \<le> k" if no: "\<not> P (ys ! k)"
  proof -
    have "filter P (drop k ys) = []"
      using high assms(3) no by (auto simp: filter_empty_conv)
    then show ?thesis
      using length_filter_le [of P "take k ys"] by (simp add: split)
  qed
qed

lemma length_filter_sort: "length (filter P (sort xs)) = length (filter P xs)"
  by (metis filter_sort length_sort)

text \<open>C34: The ceiling is the nearest-rank 95th percentile.  For a non-empty list of rates the result is one
  of them, at least 95 percent of the rates do not exceed it, and for every smaller rate fewer than 95
  percent do not exceed that one.\<close>

theorem percentile95_is_nearest_rank:
  assumes "values \<noteq> []"
  shows "percentile95 values \<in> set values \<and>
    95 * length values \<le> 100 * length (filter (\<lambda>v. v \<le> percentile95 values) values) \<and>
    (\<forall>q \<in> set values. q < percentile95 values \<longrightarrow>
       100 * length (filter (\<lambda>v. v \<le> q) values) < 95 * length values)"
proof -
  let ?n = "length values" let ?k = "(19 * ?n + 19) div 20 - 1"
  have n: "0 < ?n"
    using assms by simp
  have p: "percentile95 values = sort values ! ?k"
    using assms by (simp add: percentile95_def)
  define m where "m = (19 * ?n + 19) div 20"
  have "20 * m + (19 * ?n + 19) mod 20 = 19 * ?n + 19" "(19 * ?n + 19) mod 20 < 20"
    unfolding m_def by (rule mult_div_mod_eq) simp
  then have m: "20 * m \<le> 19 * ?n + 19" "19 * ?n < 20 * m + 1" "0 < m"
    using n by linarith+
  have k: "?k < ?n" "19 * ?n \<le> 20 * Suc ?k" "20 * ?k < 19 * ?n"
    unfolding m_def [symmetric] using m by (cases m; simp)+
  note count = sorted_prefix_count [of "sort values" ?k]
  have "Suc ?k \<le> length (filter (\<lambda>v. v \<le> percentile95 values) (sort values))"
    using k(1) by (intro count(1)) (auto simp: p)
  then have "19 * ?n \<le> 20 * length (filter (\<lambda>v. v \<le> percentile95 values) values)"
    using k(2) by (simp add: length_filter_sort)
  moreover have "20 * length (filter (\<lambda>v. v \<le> q) values) < 19 * ?n" if "q < percentile95 values" for q
  proof -
    have "length (filter (\<lambda>v. v \<le> q) (sort values)) \<le> ?k"
      using k(1) that by (intro count(2)) (auto simp: p)
    then show ?thesis
      using k(3) by (simp add: length_filter_sort)
  qed
  moreover have "percentile95 values \<in> set values"
    using k(1) nth_mem [of ?k "sort values"] by (simp add: p)
  ultimately show ?thesis
    by fastforce
qed

theorem percentile95_is_nearest_rank_witness: "percentile95 [3, 9, 5] \<in> set [3, 9, 5 :: u64]"
  using percentile95_is_nearest_rank [of "[3, 9, 5]"] by blast

section \<open>Counters\<close>

lemma update_update [simp]: "AList.update k v (AList.update k v' m) = AList.update k v m"
  by (induction m) auto

text \<open>Telemetry is counted exactly once.  An accepted report adds to each total exactly the growth of the
  owner's counter since its previous report, without wrapping; the same report again is accepted and adds
  nothing; a refused report, with whatever error, changes nothing.\<close>

theorem reports_count_exactly_once:
  assumes "coord_inv c"
  shows "case report_process_telemetry oid rd wr er qb age c of
      (Some e, c') \<Rightarrow> c' = c
    | (None, c') \<Rightarrow>
        unat (co_read_total c') = unat (co_read_total c) + (unat rd - unat (prev_counter c oid to_read)) \<and>
        unat (co_write_total c') = unat (co_write_total c) + (unat wr - unat (prev_counter c oid to_write)) \<and>
        unat (co_errors_total c') = unat (co_errors_total c) + (unat er - unat (prev_counter c oid to_errors)) \<and>
        report_process_telemetry oid rd wr er qb age c' = (None, c')"
proof (cases "report_process_telemetry oid rd wr er qb age c")
  case (Pair e c')
  show ?thesis
  proof (cases e)
    case None
    let ?x = "\<lparr>to_read = rd, to_write = wr, to_errors = er, to_queue_bytes = qb, to_oldest_age = age\<rparr>"
    have acc: "report_process_telemetry oid rd wr er qb age c = (None, c')"
      using Pair None by simp
    note A = report_accepted [OF acc]
    have prev: "prev_counter c' oid f = f ?x" for f
      by (simp add: A(1) prev_counter_def)
    have guards: "validate_ids [oid] = None" "\<not> (qb < 0 \<or> bad_gauge age)" "\<not> lim_global (co_limits c') < qb"
      using acc A(1) by (auto simp: report_process_telemetry_def split: if_splits)
    have fine: "\<not> counters_regress c' oid rd wr er"
      by (simp add: A(1) counters_regress_def)
    have same: "AList.update oid ?x (co_owners c') = co_owners c'"
      by (simp add: A(1))
    have ok: "owners_ok c'"
      using report_owners_ok [OF coord_invD(3) [OF assms], of oid rd wr er qb age] acc by simp
    have sum: "qb + gomap_sum to_queue_bytes (AList.delete oid (co_owners c')) \<le> lim_global (co_limits c')"
    proof -
      have "map_of (co_owners c') oid = Some ?x"
        by (simp add: A(1))
      then show ?thesis
        using ok by (simp add: owners_ok_def gomap_sum_delete)
    qed
    have others: "other_queue_bytes (lim_global (co_limits c')) oid (co_owners c') 0 =
        Some (gomap_sum to_queue_bytes (AList.delete oid (co_owners c')))"
      using other_queue_bytes_exact [of "co_owners c'" 0 oid] ok sum guards(2) by (simp add: owners_ok_def)
    have zero: "added_totals c' 0 0 0 =
        Some (co_read_total c', co_write_total c', co_errors_total c', co_pending_read c', co_pending_write c')"
      using unsigned_less [where ?'a = nat, where ?'b = 64] by (simp add: added_totals_eq)
    have "commit_report oid ?x c' = (None, c')"
      using sum same by (simp add: commit_report_def prev zero others)
    then have "report_process_telemetry oid rd wr er qb age c' = (None, c')"
      using guards fine by (simp add: report_process_telemetry_def)
    moreover have "unat (co_read_total c') = unat (co_read_total c) + (unat rd - unat (prev_counter c oid to_read))"
      "unat (co_write_total c') = unat (co_write_total c) + (unat wr - unat (prev_counter c oid to_write))"
      "unat (co_errors_total c') = unat (co_errors_total c) + (unat er - unat (prev_counter c oid to_errors))"
      using A(2-7) by (simp_all add: A(1) unat_add_u64 unat_sub)
    ultimately show ?thesis
      using acc by simp
  next
    case (Some x)
    then show ?thesis
      using Pair report_refused [of oid rd wr er qb age c x] by simp
  qed
qed

theorem reports_count_exactly_once_witness:
  "case report_process_telemetry ''a'' 5 0 0 2 (Finite 0) sample_coordinator of
      (Some e, c') \<Rightarrow> c' = sample_coordinator | (None, c') \<Rightarrow> unat (co_read_total c') = 5"
  using reports_count_exactly_once [OF sample_coordinator_inv, where oid = "''a''" and rd = 5 and wr = 0 and er = 0 and
      qb = 2 and age = "Finite 0"]
  by (auto simp: prev_counter_def sample_coordinator_def split: prod.splits option.splits)

end
