(* ===== verification/Hls_Playlist.thy ===== *)
theory Hls_Playlist
  imports Domain_Model Go_Encoding
begin

text \<open>
  The playlist parser, \<^verbatim>\<open>internal/hls/parse.go\<close>.  A manifest is its bytes; an error is its message.
  ParseMedia is a fold of one line handler over the lines, with the function's local variables as the
  parser state and one definition per tag.  Three functions of the standard library are arguments
  (record \<open>hls_env\<close>): resolving a reference against a base URL, time.Parse on the two accepted layouts,
  and the rounding of an exact decimal to a float64.
\<close>

section \<open>Environment\<close>

record url_result =
  ur_scheme :: string
  ur_host :: string
  ur_has_user :: bool
  ur_text :: string

text \<open>\<open>env_resolve base ref\<close> is \<open>None\<close> when either does not parse or the reference is empty.\<close>

record hls_env =
  env_resolve :: "string \<Rightarrow> string \<Rightarrow> url_result option"
  env_time :: "string \<Rightarrow> instant option"
  env_round :: "rat \<Rightarrow> rat option"

type_synonym hls_error = string

definition max_manifest_bytes :: nat where "max_manifest_bytes = 4 * 2 ^ 20"
definition max_target_duration :: nat where "max_target_duration = 24 * 60 * 60"

section \<open>Lines\<close>

definition drop_cr :: "string \<Rightarrow> string" where
  "drop_cr s = (if s \<noteq> [] \<and> last s = CHR 0x0D then butlast s else s)"

text \<open>bufio.ScanLines: lines end at a newline, a trailing carriage return is dropped, and an empty last
  line is not reported.\<close>

fun scan_lines :: "string \<Rightarrow> string \<Rightarrow> string list" where
  "scan_lines acc [] = (if acc = [] then [] else [drop_cr (rev acc)])"
| "scan_lines acc (c # rest) =
     (if c = CHR 0x0A then drop_cr (rev acc) # scan_lines [] rest else scan_lines (c # acc) rest)"

definition byte_order_mark :: string where
  "byte_order_mark = [CHR 0xEF, CHR 0xBB, CHR 0xBF]"

definition playlist_line :: "string \<Rightarrow> string" where
  "playlist_line s = trim_space (trim_prefix byte_order_mark s)"

definition playlist_lines :: "string \<Rightarrow> hls_error + string list" where
  "playlist_lines s =
     (if max_manifest_bytes < length s then Inl ''manifest exceeds 4194304 bytes''
      else if length s = max_manifest_bytes \<and> CHR 0x0A \<notin> set s then Inl ''read manifest''
      else let lines = map playlist_line (scan_lines [] s)
           in case lines of
                [] \<Rightarrow> Inl ''empty manifest''
              | first # _ \<Rightarrow> if first \<noteq> ''#EXTM3U'' then Inl ''invalid HLS header'' else Inr lines)"

section \<open>Attribute lists\<close>

definition quote :: char where "quote = CHR 0x22"

definition attr_value :: "string \<Rightarrow> (string \<times> string) option" where
  "attr_value rest =
     (if rest \<noteq> [] \<and> hd rest = quote then
        (case dropWhile (\<lambda>c. c \<noteq> quote) (tl rest) of
           [] \<Rightarrow> None
         | _ # after \<Rightarrow> Some (takeWhile (\<lambda>c. c \<noteq> quote) (tl rest), after))
      else Some (trim_space (takeWhile (\<lambda>c. c \<noteq> CHR '','') rest), dropWhile (\<lambda>c. c \<noteq> CHR '','') rest))"

lemma attr_value_shorter: "attr_value rest = Some (v, after) \<Longrightarrow> length after \<le> length rest"
proof -
  assume a: "attr_value rest = Some (v, after)"
  show ?thesis
  proof (cases "rest \<noteq> [] \<and> hd rest = quote")
    case True
    then obtain q where "dropWhile (\<lambda>c. c \<noteq> quote) (tl rest) = q # after"
      using a by (auto simp: attr_value_def split: list.splits)
    then have "Suc (length after) \<le> length (tl rest)"
      using length_dropWhile_le [of "\<lambda>c. c \<noteq> quote" "tl rest"] by simp
    then show ?thesis
      by simp
  next
    case False
    then show ?thesis
      using a length_dropWhile_le [of "\<lambda>c. c \<noteq> CHR '',''" rest] by (auto simp: attr_value_def)
  qed
qed

definition name_char :: "char \<Rightarrow> bool" where
  "name_char c \<longleftrightarrow> c \<noteq> CHR ''='' \<and> c \<noteq> CHR '',''"

function parse_attrs_from :: "string \<Rightarrow> (string, string) gomap \<Rightarrow> hls_error + (string, string) gomap" where
  "parse_attrs_from raw attrs =
     (if raw = [] then Inr attrs
      else case dropWhile name_char raw of
        [] \<Rightarrow> Inl ''malformed HLS attribute list''
      | c # rest \<Rightarrow>
          if c \<noteq> CHR ''='' then Inl ''malformed HLS attribute list''
          else let key = trim_space (takeWhile name_char raw)
               in if key = [] then Inl ''empty HLS attribute name''
                  else case attr_value rest of
                    None \<Rightarrow> Inl ''unterminated quoted HLS attribute''
                  | Some (value, after) \<Rightarrow>
                      if has_key attrs key then Inl (''duplicate HLS attribute '' @ [quote] @ key @ [quote])
                      else let attrs' = AList.update key value attrs
                           in case after of
                                [] \<Rightarrow> Inr attrs'
                              | d # tail \<Rightarrow>
                                  if d \<noteq> CHR '','' then Inl ''malformed HLS attribute separator''
                                  else if tail = [] then Inl ''trailing HLS attribute separator''
                                  else parse_attrs_from tail attrs')"
  by pat_completeness auto
termination
proof (relation "measure (\<lambda>(raw, _). length raw)", simp)
  fix raw :: string and c rest v after d tail and attrs attrs' :: "(string, string) gomap" and key x
  assume a: "dropWhile name_char raw = c # rest" "attr_value rest = Some x" "(v, after) = x" "after = d # tail"
  have "Suc (length rest) \<le> length raw"
    using length_dropWhile_le [of name_char raw] by (simp add: a(1))
  moreover have "Suc (length tail) \<le> length rest"
    using attr_value_shorter [of rest v after] a(2-4) by simp
  ultimately show "((tail, attrs'), raw, attrs) \<in> measure (\<lambda>(raw, _). length raw)"
    by simp
qed

declare parse_attrs_from.simps [simp del]

definition parse_attrs :: "string \<Rightarrow> hls_error + (string, string) gomap" where
  "parse_attrs raw = (if raw = [] then Inl ''empty HLS attribute list'' else parse_attrs_from raw [])"

text \<open>Reading a missing key of the map yields the empty string.\<close>

definition attr :: "(string, string) gomap \<Rightarrow> string \<Rightarrow> string" where
  "attr m k = (case map_of m k of None \<Rightarrow> [] | Some v \<Rightarrow> v)"

section \<open>Numbers, ranges and URIs\<close>

fun split_on :: "char \<Rightarrow> string \<Rightarrow> string list" where
  "split_on sep [] = [[]]"
| "split_on sep (c # rest) =
     (if c = sep then [] # split_on sep rest
      else case split_on sep rest of [] \<Rightarrow> [[c]] | p # ps \<Rightarrow> (c # p) # ps)"

definition parse_range :: "string \<Rightarrow> u64 \<Rightarrow> hls_error + byte_range" where
  "parse_range s default_offset =
     (let pieces = split_on CHR ''@'' s
      in if 2 < length pieces then Inl (''invalid byte range '' @ s)
         else case parse_uint64 (pieces ! 0) of
           None \<Rightarrow> Inl (''invalid byte range '' @ s)
         | Some len \<Rightarrow>
             if len = 0 then Inl (''invalid byte range '' @ s)
             else case (if length pieces = 2 then parse_uint64 (pieces ! 1) else Some default_offset) of
               None \<Rightarrow> Inl ''invalid byte range offset''
             | Some offset \<Rightarrow>
                 if max_u64 - len < offset then Inl ''byte range end overflows uint64''
                 else Inr \<lparr>br_length = len, br_offset = offset\<rparr>)"

fun decimal_shape :: "bool \<Rightarrow> nat \<Rightarrow> nat \<Rightarrow> string \<Rightarrow> (bool \<times> nat \<times> nat) option" where
  "decimal_shape seen_dot before after [] = Some (seen_dot, before, after)"
| "decimal_shape seen_dot before after (r # rest) =
     (if is_digit r then
        (if seen_dot then decimal_shape seen_dot before (after + 1) rest
         else decimal_shape seen_dot (before + 1) after rest)
      else if r = CHR ''.'' \<and> \<not> seen_dot then decimal_shape True before after rest
      else None)"

definition decimal_value :: "string \<Rightarrow> rat" where
  "decimal_value s =
     (let whole = takeWhile is_digit s; frac = drop (length whole + 1) s
      in of_nat (dec_value (whole @ frac)) / 10 ^ length frac)"

definition parse_decimal_float :: "hls_env \<Rightarrow> string \<Rightarrow> rat option" where
  "parse_decimal_float env s =
     (if s = [] then None
      else case decimal_shape False 0 0 s of
        None \<Rightarrow> None
      | Some (seen_dot, before, after) \<Rightarrow>
          if before = 0 \<or> (seen_dot \<and> after = 0) then None else env_round env (decimal_value s))"

definition resolve_uri :: "hls_env \<Rightarrow> string \<Rightarrow> string \<Rightarrow> hls_error + string" where
  "resolve_uri env base ref =
     (case env_resolve env base (trim_space ref) of
        None \<Rightarrow> Inl ''invalid media URI''
      | Some out \<Rightarrow>
          if (ur_scheme out \<noteq> ''http'' \<and> ur_scheme out \<noteq> ''https'') \<or> ur_host out = []
          then Inl ''URI must resolve to http or https''
          else if ur_has_user out then Inl ''URI user information is unsupported''
          else Inr (ur_text out))"

definition to_lower :: "char \<Rightarrow> char" where
  "to_lower c = (if CHR ''A'' \<le> c \<and> c \<le> CHR ''Z'' then char_of (of_char c + 32 :: nat) else c)"

text \<open>strings.EqualFold against a word without K and S, whose letters have no other case variants.\<close>

definition equal_fold :: "string \<Rightarrow> string \<Rightarrow> bool" where
  "equal_fold s t \<longleftrightarrow> map to_lower s = map to_lower t"

section \<open>Master playlists\<close>

record hls_variant =
  hv_uri :: string
  hv_bandwidth :: int
  hv_audio :: string
  hv_subtitles :: string
  hv_video :: string

definition is_master_playlist :: "string \<Rightarrow> bool" where
  "is_master_playlist s =
     (case playlist_lines s of
        Inl _ \<Rightarrow> False
      | Inr lines \<Rightarrow> list_ex (\<lambda>line. has_prefix ''#EXT-X-STREAM-INF:'' line \<or>
          has_prefix ''#EXT-X-I-FRAME-STREAM-INF:'' line) (tl lines))"

definition stream_inf_variant :: "string \<Rightarrow> hls_error + hls_variant" where
  "stream_inf_variant raw =
     (case parse_attrs raw of
        Inl e \<Rightarrow> Inl e
      | Inr attrs \<Rightarrow>
          (case parse_int64 (attr attrs ''BANDWIDTH'') of
             None \<Rightarrow> Inl ''invalid EXT-X-STREAM-INF BANDWIDTH''
           | Some bw \<Rightarrow>
               if bw \<le> 0 then Inl ''invalid EXT-X-STREAM-INF BANDWIDTH''
               else Inr \<lparr>hv_uri = [], hv_bandwidth = bw, hv_audio = attr attrs ''AUDIO'',
                      hv_subtitles = attr attrs ''SUBTITLES'', hv_video = attr attrs ''VIDEO''\<rparr>))"

definition master_line ::
    "hls_env \<Rightarrow> string \<Rightarrow> string \<Rightarrow> hls_variant list \<times> hls_variant option
       \<Rightarrow> hls_error + hls_variant list \<times> hls_variant option" where
  "master_line env base line st =
     (let (found, pending) = st
      in if has_prefix ''#EXT-X-I-FRAME-STREAM-INF:'' line
         then Inl ''I-frame-only HLS playlists are unsupported''
         else if has_prefix ''#EXT-X-DEFINE:'' line
         then Inl ''HLS variable substitution is unsupported (EXT-X-DEFINE)''
         else if has_prefix ''#EXT-X-MEDIA:'' line then
           (case parse_attrs (trim_prefix ''#EXT-X-MEDIA:'' line) of Inl e \<Rightarrow> Inl e | Inr _ \<Rightarrow> Inr st)
         else if has_prefix ''#EXT-X-SESSION-KEY:'' line
         then Inl ''encrypted HLS is unsupported (EXT-X-SESSION-KEY)''
         else if has_prefix ''#EXT-X-STREAM-INF:'' line then
           (if pending \<noteq> None then Inl ''master playlist has EXT-X-STREAM-INF without a URI''
            else case stream_inf_variant (trim_prefix ''#EXT-X-STREAM-INF:'' line) of
              Inl e \<Rightarrow> Inl e | Inr v \<Rightarrow> Inr (found, Some v))
         else if has_prefix ''#'' line \<or> line = [] then Inr st
         else case pending of
           None \<Rightarrow> Inr st
         | Some v \<Rightarrow> (case resolve_uri env base line of
             Inl e \<Rightarrow> Inl e | Inr uri \<Rightarrow> Inr (found @ [v\<lparr>hv_uri := uri\<rparr>], None)))"

text \<open>The loop over the lines stops at the first error.\<close>

fun fold_lines :: "('l \<Rightarrow> 's \<Rightarrow> hls_error + 's) \<Rightarrow> 'l list \<Rightarrow> 's \<Rightarrow> hls_error + 's" where
  "fold_lines f [] s = Inr s"
| "fold_lines f (x # xs) s = (case f x s of Inl e \<Rightarrow> Inl e | Inr s' \<Rightarrow> fold_lines f xs s')"

definition self_contained :: "hls_variant \<Rightarrow> bool" where
  "self_contained v \<longleftrightarrow> hv_audio v = [] \<and> hv_subtitles v = [] \<and> hv_video v = []"

definition parse_master :: "hls_env \<Rightarrow> string \<Rightarrow> string \<Rightarrow> hls_error + hls_variant list" where
  "parse_master env s base =
     (case playlist_lines s of
        Inl e \<Rightarrow> Inl e
      | Inr lines \<Rightarrow>
          (case fold_lines (master_line env base) lines ([], None) of
             Inl e \<Rightarrow> Inl e
           | Inr (found, pending) \<Rightarrow>
               if pending \<noteq> None then Inl ''master playlist has EXT-X-STREAM-INF without a URI''
               else if found = [] then Inl ''master playlist contains no variants''
               else let compatible = filter self_contained found
                    in if compatible = []
                       then Inl ''master playlist requires external audio, video, or subtitle renditions, which are unsupported''
                       else Inr compatible))"

fun best_variant :: "hls_variant \<Rightarrow> hls_variant list \<Rightarrow> hls_variant" where
  "best_variant best [] = best"
| "best_variant best (v # vs) = best_variant (if hv_bandwidth best < hv_bandwidth v then v else best) vs"

definition select_highest_bandwidth :: "hls_variant list \<Rightarrow> hls_error + hls_variant" where
  "select_highest_bandwidth variants =
     (case variants of [] \<Rightarrow> Inl ''no compatible variants'' | v # vs \<Rightarrow> Inr (best_variant v vs))"

section \<open>Media playlists\<close>

text \<open>The local variables of ParseMedia.\<close>

record media_state =
  st_result :: media_playlist
  st_have_media_sequence :: bool
  st_next_duration :: "rat option"
  st_next_pdt :: "instant option"
  st_discontinuity :: bool
  st_map :: "media_map option"
  st_range :: "byte_range option"
  st_previous_end :: u64
  st_previous_uri :: string
  st_range_implicit :: bool
  st_gap :: bool
  st_sequence :: u64
  st_exhausted :: bool
  st_low_latency :: bool
  st_have_target :: bool
  st_have_sequence_tag :: bool
  st_have_disc_sequence :: bool
  st_seen_discontinuity :: bool
  st_disc_sequence :: u64

definition initial_media_state :: media_state where
  "initial_media_state = \<lparr>
     st_result = \<lparr>mp_target_duration = 0, mp_media_sequence = 0, mp_discontinuity_sequence = 0,
                  mp_segments = [], mp_end_list = False\<rparr>,
     st_have_media_sequence = False, st_next_duration = None, st_next_pdt = None, st_discontinuity = False,
     st_map = None, st_range = None, st_previous_end = 0, st_previous_uri = [], st_range_implicit = False,
     st_gap = False, st_sequence = 0, st_exhausted = False, st_low_latency = False, st_have_target = False,
     st_have_sequence_tag = False, st_have_disc_sequence = False, st_seen_discontinuity = False,
     st_disc_sequence = 0\<rparr>"

abbreviation segments_of :: "media_state \<Rightarrow> media_segment list" where
  "segments_of st \<equiv> mp_segments (st_result st)"

definition on_media_sequence :: "string \<Rightarrow> media_state \<Rightarrow> hls_error + media_state" where
  "on_media_sequence text st =
     (if segments_of st \<noteq> [] \<or> st_have_sequence_tag st
      then Inl ''MEDIA-SEQUENCE appears after media entries''
      else case parse_uint64 text of
        None \<Rightarrow> Inl ''invalid MEDIA-SEQUENCE''
      | Some n \<Rightarrow> Inr (st\<lparr>st_result := (st_result st)\<lparr>mp_media_sequence := n\<rparr>, st_sequence := n,
                        st_have_media_sequence := True, st_have_sequence_tag := True\<rparr>))"

definition on_discontinuity_sequence :: "string \<Rightarrow> media_state \<Rightarrow> hls_error + media_state" where
  "on_discontinuity_sequence text st =
     (if segments_of st \<noteq> [] \<or> st_have_disc_sequence st \<or> st_seen_discontinuity st
      then Inl ''DISCONTINUITY-SEQUENCE appears after a discontinuity or media entry, or is duplicated''
      else case parse_uint64 text of
        None \<Rightarrow> Inl ''invalid DISCONTINUITY-SEQUENCE''
      | Some n \<Rightarrow> Inr (st\<lparr>st_disc_sequence := n,
                        st_result := (st_result st)\<lparr>mp_discontinuity_sequence := n\<rparr>,
                        st_have_disc_sequence := True\<rparr>))"

definition on_target_duration :: "string \<Rightarrow> media_state \<Rightarrow> hls_error + media_state" where
  "on_target_duration text st =
     (if st_have_target st then Inl ''duplicate TARGETDURATION''
      else case parse_uint 32 text of
        None \<Rightarrow> Inl ''invalid TARGETDURATION''
      | Some n \<Rightarrow>
          if n = 0 \<or> max_target_duration < n then Inl ''invalid TARGETDURATION''
          else Inr (st\<lparr>st_result := (st_result st)\<lparr>mp_target_duration := int n\<rparr>, st_have_target := True\<rparr>))"

definition on_extinf :: "hls_env \<Rightarrow> string \<Rightarrow> media_state \<Rightarrow> hls_error + media_state" where
  "on_extinf env text st =
     (if st_next_duration st \<noteq> None then Inl ''EXTINF appears before the previous segment URI''
      else case parse_decimal_float env (takeWhile (\<lambda>c. c \<noteq> CHR '','') text) of
        None \<Rightarrow> Inl ''invalid EXTINF duration''
      | Some d \<Rightarrow>
          if d < 0 \<or> of_nat max_target_duration < d then Inl ''invalid EXTINF duration''
          else Inr (st\<lparr>st_next_duration := Some d\<rparr>))"

definition on_program_date_time :: "hls_env \<Rightarrow> string \<Rightarrow> media_state \<Rightarrow> hls_error + media_state" where
  "on_program_date_time env text st =
     (case env_time env text of
        None \<Rightarrow> Inl ''invalid PROGRAM-DATE-TIME'' | Some t \<Rightarrow> Inr (st\<lparr>st_next_pdt := Some t\<rparr>))"

definition on_map :: "hls_env \<Rightarrow> string \<Rightarrow> string \<Rightarrow> media_state \<Rightarrow> hls_error + media_state" where
  "on_map env base text st =
     (case parse_attrs text of
        Inl e \<Rightarrow> Inl e
      | Inr attrs \<Rightarrow>
          (case resolve_uri env base (attr attrs ''URI'') of
             Inl e \<Rightarrow> Inl (''invalid EXT-X-MAP URI: '' @ e)
           | Inr uri \<Rightarrow>
               (case map_of attrs ''BYTERANGE'' of
                  None \<Rightarrow> Inr (st\<lparr>st_map := Some \<lparr>map_uri = uri, map_byte_range = None\<rparr>\<rparr>)
                | Some raw \<Rightarrow>
                    if CHR ''@'' \<notin> set raw then Inl ''EXT-X-MAP BYTERANGE requires an explicit offset''
                    else case parse_range raw 0 of
                      Inl e \<Rightarrow> Inl e
                    | Inr br \<Rightarrow> Inr (st\<lparr>st_map := Some \<lparr>map_uri = uri, map_byte_range = Some br\<rparr>\<rparr>))))"

definition on_byte_range :: "string \<Rightarrow> media_state \<Rightarrow> hls_error + media_state" where
  "on_byte_range text st =
     (if st_range st \<noteq> None then Inl ''duplicate BYTERANGE before media URI''
      else
        let implicit = (CHR ''@'' \<notin> set text)
        in if implicit \<and> st_previous_uri st = []
           then Inl ''implicit BYTERANGE offset has no previous range''
           else case parse_range text (if implicit then st_previous_end st else 0) of
             Inl e \<Rightarrow> Inl e
           | Inr br \<Rightarrow> Inr (st\<lparr>st_range_implicit := implicit, st_range := Some br\<rparr>))"

definition on_discontinuity :: "media_state \<Rightarrow> hls_error + media_state" where
  "on_discontinuity st =
     (if st_disc_sequence st = max_u64 then Inl ''discontinuity sequence overflows uint64''
      else Inr (st\<lparr>st_seen_discontinuity := True, st_disc_sequence := st_disc_sequence st + 1,
                   st_discontinuity := True\<rparr>))"

definition on_key :: "string \<Rightarrow> media_state \<Rightarrow> hls_error + media_state" where
  "on_key text st =
     (case parse_attrs text of
        Inl e \<Rightarrow> Inl e
      | Inr attrs \<Rightarrow>
          if \<not> equal_fold (attr attrs ''METHOD'') ''NONE''
          then Inl (''encrypted HLS is unsupported (EXT-X-KEY METHOD='' @ [quote] @ attr attrs ''METHOD'' @ [quote] @ '')'')
          else Inr st)"

definition on_media_uri :: "hls_env \<Rightarrow> string \<Rightarrow> string \<Rightarrow> media_state \<Rightarrow> hls_error + media_state" where
  "on_media_uri env base line st =
     (case st_next_duration st of
        None \<Rightarrow> Inl ''media URI without preceding EXTINF''
      | Some dur \<Rightarrow>
          if st_exhausted st then Inl ''media sequence number overflows uint64''
          else
            let st1 = (if st_have_media_sequence st then st
                       else st\<lparr>st_have_media_sequence := True, st_sequence := 0,
                               st_result := (st_result st)\<lparr>mp_media_sequence := 0\<rparr>\<rparr>)
            in case resolve_uri env base line of
              Inl e \<Rightarrow> Inl e
            | Inr uri \<Rightarrow>
                if st_range_implicit st1 \<and> uri \<noteq> st_previous_uri st1
                then Inl ''implicit BYTERANGE offset requires the same resource URI''
                else
                  let seg = \<lparr>ms_sequence = st_sequence st1, ms_discontinuity_sequence = st_disc_sequence st1,
                             ms_uri = uri, ms_duration = dur, ms_program_time = st_next_pdt st1,
                             ms_init = st_map st1, ms_byte_range = st_range st1,
                             ms_discontinuity = st_discontinuity st1, ms_gap = st_gap st1\<rparr>
                  in Inr (st1\<lparr>
                       st_result := (st_result st1)\<lparr>mp_segments := segments_of st1 @ [seg]\<rparr>,
                       st_previous_uri := (case st_range st1 of None \<Rightarrow> [] | Some _ \<Rightarrow> uri),
                       st_previous_end := (case st_range st1 of None \<Rightarrow> 0 | Some r \<Rightarrow> br_offset r + br_length r),
                       st_exhausted := (st_sequence st1 = max_u64),
                       st_sequence := (if st_sequence st1 = max_u64 then st_sequence st1 else st_sequence st1 + 1),
                       st_next_duration := None, st_next_pdt := None, st_range := None,
                       st_discontinuity := False, st_range_implicit := False, st_gap := False\<rparr>))"

definition low_latency_tags :: "string list" where
  "low_latency_tags = [''#EXT-X-PART:'', ''#EXT-X-PART-INF:'', ''#EXT-X-PRELOAD-HINT:'',
     ''#EXT-X-SERVER-CONTROL:'', ''#EXT-X-RENDITION-REPORT:'']"

definition media_line :: "hls_env \<Rightarrow> string \<Rightarrow> string \<Rightarrow> media_state \<Rightarrow> hls_error + media_state" where
  "media_line env base line st =
     (let is = (\<lambda>tag. has_prefix tag line); text = (\<lambda>tag. trim_prefix tag line)
      in if is ''#EXT-X-DEFINE:'' then Inl ''HLS variable substitution is unsupported (EXT-X-DEFINE)''
         else if is ''#EXT-X-I-FRAME-STREAM-INF:'' then Inl ''I-frame-only HLS playlists are unsupported''
         else if is ''#EXT-X-MEDIA-SEQUENCE:'' then on_media_sequence (text ''#EXT-X-MEDIA-SEQUENCE:'') st
         else if is ''#EXT-X-DISCONTINUITY-SEQUENCE:''
         then on_discontinuity_sequence (text ''#EXT-X-DISCONTINUITY-SEQUENCE:'') st
         else if is ''#EXT-X-TARGETDURATION:'' then on_target_duration (text ''#EXT-X-TARGETDURATION:'') st
         else if is ''#EXTINF:'' then on_extinf env (text ''#EXTINF:'') st
         else if is ''#EXT-X-PROGRAM-DATE-TIME:''
         then on_program_date_time env (text ''#EXT-X-PROGRAM-DATE-TIME:'') st
         else if is ''#EXT-X-MAP:'' then on_map env base (text ''#EXT-X-MAP:'') st
         else if is ''#EXT-X-BYTERANGE:'' then on_byte_range (text ''#EXT-X-BYTERANGE:'') st
         else if line = ''#EXT-X-DISCONTINUITY'' then on_discontinuity st
         else if line = ''#EXT-X-GAP'' then Inr (st\<lparr>st_gap := True\<rparr>)
         else if line = ''#EXT-X-ENDLIST'' then Inr (st\<lparr>st_result := (st_result st)\<lparr>mp_end_list := True\<rparr>\<rparr>)
         else if list_ex is low_latency_tags then Inr (st\<lparr>st_low_latency := True\<rparr>)
         else if is ''#EXT-X-SKIP:'' then Inl ''HLS delta updates are unsupported (EXT-X-SKIP)''
         else if is ''#EXT-X-KEY:'' then on_key (text ''#EXT-X-KEY:'') st
         else if is ''#EXT-X-SESSION-KEY:'' then Inl ''encrypted HLS is unsupported (EXT-X-SESSION-KEY)''
         else if line = ''#EXT-X-I-FRAMES-ONLY'' then Inl ''I-frame-only HLS playlists are unsupported''
         else if is ''#'' \<or> line = [] then Inr st
         else on_media_uri env base line st)"

definition parse_media :: "hls_env \<Rightarrow> string \<Rightarrow> string \<Rightarrow> hls_error + media_playlist" where
  "parse_media env s base =
     (case playlist_lines s of
        Inl e \<Rightarrow> Inl e
      | Inr lines \<Rightarrow>
          (case fold_lines (media_line env base) lines initial_media_state of
             Inl e \<Rightarrow> Inl e
           | Inr st \<Rightarrow>
               if st_next_duration st \<noteq> None \<or> st_gap st then Inl ''EXTINF has no media URI''
               else if mp_target_duration (st_result st) = 0
               then Inl ''media playlist is missing TARGETDURATION''
               else if st_low_latency st \<and> segments_of st = []
               then Inl ''low-latency HLS playlist has no completed EXTINF segments''
               else Inr (st_result st)))"

section \<open>Invariant of the media parser\<close>

definition range_ok :: "byte_range \<Rightarrow> bool" where
  "range_ok r \<longleftrightarrow> 0 < br_length r \<and> unat (br_offset r) + unat (br_length r) < 2 ^ 64"

definition safe_uri :: "hls_env \<Rightarrow> string \<Rightarrow> string \<Rightarrow> bool" where
  "safe_uri env base u \<longleftrightarrow> (\<exists>ref out. env_resolve env base ref = Some out \<and>
     (ur_scheme out = ''http'' \<or> ur_scheme out = ''https'') \<and> ur_host out \<noteq> [] \<and> \<not> ur_has_user out \<and>
     ur_text out = u)"

definition map_ok :: "hls_env \<Rightarrow> string \<Rightarrow> media_map \<Rightarrow> bool" where
  "map_ok env base m \<longleftrightarrow> safe_uri env base (map_uri m) \<and> pred_option range_ok (map_byte_range m)"

definition duration_ok :: "rat \<Rightarrow> bool" where
  "duration_ok d \<longleftrightarrow> 0 \<le> d \<and> d \<le> of_nat max_target_duration"

definition segment_ok :: "hls_env \<Rightarrow> string \<Rightarrow> media_segment \<Rightarrow> bool" where
  "segment_ok env base s \<longleftrightarrow> safe_uri env base (ms_uri s) \<and> duration_ok (ms_duration s) \<and>
     pred_option range_ok (ms_byte_range s) \<and> pred_option (map_ok env base) (ms_init s)"

text \<open>The discontinuity sequence in force before segment \<open>i\<close>.\<close>

definition disc_before :: "media_playlist \<Rightarrow> nat \<Rightarrow> u64" where
  "disc_before p i = (if i = 0 then mp_discontinuity_sequence p else ms_discontinuity_sequence (mp_segments p ! (i - 1)))"

definition sequences_ok :: "media_playlist \<Rightarrow> bool" where
  "sequences_ok p \<longleftrightarrow>
     (\<forall>i < length (mp_segments p). unat (ms_sequence (mp_segments p ! i)) = unat (mp_media_sequence p) + i)"

definition discontinuities_ok :: "media_playlist \<Rightarrow> bool" where
  "discontinuities_ok p \<longleftrightarrow>
     (\<forall>i < length (mp_segments p). disc_before p i \<le> ms_discontinuity_sequence (mp_segments p ! i) \<and>
        (ms_discontinuity (mp_segments p ! i) \<longleftrightarrow> disc_before p i < ms_discontinuity_sequence (mp_segments p ! i)))"

definition seq_inv :: "media_state \<Rightarrow> bool" where
  "seq_inv st \<longleftrightarrow> sequences_ok (st_result st) \<and>
     (\<not> st_have_media_sequence st \<longrightarrow> segments_of st = []) \<and>
     (if st_exhausted st then segments_of st \<noteq> []
      else unat (st_sequence st) = unat (mp_media_sequence (st_result st)) + length (segments_of st))"

definition disc_inv :: "media_state \<Rightarrow> bool" where
  "disc_inv st \<longleftrightarrow> discontinuities_ok (st_result st) \<and>
     disc_before (st_result st) (length (segments_of st)) \<le> st_disc_sequence st \<and>
     (st_discontinuity st \<longleftrightarrow> disc_before (st_result st) (length (segments_of st)) < st_disc_sequence st) \<and>
     (segments_of st = [] \<and> \<not> st_seen_discontinuity st \<longrightarrow> \<not> st_discontinuity st)"

definition parts_inv :: "hls_env \<Rightarrow> string \<Rightarrow> media_state \<Rightarrow> bool" where
  "parts_inv env base st \<longleftrightarrow> list_all (segment_ok env base) (segments_of st) \<and>
     pred_option duration_ok (st_next_duration st) \<and> pred_option range_ok (st_range st) \<and>
     pred_option (map_ok env base) (st_map st) \<and>
     0 \<le> mp_target_duration (st_result st) \<and> mp_target_duration (st_result st) \<le> int max_target_duration"

definition media_inv :: "hls_env \<Rightarrow> string \<Rightarrow> media_state \<Rightarrow> bool" where
  "media_inv env base st \<longleftrightarrow> seq_inv st \<and> disc_inv st \<and> parts_inv env base st"

text \<open>Most tags leave everything the sequence and discontinuity parts speak of as it is.\<close>

lemma media_frame:
  assumes "media_inv env base st" "segments_of st' = segments_of st"
    "mp_media_sequence (st_result st') = mp_media_sequence (st_result st)"
    "mp_discontinuity_sequence (st_result st') = mp_discontinuity_sequence (st_result st)"
    "st_have_media_sequence st' = st_have_media_sequence st" "st_exhausted st' = st_exhausted st"
    "st_sequence st' = st_sequence st" "st_disc_sequence st' = st_disc_sequence st"
    "st_discontinuity st' = st_discontinuity st" "st_seen_discontinuity st' = st_seen_discontinuity st"
    "parts_inv env base st \<Longrightarrow> parts_inv env base st'"
  shows "media_inv env base st'"
proof -
  have before: "disc_before (st_result st') = disc_before (st_result st)"
    using assms(2,4) by (simp add: disc_before_def fun_eq_iff)
  then have "discontinuities_ok (st_result st') = discontinuities_ok (st_result st)"
    using assms(2) by (simp add: discontinuities_ok_def)
  then have "disc_inv st' = disc_inv st"
    unfolding disc_inv_def before assms(2,8-10) by simp
  moreover have "seq_inv st' = seq_inv st"
    unfolding seq_inv_def sequences_ok_def assms(2,3,5-7) by simp
  ultimately show ?thesis
    using assms(1,11) by (simp add: media_inv_def)
qed

lemma media_inv_initial: "media_inv env base initial_media_state"
  by (simp add: media_inv_def seq_inv_def disc_inv_def parts_inv_def sequences_ok_def discontinuities_ok_def
      disc_before_def initial_media_state_def)

lemma resolve_uri_safe: "resolve_uri env base ref = Inr u \<Longrightarrow> safe_uri env base u"
  by (auto simp: resolve_uri_def safe_uri_def split: option.splits if_splits)

lemma parse_range_ok:
  assumes "parse_range s d = Inr r"
  shows "range_ok r"
proof -
  obtain len off where r: "r = \<lparr>br_length = len, br_offset = off\<rparr>" "len \<noteq> 0" "\<not> max_u64 - len < off"
    using assms by (auto simp: parse_range_def Let_def split: option.splits if_splits)
  have "unat (max_u64 - len) = 2 ^ 64 - 1 - unat len"
    by (simp add: unat_sub max_u64_def unsigned_minus_1_eq_mask mask_eq_exp_minus_1)
  moreover have "unat len < 2 ^ 64" "0 < unat len"
    using unsigned_less [of len, where ?'a = nat] r(2) by (simp_all add: unat_gt_0)
  ultimately show ?thesis
    using r by (auto simp: range_ok_def word_le_nat_alt not_less word_gt_0)
qed

lemma on_media_sequence_inv:
  assumes "media_inv env base st" "on_media_sequence t st = Inr st'"
  shows "media_inv env base st'"
proof -
  obtain n where st': "segments_of st = []" "st' = st\<lparr>st_result := (st_result st)\<lparr>mp_media_sequence := n\<rparr>, st_sequence := n,
      st_have_media_sequence := True, st_have_sequence_tag := True\<rparr>"
    using assms(2) by (auto simp: on_media_sequence_def split: if_splits option.splits)
  have "disc_before (st_result st') = disc_before (st_result st)"
    by (simp add: st'(2) disc_before_def fun_eq_iff)
  then show ?thesis
    using assms(1) st'(1) by (auto simp: media_inv_def seq_inv_def disc_inv_def parts_inv_def sequences_ok_def
        discontinuities_ok_def st'(2) split: if_splits)
qed

lemma on_discontinuity_sequence_inv:
  assumes "media_inv env base st" "on_discontinuity_sequence t st = Inr st'"
  shows "media_inv env base st'"
proof -
  obtain n where st': "segments_of st = []" "\<not> st_seen_discontinuity st"
    "st' = st\<lparr>st_disc_sequence := n, st_result := (st_result st)\<lparr>mp_discontinuity_sequence := n\<rparr>,
       st_have_disc_sequence := True\<rparr>"
    using assms(2) by (auto simp: on_discontinuity_sequence_def split: if_splits option.splits)
  show ?thesis
    using assms(1) st'(1,2) by (auto simp: media_inv_def seq_inv_def disc_inv_def parts_inv_def sequences_ok_def
        discontinuities_ok_def disc_before_def st'(3) split: if_splits)
qed

lemma on_target_duration_inv:
  assumes "media_inv env base st" "on_target_duration t st = Inr st'"
  shows "media_inv env base st'"
proof -
  obtain n where "n \<le> max_target_duration"
    "st' = st\<lparr>st_result := (st_result st)\<lparr>mp_target_duration := int n\<rparr>, st_have_target := True\<rparr>"
    using assms(2) by (auto simp: on_target_duration_def not_less split: if_splits option.splits)
  then show ?thesis
    by (intro media_frame [OF assms(1)]) (simp_all add: parts_inv_def)
qed

lemma on_extinf_inv:
  assumes "media_inv env base st" "on_extinf env t st = Inr st'"
  shows "media_inv env base st'"
proof -
  obtain d where "duration_ok d" "st' = st\<lparr>st_next_duration := Some d\<rparr>"
    using assms(2) by (auto simp: on_extinf_def duration_ok_def not_less split: if_splits option.splits)
  then show ?thesis
    by (intro media_frame [OF assms(1)]) (simp_all add: parts_inv_def)
qed

lemma on_program_date_time_inv:
  assumes "media_inv env base st" "on_program_date_time env t st = Inr st'"
  shows "media_inv env base st'"
proof -
  obtain d where "st' = st\<lparr>st_next_pdt := Some d\<rparr>"
    using assms(2) by (auto simp: on_program_date_time_def split: option.splits)
  then show ?thesis
    by (intro media_frame [OF assms(1)]) (simp_all add: parts_inv_def)
qed

lemma on_map_inv:
  assumes "media_inv env base st" "on_map env base t st = Inr st'"
  shows "media_inv env base st'"
proof -
  obtain attrs uri where a: "parse_attrs t = Inr attrs" "resolve_uri env base (attr attrs ''URI'') = Inr uri"
    using assms(2) by (auto simp: on_map_def split: sum.splits)
  have "\<exists>br. st' = st\<lparr>st_map := Some \<lparr>map_uri = uri, map_byte_range = br\<rparr>\<rparr> \<and> pred_option range_ok br"
  proof (cases "map_of attrs ''BYTERANGE''")
    case None
    then show ?thesis
      using assms(2) a by (intro exI [of _ None]) (simp add: on_map_def)
  next
    case (Some raw)
    then obtain br where "parse_range raw 0 = Inr br" "st' = st\<lparr>st_map := Some \<lparr>map_uri = uri, map_byte_range = Some br\<rparr>\<rparr>"
      using assms(2) a by (auto simp: on_map_def split: if_splits sum.splits)
    then show ?thesis
      using parse_range_ok by auto
  qed
  then obtain br where st': "st' = st\<lparr>st_map := Some \<lparr>map_uri = uri, map_byte_range = br\<rparr>\<rparr>" "pred_option range_ok br"
    by blast
  have "map_ok env base \<lparr>map_uri = uri, map_byte_range = br\<rparr>"
    using resolve_uri_safe [OF a(2)] st'(2) by (simp add: map_ok_def)
  then show ?thesis
    by (intro media_frame [OF assms(1)]) (simp_all add: parts_inv_def st'(1))
qed

lemma on_byte_range_inv:
  assumes "media_inv env base st" "on_byte_range t st = Inr st'"
  shows "media_inv env base st'"
proof -
  obtain r where r: "parse_range t (if CHR ''@'' \<notin> set t then st_previous_end st else 0) = Inr r"
    "st' = st\<lparr>st_range_implicit := CHR ''@'' \<notin> set t, st_range := Some r\<rparr>"
    using assms(2) by (auto simp: on_byte_range_def Let_def split: if_splits sum.splits)
  show ?thesis
    using parse_range_ok [OF r(1)] by (intro media_frame [OF assms(1)]) (simp_all add: parts_inv_def r(2))
qed

lemma on_discontinuity_inv:
  assumes "media_inv env base st" "on_discontinuity st = Inr st'"
  shows "media_inv env base st'"
proof -
  have st': "st_disc_sequence st \<noteq> max_u64"
    "st' = st\<lparr>st_seen_discontinuity := True, st_disc_sequence := st_disc_sequence st + 1, st_discontinuity := True\<rparr>"
    using assms(2) by (auto simp: on_discontinuity_def split: if_splits)
  let ?before = "disc_before (st_result st) (length (segments_of st))"
  have "?before \<le> st_disc_sequence st"
    using assms(1) by (simp add: media_inv_def disc_inv_def)
  then have "?before < st_disc_sequence st + 1"
    using st'(1) by (simp add: less_u64_succ)
  then show ?thesis
    using assms(1) by (simp add: media_inv_def seq_inv_def disc_inv_def parts_inv_def st'(2))
qed

lemma on_key_eq: "on_key t st = Inr st' \<Longrightarrow> st' = st"
  by (auto simp: on_key_def split: sum.splits if_splits)

text \<open>Appending a segment.\<close>

lemma sequences_ok_append:
  assumes "sequences_ok p" "unat (ms_sequence s) = unat (mp_media_sequence p) + length (mp_segments p)"
  shows "sequences_ok (p\<lparr>mp_segments := mp_segments p @ [s]\<rparr>)"
  using assms by (auto simp: sequences_ok_def nth_append less_Suc_eq)

lemma disc_before_append:
  "i \<le> length (mp_segments p) \<Longrightarrow> disc_before (p\<lparr>mp_segments := mp_segments p @ [s]\<rparr>) i = disc_before p i"
  by (auto simp: disc_before_def nth_append)

lemma discontinuities_ok_append:
  assumes "discontinuities_ok p" "disc_before p (length (mp_segments p)) \<le> ms_discontinuity_sequence s"
    "ms_discontinuity s \<longleftrightarrow> disc_before p (length (mp_segments p)) < ms_discontinuity_sequence s"
  shows "discontinuities_ok (p\<lparr>mp_segments := mp_segments p @ [s]\<rparr>)"
  unfolding discontinuities_ok_def
proof (intro allI impI)
  fix i assume "i < length (mp_segments (p\<lparr>mp_segments := mp_segments p @ [s]\<rparr>))"
  then have i: "i \<le> length (mp_segments p)" by simp
  show "disc_before (p\<lparr>mp_segments := mp_segments p @ [s]\<rparr>) i
         \<le> ms_discontinuity_sequence (mp_segments (p\<lparr>mp_segments := mp_segments p @ [s]\<rparr>) ! i) \<and>
       ms_discontinuity (mp_segments (p\<lparr>mp_segments := mp_segments p @ [s]\<rparr>) ! i) =
       (disc_before (p\<lparr>mp_segments := mp_segments p @ [s]\<rparr>) i
         < ms_discontinuity_sequence (mp_segments (p\<lparr>mp_segments := mp_segments p @ [s]\<rparr>) ! i))"
    unfolding disc_before_append [OF i]
    using assms i by (cases "i = length (mp_segments p)") (auto simp: discontinuities_ok_def nth_append)
qed

lemma on_media_uri_inv:
  assumes "media_inv env base st" "on_media_uri env base line st = Inr st'"
  shows "media_inv env base st'"
proof -
  define st1 where "st1 = (if st_have_media_sequence st then st
       else st\<lparr>st_have_media_sequence := True, st_sequence := 0, st_result := (st_result st)\<lparr>mp_media_sequence := 0\<rparr>\<rparr>)"
  obtain dur uri where a: "st_next_duration st = Some dur" "\<not> st_exhausted st" "resolve_uri env base line = Inr uri"
    using assms(2) by (auto simp: on_media_uri_def Let_def split: option.splits if_splits sum.splits)
  define seg where "seg = \<lparr>ms_sequence = st_sequence st1, ms_discontinuity_sequence = st_disc_sequence st1,
       ms_uri = uri, ms_duration = dur, ms_program_time = st_next_pdt st1,
       ms_init = st_map st1, ms_byte_range = st_range st1,
       ms_discontinuity = st_discontinuity st1, ms_gap = st_gap st1\<rparr>"
  have st': "st' = st1\<lparr>
       st_result := (st_result st1)\<lparr>mp_segments := segments_of st1 @ [seg]\<rparr>,
       st_previous_uri := (case st_range st1 of None \<Rightarrow> [] | Some _ \<Rightarrow> uri),
       st_previous_end := (case st_range st1 of None \<Rightarrow> 0 | Some r \<Rightarrow> br_offset r + br_length r),
       st_exhausted := (st_sequence st1 = max_u64),
       st_sequence := (if st_sequence st1 = max_u64 then st_sequence st1 else st_sequence st1 + 1),
       st_next_duration := None, st_next_pdt := None, st_range := None,
       st_discontinuity := False, st_range_implicit := False, st_gap := False\<rparr>"
    using assms(2) a unfolding on_media_uri_def st1_def [symmetric] seg_def Let_def
    by (simp split: if_splits)
  have inv1: "media_inv env base st1" "st_next_duration st1 = Some dur" "\<not> st_exhausted st1" "st_have_media_sequence st1"
  proof -
    have "disc_before ((st_result st)\<lparr>mp_media_sequence := 0\<rparr>) = disc_before (st_result st)"
      by (simp add: disc_before_def fun_eq_iff)
    then show "media_inv env base st1"
      using assms(1) a(2) by (auto simp: st1_def media_inv_def seq_inv_def disc_inv_def parts_inv_def sequences_ok_def
          discontinuities_ok_def)
  qed (use a in \<open>simp_all add: st1_def\<close>)
  then have parts: "seq_inv st1" "disc_inv st1" "parts_inv env base st1"
    by (simp_all add: media_inv_def)
  let ?p = "st_result st1" let ?n = "length (segments_of st1)"
  have seq: "unat (st_sequence st1) = unat (mp_media_sequence ?p) + ?n"
    using parts(1) inv1(3) by (simp add: seq_inv_def)
  have "sequences_ok (?p\<lparr>mp_segments := segments_of st1 @ [seg]\<rparr>)"
    using parts(1) seq by (intro sequences_ok_append) (simp_all add: seq_inv_def seg_def)
  moreover have "unat (st_sequence st1 + 1) = Suc (unat (st_sequence st1))" if "st_sequence st1 \<noteq> max_u64"
    using that by (rule unat_succ_u64)
  ultimately have "seq_inv st'"
    using seq inv1(4) by (simp add: seq_inv_def st')
  moreover have "discontinuities_ok (?p\<lparr>mp_segments := segments_of st1 @ [seg]\<rparr>)"
    using parts(2) by (intro discontinuities_ok_append) (simp_all add: disc_inv_def seg_def)
  then have "disc_inv st'"
    by (simp add: disc_inv_def st' disc_before_def seg_def)
  moreover have "segment_ok env base seg"
    using parts(3) inv1(2) resolve_uri_safe [OF a(3)] by (simp add: parts_inv_def segment_ok_def seg_def)
  then have "parts_inv env base st'"
    using parts(3) by (simp add: parts_inv_def st')
  ultimately show ?thesis
    by (simp add: media_inv_def)
qed

lemma media_flags_inv:
  assumes "media_inv env base st"
  shows "media_inv env base (st\<lparr>st_gap := g\<rparr>)" "media_inv env base (st\<lparr>st_low_latency := b\<rparr>)"
    "media_inv env base (st\<lparr>st_result := (st_result st)\<lparr>mp_end_list := e\<rparr>\<rparr>)"
  by (rule media_frame [OF assms]; simp add: parts_inv_def)+

text \<open>A step keeps the invariant when it fails or ends in a state that has it; the
  dispatcher is then a chain of conditionals over the handlers.\<close>

definition keeps :: "hls_env \<Rightarrow> string \<Rightarrow> hls_error + media_state \<Rightarrow> bool" where
  "keeps env base r \<longleftrightarrow> (\<forall>st'. r = Inr st' \<longrightarrow> media_inv env base st')"

lemma keepsI: "(\<And>st'. r = Inr st' \<Longrightarrow> media_inv env base st') \<Longrightarrow> keeps env base r"
  by (simp add: keeps_def)

lemma keeps_Inl: "keeps env base (Inl e)"
  by (simp add: keeps_def)

lemma keeps_Inr: "media_inv env base st \<Longrightarrow> keeps env base (Inr st)"
  by (simp add: keeps_def)

lemma keeps_if: "keeps env base a \<Longrightarrow> keeps env base b \<Longrightarrow> keeps env base (if c then a else b)"
  by simp

lemma on_key_inv: "media_inv env base st \<Longrightarrow> on_key t st = Inr st' \<Longrightarrow> media_inv env base st'"
  by (auto dest: on_key_eq)

lemma media_handlers_keep:
  assumes "media_inv env base st"
  shows "keeps env base (on_media_sequence t st)" "keeps env base (on_discontinuity_sequence t st)"
    "keeps env base (on_target_duration t st)" "keeps env base (on_extinf env t st)"
    "keeps env base (on_program_date_time env t st)" "keeps env base (on_map env base t st)"
    "keeps env base (on_byte_range t st)" "keeps env base (on_discontinuity st)"
    "keeps env base (on_key t st)" "keeps env base (on_media_uri env base t st)"
  by (rule keepsI; erule on_media_sequence_inv [OF assms] on_discontinuity_sequence_inv [OF assms]
      on_target_duration_inv [OF assms] on_extinf_inv [OF assms] on_program_date_time_inv [OF assms]
      on_map_inv [OF assms] on_byte_range_inv [OF assms] on_discontinuity_inv [OF assms]
      on_key_inv [OF assms] on_media_uri_inv [OF assms])+

lemma media_line_keeps:
  assumes "media_inv env base st"
  shows "keeps env base (media_line env base line st)"
  unfolding media_line_def Let_def
  by (rule keeps_if keeps_Inl media_handlers_keep [OF assms] keeps_Inr [OF assms]
      keeps_Inr [OF media_flags_inv(1) [OF assms]] keeps_Inr [OF media_flags_inv(2) [OF assms]]
      keeps_Inr [OF media_flags_inv(3) [OF assms]])+

lemma media_line_inv:
  assumes "media_inv env base st" "media_line env base line st = Inr st'"
  shows "media_inv env base st'"
  using media_line_keeps [OF assms(1)] assms(2) by (simp add: keeps_def)

section \<open>Folds over lines\<close>

lemma fold_lines_invariant:
  assumes "fold_lines f xs s = Inr s'" "P s" "\<And>x s s'. P s \<Longrightarrow> f x s = Inr s' \<Longrightarrow> P s'"
  shows "P s'"
  using assms(1,2)
  by (induction xs arbitrary: s) (auto split: sum.splits intro: assms(3))

lemma fold_lines_accepted:
  assumes "fold_lines f xs s = Inr s'" "x \<in> set xs"
  shows "\<exists>s1 s2. f x s1 = Inr s2"
  using assms by (induction xs arbitrary: s) (auto split: sum.splits)

section \<open>Accepted media playlists\<close>

lemma parse_media_state:
  assumes "parse_media env s base = Inr p"
  obtains lines st where "playlist_lines s = Inr lines"
    "fold_lines (media_line env base) lines initial_media_state = Inr st"
    "p = st_result st" "mp_target_duration p \<noteq> 0"
  using assms by (auto simp: parse_media_def split: sum.splits if_splits)

text \<open>C13: An accepted media playlist is well formed: the target duration is between one second and one day,
  the segments are numbered consecutively from the media sequence without wrapping, the discontinuity
  sequence never falls and rises exactly at the marked segments, and every segment has an http(s) URI
  without user information, a duration within a day and a non-empty byte range whose end does not overflow,
  and so has its initialisation map.\<close>
theorem parse_media_well_formed:
  assumes "parse_media env s base = Inr p"
  shows "1 \<le> mp_target_duration p \<and> mp_target_duration p \<le> 86400 \<and> sequences_ok p \<and> discontinuities_ok p \<and>
    list_all (segment_ok env base) (mp_segments p)"
proof -
  obtain lines st where st: "fold_lines (media_line env base) lines initial_media_state = Inr st"
    "p = st_result st" "mp_target_duration p \<noteq> 0"
    by (rule parse_media_state [OF assms])
  have "media_inv env base st"
    using st(1) media_inv_initial by (rule fold_lines_invariant) (rule media_line_inv)
  then show ?thesis
    using st(2,3) by (simp add: media_inv_def seq_inv_def disc_inv_def parts_inv_def max_target_duration_def)
qed

section \<open>Refused media playlists\<close>

lemma has_prefix_Cons [simp]:
  "has_prefix [] s" "\<not> has_prefix (c # p) []" "has_prefix (c # p) (d # s) \<longleftrightarrow> c = d \<and> has_prefix p s"
  by (auto simp: has_prefix_def)

lemma has_prefix_iff: "has_prefix p s \<longleftrightarrow> (\<exists>rest. s = p @ rest)"
  by (metis append_take_drop_id has_prefix_append has_prefix_def)

lemma media_line_key:
  assumes "media_line env base (''#EXT-X-KEY:'' @ raw) st = Inr st'"
  shows "\<exists>attrs. parse_attrs raw = Inr attrs \<and> equal_fold (attr attrs ''METHOD'') ''NONE''"
proof -
  have "media_line env base (''#EXT-X-KEY:'' @ raw) st = on_key raw st"
    by (simp add: media_line_def low_latency_tags_def trim_prefix_def)
  then show ?thesis
    using assms by (auto simp: on_key_def split: sum.splits if_splits)
qed

lemma media_line_unsupported:
  assumes "media_line env base line st = Inr st'"
  shows "\<not> has_prefix ''#EXT-X-DEFINE:'' line" "\<not> has_prefix ''#EXT-X-I-FRAME-STREAM-INF:'' line"
    "\<not> has_prefix ''#EXT-X-SKIP:'' line" "\<not> has_prefix ''#EXT-X-SESSION-KEY:'' line" "line \<noteq> ''#EXT-X-I-FRAMES-ONLY''"
  using assms by (auto simp: has_prefix_iff media_line_def low_latency_tags_def)

text \<open>C17: A playlist that needs anything the recorder cannot archive is refused: when a media playlist is
  accepted, no line asks for variable substitution, delta updates, session keys or I-frame playback, and
  every key line has METHOD NONE, so no encrypted segment is ever recorded as media.\<close>
theorem unsupported_playlists_are_refused:
  assumes "parse_media env s base = Inr p" "playlist_lines s = Inr lines" "line \<in> set lines"
  shows "\<not> has_prefix ''#EXT-X-DEFINE:'' line \<and> \<not> has_prefix ''#EXT-X-SKIP:'' line \<and>
    \<not> has_prefix ''#EXT-X-SESSION-KEY:'' line \<and> \<not> has_prefix ''#EXT-X-I-FRAME-STREAM-INF:'' line \<and>
    line \<noteq> ''#EXT-X-I-FRAMES-ONLY'' \<and>
    (has_prefix ''#EXT-X-KEY:'' line \<longrightarrow>
       (\<exists>attrs. parse_attrs (trim_prefix ''#EXT-X-KEY:'' line) = Inr attrs \<and>
          equal_fold (attr attrs ''METHOD'') ''NONE''))"
proof -
  obtain st where st: "fold_lines (media_line env base) lines initial_media_state = Inr st"
    using assms(2) by (auto intro: parse_media_state [OF assms(1)])
  obtain s1 s2 where step: "media_line env base line s1 = Inr s2"
    using fold_lines_accepted [OF st assms(3)] by blast
  have "\<exists>attrs. parse_attrs (trim_prefix ''#EXT-X-KEY:'' line) = Inr attrs \<and> equal_fold (attr attrs ''METHOD'') ''NONE''"
    if key: "has_prefix ''#EXT-X-KEY:'' line"
  proof -
    obtain raw where line: "line = ''#EXT-X-KEY:'' @ raw"
      using key unfolding has_prefix_iff by blast
    show ?thesis
      using media_line_key [of env base raw s1 s2] step unfolding line trim_prefix_append by blast
  qed
  then show ?thesis
    using media_line_unsupported [OF step] by blast
qed

section \<open>Attribute lists, printed and parsed\<close>

definition render_attr :: "string \<Rightarrow> string \<Rightarrow> string" where
  "render_attr k v = k @ CHR ''='' # quote # v @ [quote]"

fun render_attrs :: "(string \<times> string) list \<Rightarrow> string" where
  "render_attrs [] = []"
| "render_attrs [(k, v)] = render_attr k v"
| "render_attrs ((k, v) # rest) = render_attr k v @ CHR '','' # render_attrs rest"

definition plain_attr :: "string \<times> string \<Rightarrow> bool" where
  "plain_attr = (\<lambda>(k, v). k \<noteq> [] \<and> list_all name_char k \<and> trim_space k = k \<and> quote \<notin> set v)"

lemma takeWhile_stop:
  "list_all P xs \<Longrightarrow> \<not> P y \<Longrightarrow> takeWhile P (xs @ y # ys) = xs"
  "list_all P xs \<Longrightarrow> \<not> P y \<Longrightarrow> dropWhile P (xs @ y # ys) = y # ys"
  "list_all P xs \<Longrightarrow> takeWhile P xs = xs"
  by (induction xs) auto

lemma attr_value_quoted: "quote \<notin> set v \<Longrightarrow> attr_value (quote # v @ quote # after) = Some (v, after)"
proof -
  assume "quote \<notin> set v"
  then have "list_all (\<lambda>c. c \<noteq> quote) v"
    by (auto simp: list_all_iff)
  then show ?thesis
    by (simp add: attr_value_def takeWhile_stop)
qed

lemma parse_attr_step:
  assumes "plain_attr (k, v)" "map_of attrs k = None"
  shows "parse_attrs_from (render_attr k v) attrs = Inr (attrs @ [(k, v)])"
    "tail \<noteq> [] \<Longrightarrow> parse_attrs_from (render_attr k v @ CHR '','' # tail) attrs = parse_attrs_from tail (attrs @ [(k, v)])"
proof -
  have kv: "k \<noteq> []" "list_all name_char k" "trim_space k = k" "quote \<notin> set v" "\<not> name_char CHR ''=''"
    using assms(1) by (auto simp: plain_attr_def name_char_def)
  note stop = takeWhile_stop(1,2) [OF kv(2,5)]
  show "parse_attrs_from (render_attr k v) attrs = Inr (attrs @ [(k, v)])"
    using kv assms(2) attr_value_quoted [OF kv(4), of "[]"]
    by (subst parse_attrs_from.simps) (simp add: render_attr_def stop update_new_key)
  show "parse_attrs_from (render_attr k v @ CHR '','' # tail) attrs = parse_attrs_from tail (attrs @ [(k, v)])"
    if "tail \<noteq> []"
    using kv assms(2) attr_value_quoted [OF kv(4), of "CHR '','' # tail"] that
    by (subst parse_attrs_from.simps) (simp add: render_attr_def stop update_new_key)
qed

lemma render_attrs_not_empty: "kvs \<noteq> [] \<Longrightarrow> render_attrs kvs \<noteq> []"
  by (cases kvs rule: render_attrs.cases) (auto simp: render_attr_def)

lemma parse_attrs_from_render:
  assumes "kvs \<noteq> []" "list_all plain_attr kvs" "distinct (map fst (attrs @ kvs))"
  shows "parse_attrs_from (render_attrs kvs) attrs = Inr (attrs @ kvs)"
  using assms
proof (induction kvs arbitrary: attrs rule: render_attrs.induct)
  case (2 k v)
  then have "map_of attrs k = None"
    by (auto simp: map_of_eq_None_iff)
  then show ?case
    using 2 by (simp add: parse_attr_step)
next
  case (3 k v kv rest)
  then have "map_of attrs k = None"
    by (auto simp: map_of_eq_None_iff)
  then show ?case
    using 3 "3.IH" [of "attrs @ [(k, v)]"] by (auto simp: parse_attr_step render_attrs_not_empty)
qed simp

text \<open>C35: The attribute-list parser inverts printing: any non-empty list of distinct trimmed names with quoted
  values parses back to exactly that list, in order, whatever commas, equals signs or spaces the values
  contain.\<close>
theorem parse_attrs_roundtrip:
  assumes "kvs \<noteq> []" "list_all plain_attr kvs" "distinct (map fst kvs)"
  shows "parse_attrs (render_attrs kvs) = Inr kvs"
  using parse_attrs_from_render [of kvs "[]"] assms by (simp add: parse_attrs_def render_attrs_not_empty)

section \<open>The selected variant\<close>

definition variant_ok :: "hls_env \<Rightarrow> string \<Rightarrow> hls_variant \<Rightarrow> bool" where
  "variant_ok env base v \<longleftrightarrow> 0 < hv_bandwidth v \<and> hv_bandwidth v < 2 ^ 63 \<and> safe_uri env base (hv_uri v)"

definition master_inv :: "hls_env \<Rightarrow> string \<Rightarrow> hls_variant list \<times> hls_variant option \<Rightarrow> bool" where
  "master_inv env base = (\<lambda>(found, pending). list_all (variant_ok env base) found \<and>
     pred_option (\<lambda>v. 0 < hv_bandwidth v \<and> hv_bandwidth v < 2 ^ 63) pending)"

lemma stream_inf_bandwidth:
  "stream_inf_variant raw = Inr v \<Longrightarrow> 0 < hv_bandwidth v \<and> hv_bandwidth v < 2 ^ 63"
  by (auto simp: stream_inf_variant_def dest: parse_int64_bounds split: sum.splits option.splits if_splits)

lemma master_line_inv:
  assumes "master_inv env base st" "master_line env base line st = Inr st'"
  shows "master_inv env base st'"
proof (cases st)
  case (Pair found pending)
  show ?thesis
    using assms stream_inf_bandwidth resolve_uri_safe [of env base line]
    unfolding Pair master_line_def master_inv_def variant_ok_def
    by (auto split: if_splits sum.splits option.splits)
qed

lemma master_start: "master_inv env base ([], None)"
  by (simp add: master_inv_def)

lemma best_variant_spec:
  "\<exists>pre post. best # vs = pre @ best_variant best vs # post \<and>
     (\<forall>u \<in> set pre. hv_bandwidth u < hv_bandwidth (best_variant best vs)) \<and>
     (\<forall>u \<in> set post. hv_bandwidth u \<le> hv_bandwidth (best_variant best vs))"
proof (induction vs arbitrary: best)
  case Nil
  show ?case
    by (intro exI [of _ "[]"]) simp
next
  case (Cons v vs)
  let ?next = "if hv_bandwidth best < hv_bandwidth v then v else best"
  let ?b = "best_variant ?next vs"
  obtain pre post where split: "?next # vs = pre @ ?b # post"
    and low: "\<forall>u \<in> set pre. hv_bandwidth u < hv_bandwidth ?b" "\<forall>u \<in> set post. hv_bandwidth u \<le> hv_bandwidth ?b"
    using Cons.IH [of ?next] by blast
  have next_le: "hv_bandwidth ?next \<le> hv_bandwidth ?b" "pre \<noteq> [] \<Longrightarrow> hv_bandwidth ?next < hv_bandwidth ?b"
    using split low by (cases pre; auto split: if_splits)+
  have b: "best_variant best (v # vs) = ?b"
    by simp
  show ?case
  proof (cases "hv_bandwidth best < hv_bandwidth v")
    case True
    then have "hv_bandwidth best < hv_bandwidth ?b"
      using next_le(1) by simp
    then show ?thesis
      using split low True unfolding b by (intro exI [of _ "best # pre"] exI [of _ post]) simp
  next
    case False
    show ?thesis
    proof (cases pre)
      case Nil
      then show ?thesis
        using split low False unfolding b by (intro exI [of _ "[]"] exI [of _ "v # vs"]) auto
    next
      case (Cons x pre')
      then show ?thesis
        using split low False next_le(2) unfolding b
        by (intro exI [of _ "best # v # pre'"] exI [of _ post]) auto
    qed
  qed
qed

text \<open>C36: The variant that is recorded: an accepted master playlist has a self-contained variant (no external
  audio, subtitle or video group), and the selected one is the first of the largest bandwidth among them,
  its bandwidth is positive and fits an int64, and its URI is http(s) without user information.\<close>
theorem selected_variant_is_first_best:
  assumes "parse_master env s base = Inr vs"
  shows "\<exists>v pre post. select_highest_bandwidth vs = Inr v \<and> vs = pre @ v # post \<and>
    (\<forall>u \<in> set pre. hv_bandwidth u < hv_bandwidth v) \<and> (\<forall>u \<in> set post. hv_bandwidth u \<le> hv_bandwidth v) \<and>
    self_contained v \<and> variant_ok env base v"
proof -
  obtain lines found where found: "fold_lines (master_line env base) lines ([], None) = Inr (found, None)"
    "vs = filter self_contained found" "vs \<noteq> []"
    using assms by (auto simp: parse_master_def Let_def split: sum.splits if_splits)
  have "master_inv env base (found, None)"
    using found(1) by (rule fold_lines_invariant) (auto intro: master_line_inv simp: master_start)
  then have ok: "self_contained v \<and> variant_ok env base v" if "v \<in> set vs" for v
    using that found(2) by (auto simp: master_inv_def list_all_iff)
  obtain v rest where vs: "vs = v # rest"
    using found(3) by (cases vs) auto
  let ?b = "best_variant v rest"
  obtain pre post where b: "vs = pre @ ?b # post" "\<forall>u \<in> set pre. hv_bandwidth u < hv_bandwidth ?b"
    "\<forall>u \<in> set post. hv_bandwidth u \<le> hv_bandwidth ?b"
    using best_variant_spec [of v rest] unfolding vs by blast
  have "?b \<in> set vs"
    unfolding b(1) by simp
  moreover have "select_highest_bandwidth vs = Inr ?b"
    by (simp add: vs select_highest_bandwidth_def)
  ultimately show ?thesis
    using b ok by blast
qed

section \<open>Decimals\<close>

lemma decimal_shape_after_dot:
  "decimal_shape True b a s = (if list_all is_digit s then Some (True, b, a + length s) else None)"
  by (induction s arbitrary: a) auto

lemma decimal_shape_digits: "list_all is_digit w \<Longrightarrow> decimal_shape False b a (w @ r) = decimal_shape False (b + length w) a r"
  by (induction w arbitrary: b) auto

lemma decimal_shape_start: "decimal_shape False b a (c # r) = (if is_digit c then decimal_shape False (b + 1) a r
    else if c = CHR ''.'' \<and> list_all is_digit r then Some (True, b, a + length r) else None)"
  by (simp add: decimal_shape_after_dot)

definition whole_number :: "string \<Rightarrow> bool" where
  "whole_number w \<longleftrightarrow> w \<noteq> [] \<and> list_all is_digit w"

lemma not_digit_dot: "\<not> is_digit CHR ''.''"
  by (simp add: is_digit_def less_eq_char_def)

lemma parse_decimal_whole: "whole_number w \<Longrightarrow> parse_decimal_float env w = env_round env (of_nat (dec_value w))"
  using decimal_shape_digits [of w 0 0 "[]"]
  by (auto simp: whole_number_def parse_decimal_float_def decimal_value_def Let_def takeWhile_stop(3))

lemma foldl_digits:
  "foldl (\<lambda>n c. 10 * n + digit_value c) m f = m * 10 ^ length f + foldl (\<lambda>n c. 10 * n + digit_value c) 0 f"
proof (induction f arbitrary: m)
  case (Cons c f)
  show ?case
    using Cons.IH [of "10 * m + digit_value c"] Cons.IH [of "digit_value c"] by (simp add: algebra_simps)
qed simp

lemma parse_decimal_fraction:
  assumes "whole_number w" "whole_number f"
  shows "parse_decimal_float env (w @ CHR ''.'' # f)
    = env_round env (of_nat (dec_value w) + of_nat (dec_value f) / 10 ^ length f)"
proof -
  have digits: "list_all is_digit w" "list_all is_digit f" "w \<noteq> []" "f \<noteq> []"
    using assms by (auto simp: whole_number_def)
  have "dec_value (w @ f) = dec_value w * 10 ^ length f + dec_value f"
    using foldl_digits [of "dec_value w" f] by (simp add: dec_value_def)
  then have "decimal_value (w @ CHR ''.'' # f) = of_nat (dec_value w) + of_nat (dec_value f) / 10 ^ length f"
    by (simp add: decimal_value_def takeWhile_stop(1,2) [OF digits(1) not_digit_dot] Let_def add_divide_distrib)
  then show ?thesis
    using digits by (simp add: parse_decimal_float_def decimal_shape_digits decimal_shape_after_dot not_digit_dot)
qed

lemma parse_decimal_shape:
  assumes "parse_decimal_float env s \<noteq> None"
  shows "whole_number s \<or> (\<exists>w f. whole_number w \<and> whole_number f \<and> s = w @ CHR ''.'' # f)"
proof -
  let ?w = "takeWhile is_digit s"
  have w: "list_all is_digit ?w"
    by (auto simp: list_all_iff dest: set_takeWhileD)
  have split: "s = ?w @ dropWhile is_digit s"
    by simp
  have shape: "decimal_shape False 0 0 s = decimal_shape False (length ?w) 0 (dropWhile is_digit s)"
    using decimal_shape_digits [OF w, of 0 0 "dropWhile is_digit s"] by simp
  show ?thesis
  proof (cases "dropWhile is_digit s")
    case Nil
    then have "list_all is_digit s"
      using split w by (metis append_Nil2)
    then show ?thesis
      using assms by (auto simp: whole_number_def parse_decimal_float_def)
  next
    case (Cons c f)
    have "\<not> is_digit c"
      using hd_dropWhile [of is_digit s] Cons by simp
    then have "c = CHR ''.'' \<and> list_all is_digit f \<and> ?w \<noteq> [] \<and> f \<noteq> []"
      using assms shape unfolding Cons decimal_shape_start
      by (auto simp: parse_decimal_float_def split: if_splits)
    then show ?thesis
      using split w unfolding Cons whole_number_def by blast
  qed
qed

text \<open>C37: parseDecimalFloat accepts exactly the decimals \<^verbatim>\<open>digits[.digits]\<close> (no sign, exponent, infinity, NaN or
  bare point), and the value it hands to the float conversion is the number they denote.\<close>
theorem parse_decimal_float_is_decimal:
  "parse_decimal_float env s = (if whole_number s then env_round env (of_nat (dec_value s))
     else if \<exists>w f. whole_number w \<and> whole_number f \<and> s = w @ CHR ''.'' # f
     then env_round env (of_nat (dec_value (takeWhile is_digit s))
            + of_nat (dec_value (tl (dropWhile is_digit s))) / 10 ^ length (tl (dropWhile is_digit s)))
     else None)"
proof -
  have "takeWhile is_digit (w @ CHR ''.'' # f) = w \<and> dropWhile is_digit (w @ CHR ''.'' # f) = CHR ''.'' # f"
    if "whole_number w" for w f
    using that takeWhile_stop(1,2) [where P = is_digit and xs = w and ys = f, OF _ not_digit_dot] by (simp add: whole_number_def)
  moreover have "parse_decimal_float env s = None"
    if "\<not> whole_number s" "\<nexists>w f. whole_number w \<and> whole_number f \<and> s = w @ CHR ''.'' # f"
    using parse_decimal_shape [of env s] that by blast
  ultimately show ?thesis
    by (auto simp: parse_decimal_whole parse_decimal_fraction)
qed

section \<open>Examples\<close>

text \<open>An environment in which references resolve to themselves on one host, no date parses and every
  decimal is representable.\<close>

definition plain_env :: hls_env where
  "plain_env = \<lparr>env_resolve = \<lambda>base ref. Some \<lparr>ur_scheme = ''https'', ur_host = ''h'', ur_has_user = False, ur_text = ref\<rparr>,
     env_time = \<lambda>_. None, env_round = Some\<rparr>"

definition unlines :: "string list \<Rightarrow> string" where
  "unlines ls = concat (map (\<lambda>l. l @ [CHR 0x0A]) ls)"

definition sample_lines :: "string list" where
  "sample_lines = [''#EXTM3U'', ''#EXT-X-TARGETDURATION:6'', ''#EXT-X-KEY:METHOD=NONE'', ''#EXTINF:4.5,'', ''a.ts'']"

definition sample_master :: "string list" where
  "sample_master = [''#EXTM3U'', ''#EXT-X-STREAM-INF:BANDWIDTH=8'', ''a'', ''#EXT-X-STREAM-INF:BANDWIDTH=9'', ''b'']"

definition plain_line :: "string \<Rightarrow> bool" where
  "plain_line l \<longleftrightarrow> l \<noteq> [] \<and> graphic (hd l) \<and> graphic (last l) \<and> list_all (\<lambda>c. c \<noteq> CHR 0x0A) l"

lemma not_graphic: "\<not> graphic CHR 0x0D" "\<not> graphic CHR 0xEF"
  by (simp_all add: graphic_def)

lemma scan_plain_line:
  "list_all (\<lambda>c. c \<noteq> CHR 0x0A) l \<Longrightarrow> scan_lines acc (l @ CHR 0x0A # rest) = drop_cr (rev acc @ l) # scan_lines [] rest"
  by (induction l arbitrary: acc) auto

lemma scan_unlines: "list_all plain_line ls \<Longrightarrow> scan_lines [] (unlines ls) = ls"
  by (induction ls) (auto simp: unlines_def plain_line_def scan_plain_line drop_cr_def not_graphic)

lemma playlist_line_plain: "plain_line l \<Longrightarrow> playlist_line l = l"
  using not_graphic(2) by (cases l) (auto simp: plain_line_def playlist_line_def trim_prefix_def byte_order_mark_def trim_space_graphic)

lemma playlist_lines_plain:
  assumes "list_all plain_line ls" "ls \<noteq> []" "hd ls = ''#EXTM3U''" "length (unlines ls) < max_manifest_bytes"
  shows "playlist_lines (unlines ls) = Inr ls"
proof -
  have "map playlist_line ls = ls"
    using assms(1) by (simp add: list_all_iff map_idI playlist_line_plain)
  then show ?thesis
    using assms(2-4) scan_unlines [OF assms(1)]
    by (cases ls) (simp_all add: playlist_lines_def)
qed

lemma attr_plain: "trim_space s = s" if "s \<noteq> []" "list_all graphic s" for s
  using that by (auto intro!: trim_space_graphic simp: list_all_iff)

lemma samples_plain: "playlist_lines (unlines sample_lines) = Inr sample_lines"
  "playlist_lines (unlines sample_master) = Inr sample_master"
  by (rule playlist_lines_plain; simp add: sample_lines_def sample_master_def plain_line_def graphic_def unlines_def
      max_manifest_bytes_def)+

lemma sample_fold: "\<exists>st. fold_lines (media_line plain_env ''b'') sample_lines initial_media_state = Inr st \<and>
    st_next_duration st = None \<and> \<not> st_gap st \<and> \<not> st_low_latency st \<and>
    mp_target_duration (st_result st) = 6 \<and> map ms_duration (segments_of st) = [9 / 2]"
proof -
  let ?run = "fold_lines (media_line plain_env ''b'')"
  let ?s1 = "initial_media_state\<lparr>st_result := (st_result initial_media_state)\<lparr>mp_target_duration := 6\<rparr>, st_have_target := True\<rparr>"
  let ?s2 = "?s1\<lparr>st_next_duration := Some (9 / 2)\<rparr>"
  note tags = media_line_def low_latency_tags_def trim_prefix_def
  have digit: "is_digit CHR ''6''" "is_digit CHR ''4''" "is_digit CHR ''5''"
    by (simp_all add: is_digit_def less_eq_char_def)
  have "media_line plain_env ''b'' ''#EXTM3U'' initial_media_state = Inr initial_media_state"
    by (simp add: tags)
  moreover have "parse_uint 32 ''6'' = Some 6"
    by (simp add: parse_uint_def dec_value_def digit_value_def digit)
  then have "media_line plain_env ''b'' ''#EXT-X-TARGETDURATION:6'' initial_media_state = Inr ?s1"
    by (simp add: tags on_target_duration_def initial_media_state_def max_target_duration_def)
  moreover have "parse_attrs ''METHOD=NONE'' = Inr [(''METHOD'', ''NONE'')]"
    by (simp add: parse_attrs_def parse_attrs_from.simps name_char_def attr_value_def attr_plain graphic_def quote_def)
  then have "media_line plain_env ''b'' ''#EXT-X-KEY:METHOD=NONE'' ?s1 = Inr ?s1"
    by (simp add: tags on_key_def attr_def equal_fold_def)
  moreover have "parse_decimal_float plain_env ''4.5'' = Some (9 / 2)"
    using parse_decimal_fraction [of "''4''" "''5''" plain_env]
    by (simp add: whole_number_def digit dec_value_def digit_value_def plain_env_def)
  then have "media_line plain_env ''b'' ''#EXTINF:4.5,'' ?s1 = Inr ?s2"
    by (simp add: tags on_extinf_def initial_media_state_def max_target_duration_def)
  moreover have "resolve_uri plain_env ''b'' ''a.ts'' = Inr ''a.ts''"
    by (simp add: resolve_uri_def plain_env_def attr_plain graphic_def)
  then have "\<exists>st. media_line plain_env ''b'' ''a.ts'' ?s2 = Inr st \<and>
    st_next_duration st = None \<and> \<not> st_gap st \<and> \<not> st_low_latency st \<and>
    mp_target_duration (st_result st) = 6 \<and> map ms_duration (segments_of st) = [9 / 2]"
    by (simp add: tags on_media_uri_def initial_media_state_def Let_def)
  ultimately show ?thesis
    by (auto simp: sample_lines_def)
qed

lemma sample_accepted: "\<exists>p. parse_media plain_env (unlines sample_lines) ''b'' = Inr p \<and> map ms_duration (mp_segments p) = [9 / 2]"
  using sample_fold by (auto simp: parse_media_def samples_plain)

theorem parse_media_well_formed_witness:
  "\<exists>p. parse_media plain_env (unlines sample_lines) ''b'' = Inr p \<and> map ms_duration (mp_segments p) = [9 / 2] \<and>
     sequences_ok p"
proof -
  from sample_accepted obtain p where
    p: "parse_media plain_env (unlines sample_lines) ''b'' = Inr p \<and> map ms_duration (mp_segments p) = [9 / 2]" ..
  have "sequences_ok p"
    using parse_media_well_formed [OF p [THEN conjunct1]] by (elim conjE)
  then show ?thesis
    by (intro exI [of _ p] conjI p [THEN conjunct1] p [THEN conjunct2])
qed

theorem unsupported_playlists_are_refused_witness:
  "\<exists>attrs. parse_attrs ''METHOD=NONE'' = Inr attrs \<and> equal_fold (attr attrs ''METHOD'') ''NONE''"
proof -
  obtain p where "parse_media plain_env (unlines sample_lines) ''b'' = Inr p"
    using sample_accepted by blast
  then show ?thesis
    using unsupported_playlists_are_refused [of plain_env "unlines sample_lines" "''b''" p sample_lines
        "''#EXT-X-KEY:METHOD=NONE''"]
    by (simp add: samples_plain(1) trim_prefix_def) (simp add: sample_lines_def)
qed

theorem parse_attrs_roundtrip_witness:
  "parse_attrs (render_attrs [(''AUDIO'', ''a,b''), (''URI'', ''x=y'')]) = Inr [(''AUDIO'', ''a,b''), (''URI'', ''x=y'')]"
  by (rule parse_attrs_roundtrip) (simp_all add: plain_attr_def name_char_def quote_def attr_plain graphic_def)

lemma sample_master_accepted:
  "parse_master plain_env (unlines sample_master) ''b''
     = Inr [\<lparr>hv_uri = ''a'', hv_bandwidth = 8, hv_audio = [], hv_subtitles = [], hv_video = []\<rparr>,
            \<lparr>hv_uri = ''b'', hv_bandwidth = 9, hv_audio = [], hv_subtitles = [], hv_video = []\<rparr>]"
proof -
  have bw: "stream_inf_variant (''BANDWIDTH='' @ [d])
      = Inr \<lparr>hv_uri = [], hv_bandwidth = int (digit_value d), hv_audio = [], hv_subtitles = [], hv_video = []\<rparr>"
    if d: "d \<in> {CHR ''8'', CHR ''9''}" for d
  proof -
    have digit: "is_digit CHR ''8''" "is_digit CHR ''9''"
      by (simp_all add: is_digit_def less_eq_char_def)
    have "parse_attrs (''BANDWIDTH='' @ [d]) = Inr [(''BANDWIDTH'', [d])]"
      using d by (auto simp: parse_attrs_def parse_attrs_from.simps name_char_def attr_value_def attr_plain graphic_def quote_def)
    then show ?thesis
      using d by (auto simp: stream_inf_variant_def attr_def parse_int64_def parse_uint_def dec_value_def digit_value_def digit)
  qed
  have uri: "resolve_uri plain_env ''b'' u = Inr u" if "u = ''a'' \<or> u = ''b''" for u
    using that by (auto simp: resolve_uri_def plain_env_def attr_plain graphic_def)
  show ?thesis
    using bw [of "CHR ''8''"] bw [of "CHR ''9''"]
    by (simp add: parse_master_def samples_plain(2), simp add: sample_master_def master_line_def trim_prefix_def uri
        self_contained_def digit_value_def)
qed

theorem selected_variant_is_first_best_witness:
  "\<exists>v. select_highest_bandwidth [\<lparr>hv_uri = ''a'', hv_bandwidth = 8, hv_audio = [], hv_subtitles = [], hv_video = []\<rparr>,
      \<lparr>hv_uri = ''b'', hv_bandwidth = 9, hv_audio = [], hv_subtitles = [], hv_video = []\<rparr>] = Inr v \<and> self_contained v"
  using selected_variant_is_first_best [OF sample_master_accepted] by blast

end
