(* ===== verification/Record_Query.thy ===== *)
theory Record_Query
  imports Complex_Main Go_Encoding
begin

declare map_of_eq_Some_iff [simp del]

text \<open>
  Filtering, sorting and cursor pagination of the recording list, \<^verbatim>\<open>internal/recordquery/query.go\<close>: the
  query of a request and its normal form, the order of the list, the opaque cursor and the page it
  continues.  Case folding, the calendar and float formats of the standard library, the JSON codec of the
  cursor and the SHA-256 digest of the filters are arguments (record \<open>query_env\<close>); UTF-8 validity, base64,
  hexadecimal and decimal integers are modelled.  The preview summary of an item is carried and never
  read, so it is left out.
\<close>

section \<open>Items, queries and errors\<close>

text \<open>A float64: a finite value, an infinity or NaN.\<close>

datatype go_float = Finite rat | Infinite bool | Not_a_number

record query_item =
  it_id :: string
  it_title :: string
  it_adapter_id :: string
  it_adapter_name :: string
  it_state :: string
  it_resource_type :: string
  it_resource_id :: string
  it_tags :: "string list"
  it_started_at :: instant
  it_created_at :: instant
  it_duration :: go_float
  it_archive_size :: int
  it_media_size :: int
  it_manifest_size :: int
  it_init_size :: int
  it_segment_count :: int
  it_init_segment_count :: int
  it_snapshot_count :: int
  it_gap_count :: int
  it_gap_segment_count :: int
  it_gap_duration :: "go_float option"
  it_integrity :: string

record query =
  qy_q :: string
  qy_state :: string
  qy_adapter :: string
  qy_resource_type :: string
  qy_started_after :: "instant option"
  qy_started_before :: "instant option"
  qy_has_gaps :: "bool option"
  qy_integrity :: string
  qy_tag :: string
  qy_sort :: string
  qy_limit :: int
  qy_cursor :: string

record query_result =
  qr_items :: "query_item list"
  qr_next_cursor :: string
  qr_total :: nat

record cursor_data =
  cd_version :: int
  cd_key :: string
  cd_value :: string
  cd_id :: string
  cd_fingerprint :: string

record query_filter =
  qf_q :: string
  qf_state :: string
  qf_adapter :: string
  qf_resource_type :: string
  qf_started_after :: string
  qf_started_before :: string
  qf_has_gaps :: "bool option"
  qf_integrity :: string
  qf_tag :: string
  qf_sort :: string

text \<open>The error is the message wrapped around errInvalidQuery.\<close>

type_synonym query_error = string

text \<open>\<open>qe_time layout\<close> is time.Parse, \<open>qe_format\<close> the RFC3339Nano text of a UTC time, \<open>qe_float\<close> and
  \<open>qe_format_float\<close> are ParseFloat and FormatFloat with the shortest representation, \<open>qe_json\<close> and
  \<open>qe_unjson\<close> marshal and unmarshal a cursor, and \<open>qe_digest\<close> is the digest of the marshalled filters.\<close>

record query_env =
  qe_lower :: "string \<Rightarrow> string"
  qe_fold :: "string \<Rightarrow> string \<Rightarrow> bool"
  qe_time :: "string \<Rightarrow> string \<Rightarrow> instant option"
  qe_format :: "instant \<Rightarrow> string"
  qe_float :: "string \<Rightarrow> go_float option"
  qe_format_float :: "go_float \<Rightarrow> string"
  qe_json :: "cursor_data \<Rightarrow> string"
  qe_unjson :: "string \<Rightarrow> cursor_data option"
  qe_digest :: "query_filter \<Rightarrow> string"

definition rfc3339 :: string where "rfc3339 = ''2006-01-02T15:04:05Z07:00''"
definition rfc3339_nano :: string where "rfc3339_nano = ''2006-01-02T15:04:05.999999999Z07:00''"

definition default_limit :: int where "default_limit = 50"
definition maximum_limit :: int where "maximum_limit = 100"
definition max_cursor_len :: nat where "max_cursor_len = 4096"
definition max_filter_len :: nat where "max_filter_len = 128"

section \<open>Sort keys and the order of the list\<close>

definition valid_sorts :: "(string, string) gomap" where
  "valid_sorts =
     [(''started_at'', ''started_at''), (''-started_at'', ''started_at''), (''created_at'', ''created_at''),
      (''-created_at'', ''created_at''), (''duration'', ''duration''), (''-duration'', ''duration''),
      (''size'', ''size''), (''-size'', ''size'')]"

definition sort_column :: "string \<Rightarrow> string" where
  "sort_column key = (case map_of valid_sorts key of None \<Rightarrow> [] | Some c \<Rightarrow> c)"

fun float_less :: "go_float \<Rightarrow> go_float \<Rightarrow> bool" where
  "float_less (Finite a) (Finite b) \<longleftrightarrow> a < b"
| "float_less Not_a_number _ \<longleftrightarrow> False"
| "float_less _ Not_a_number \<longleftrightarrow> False"
| "float_less (Infinite neg) (Finite _) \<longleftrightarrow> neg"
| "float_less (Finite _) (Infinite neg) \<longleftrightarrow> \<not> neg"
| "float_less (Infinite a) (Infinite b) \<longleftrightarrow> a \<and> \<not> b"

definition compare_with :: "('a \<Rightarrow> 'a \<Rightarrow> bool) \<Rightarrow> 'a \<Rightarrow> 'a \<Rightarrow> int" where
  "compare_with lt a b = (if lt a b then - 1 else if lt b a then 1 else 0)"

definition compare_time :: "instant \<Rightarrow> instant \<Rightarrow> int" where
  "compare_time = compare_with (<)"

definition compare_float :: "go_float \<Rightarrow> go_float \<Rightarrow> int" where
  "compare_float = compare_with float_less"

definition compare_int64 :: "int \<Rightarrow> int \<Rightarrow> int" where
  "compare_int64 = compare_with (<)"

text \<open>strings.Compare orders the bytes lexicographically.\<close>

definition compare_string :: "string \<Rightarrow> string \<Rightarrow> int" where
  "compare_string = compare_with (<)"

definition compare_items :: "query_item \<Rightarrow> query_item \<Rightarrow> string \<Rightarrow> int" where
  "compare_items a b sort_by =
     (let desc = has_prefix ''-'' sort_by; key = trim_prefix ''-'' sort_by;
          primary = (if key = ''started_at'' then compare_time (it_started_at a) (it_started_at b)
                     else if key = ''created_at'' then compare_time (it_created_at a) (it_created_at b)
                     else if key = ''duration'' then compare_float (it_duration a) (it_duration b)
                     else if key = ''size'' then compare_int64 (it_archive_size a) (it_archive_size b)
                     else 0);
          directed = (if desc then - primary else primary)
      in if directed \<noteq> 0 then directed else compare_string (it_id a) (it_id b))"

text \<open>sort.Slice with the comparison; \<open>sort_items_unique\<close> below shows that on items with distinct ids the
  result does not depend on the algorithm.\<close>

fun insert_item :: "string \<Rightarrow> query_item \<Rightarrow> query_item list \<Rightarrow> query_item list" where
  "insert_item sort_by x [] = [x]"
| "insert_item sort_by x (y # ys) =
     (if compare_items x y sort_by < 0 then x # y # ys else y # insert_item sort_by x ys)"

fun sort_items :: "query_item list \<Rightarrow> string \<Rightarrow> query_item list" where
  "sort_items [] sort_by = []"
| "sort_items (x # xs) sort_by = insert_item sort_by x (sort_items xs sort_by)"

section \<open>Parsing and normalising a query\<close>

definition one_value :: "(string, string list) gomap \<Rightarrow> string \<Rightarrow> query_error + string" where
  "one_value vals key =
     (case map_of vals key of
        None \<Rightarrow> Inr []
      | Some [] \<Rightarrow> Inr []
      | Some [v] \<Rightarrow> Inr (trim_space v)
      | Some _ \<Rightarrow> Inl (key @ '' must occur once''))"

definition parse_limit :: "(string, string list) gomap \<Rightarrow> query_error + int" where
  "parse_limit vals =
     (case one_value vals ''limit'' of
        Inl e \<Rightarrow> Inl e
      | Inr raw \<Rightarrow>
          if raw = [] then Inr default_limit
          else case parse_int64 raw of
            None \<Rightarrow> Inl ''limit must be a non-negative integer''
          | Some limit \<Rightarrow>
              if limit < 0 then Inl ''limit must be a non-negative integer''
              else if limit = 0 then Inr default_limit
              else if maximum_limit < limit then Inr maximum_limit
              else Inr limit)"

definition parse_date :: "query_env \<Rightarrow> (string, string list) gomap \<Rightarrow> string \<Rightarrow> query_error + instant option" where
  "parse_date env vals key =
     (case one_value vals key of
        Inl e \<Rightarrow> Inl e
      | Inr raw \<Rightarrow>
          if raw = [] then Inr None
          else case qe_time env rfc3339 raw of
            None \<Rightarrow> Inl (key @ '' must be RFC3339'')
          | Some t \<Rightarrow> Inr (Some t))"

definition parse_bool :: "string \<Rightarrow> bool option" where
  "parse_bool s =
     (if s \<in> set [''1'', ''t'', ''T'', ''true'', ''TRUE'', ''True''] then Some True
      else if s \<in> set [''0'', ''f'', ''F'', ''false'', ''FALSE'', ''False''] then Some False
      else None)"

definition valid_filter :: "string \<Rightarrow> bool" where
  "valid_filter s \<longleftrightarrow> utf8_valid s \<and> \<not> has_control s"

definition filter_fits :: "string \<Rightarrow> bool" where
  "filter_fits s \<longleftrightarrow> length s \<le> max_filter_len \<and> valid_filter s"

definition filters_fit :: "query \<Rightarrow> bool" where
  "filters_fit q \<longleftrightarrow> filter_fits (qy_q q) \<and> filter_fits (qy_state q) \<and> filter_fits (qy_adapter q) \<and>
     filter_fits (qy_resource_type q) \<and> filter_fits (qy_integrity q) \<and> filter_fits (qy_tag q)"

definition dates_in_order :: "query \<Rightarrow> bool" where
  "dates_in_order q \<longleftrightarrow>
     (case (qy_started_after q, qy_started_before q) of (Some a, Some b) \<Rightarrow> \<not> b < a | _ \<Rightarrow> True)"

definition trimmed_query :: "query \<Rightarrow> query" where
  "trimmed_query q = q\<lparr>qy_q := trim_space (qy_q q), qy_state := trim_space (qy_state q),
     qy_adapter := trim_space (qy_adapter q), qy_resource_type := trim_space (qy_resource_type q),
     qy_integrity := trim_space (qy_integrity q), qy_tag := trim_space (qy_tag q),
     qy_cursor := trim_space (qy_cursor q),
     qy_sort := (if trim_space (qy_sort q) = [] then ''-started_at'' else trim_space (qy_sort q))\<rparr>"

definition normalize_query :: "query \<Rightarrow> query_error + query" where
  "normalize_query q0 =
     (let q1 = trimmed_query q0
      in if \<not> has_key valid_sorts (qy_sort q1) then Inl ''unsupported sort''
         else if qy_limit q1 < 0 then Inl ''limit must be non-negative''
         else
           let l = (if qy_limit q1 = 0 then default_limit else qy_limit q1);
               q = q1\<lparr>qy_limit := (if maximum_limit < l then maximum_limit else l)\<rparr>
           in if \<not> filters_fit q then Inl ''filter is invalid or too long''
              else if \<not> dates_in_order q then Inl ''started_after must not be after started_before''
              else if max_cursor_len < length (qy_cursor q) then Inl ''cursor is too long''
              else Inr q)"

definition allowed_parameters :: "string list" where
  "allowed_parameters = [''q'', ''state'', ''adapter'', ''resource_type'', ''started_after'', ''started_before'',
     ''has_gaps'', ''integrity'', ''tag'', ''sort'', ''limit'', ''cursor'']"

definition parse_gaps :: "(string, string list) gomap \<Rightarrow> query_error + bool option" where
  "parse_gaps vals =
     (case one_value vals ''has_gaps'' of
        Inl e \<Rightarrow> Inl e
      | Inr raw \<Rightarrow>
          if raw = [] then Inr None
          else case parse_bool raw of None \<Rightarrow> Inl ''has_gaps must be true or false'' | Some v \<Rightarrow> Inr (Some v))"

text \<open>The reads happen one after another and the first error returns.\<close>

definition bind_sum :: "'e + 'a \<Rightarrow> ('a \<Rightarrow> 'e + 'b) \<Rightarrow> 'e + 'b" where
  "bind_sum r f = (case r of Inl e \<Rightarrow> Inl e | Inr a \<Rightarrow> f a)"

definition parse_query :: "query_env \<Rightarrow> (string, string list) gomap \<Rightarrow> query_error + query" where
  "parse_query env vals =
     (if list_ex (\<lambda>(key, entries). key \<notin> set allowed_parameters \<or> 1 < length entries) vals
      then Inl ''unsupported or repeated query parameter''
      else
        bind_sum (one_value vals ''q'') (\<lambda>text.
        bind_sum (one_value vals ''state'') (\<lambda>state.
        bind_sum (one_value vals ''adapter'') (\<lambda>adapter.
        bind_sum (one_value vals ''resource_type'') (\<lambda>resource.
        bind_sum (one_value vals ''integrity'') (\<lambda>integrity.
        bind_sum (one_value vals ''tag'') (\<lambda>tag.
        bind_sum (one_value vals ''sort'') (\<lambda>sort_by.
        bind_sum (one_value vals ''cursor'') (\<lambda>cursor.
        bind_sum (parse_limit vals) (\<lambda>limit.
        bind_sum (parse_date env vals ''started_after'') (\<lambda>after.
        bind_sum (parse_date env vals ''started_before'') (\<lambda>before.
        bind_sum (parse_gaps vals) (\<lambda>gaps.
        normalize_query \<lparr>qy_q = text, qy_state = state, qy_adapter = adapter, qy_resource_type = resource,
          qy_started_after = after, qy_started_before = before, qy_has_gaps = gaps, qy_integrity = integrity,
          qy_tag = tag, qy_sort = sort_by, qy_limit = limit, qy_cursor = cursor\<rparr>)))))))))))))"

section \<open>Cursors\<close>

definition sort_value :: "query_env \<Rightarrow> query_item \<Rightarrow> string \<Rightarrow> query_error + string" where
  "sort_value env item key =
     (if key = ''started_at'' then Inr (qe_format env (it_started_at item))
      else if key = ''created_at'' then Inr (qe_format env (it_created_at item))
      else if key = ''duration'' then Inr (qe_format_float env (it_duration item))
      else if key = ''size'' then Inr (format_int64 (it_archive_size item))
      else Inl ''unsupported cursor key'')"

definition encode_cursor :: "query_env \<Rightarrow> query_item \<Rightarrow> string \<Rightarrow> string \<Rightarrow> query_error + string" where
  "encode_cursor env item sort_by fingerprint =
     (let key = sort_column sort_by
      in bind_sum (sort_value env item key) (\<lambda>val.
           Inr (base64_encode (qe_json env \<lparr>cd_version = 1, cd_key = key, cd_value = val, cd_id = it_id item,
             cd_fingerprint = fingerprint\<rparr>))))"

definition decode_cursor :: "query_env \<Rightarrow> string \<Rightarrow> query_error + cursor_data" where
  "decode_cursor env raw =
     (if max_cursor_len < length raw then Inl ''cursor is too long''
      else case base64_decode raw of
        None \<Rightarrow> Inl ''malformed cursor''
      | Some data \<Rightarrow>
          if max_cursor_len < length data then Inl ''malformed cursor''
          else case qe_unjson env data of
            None \<Rightarrow> Inl ''malformed cursor''
          | Some c \<Rightarrow>
              if cd_id c = [] \<or> cd_key c = [] \<or> cd_value c = [] \<or> cd_fingerprint c = []
              then Inl ''malformed cursor'' else Inr c)"

definition zero_item :: query_item where
  "zero_item = \<lparr>it_id = [], it_title = [], it_adapter_id = [], it_adapter_name = [], it_state = [],
     it_resource_type = [], it_resource_id = [], it_tags = [], it_started_at = 0, it_created_at = 0,
     it_duration = Finite 0, it_archive_size = 0, it_media_size = 0, it_manifest_size = 0, it_init_size = 0,
     it_segment_count = 0, it_init_segment_count = 0, it_snapshot_count = 0, it_gap_count = 0,
     it_gap_segment_count = 0, it_gap_duration = None, it_integrity = []\<rparr>"

definition cursor_item :: "query_env \<Rightarrow> cursor_data \<Rightarrow> string \<Rightarrow> query_error + query_item" where
  "cursor_item env c sort_by =
     (let item = zero_item\<lparr>it_id := cd_id c\<rparr>; key = sort_column sort_by
      in if key = ''started_at'' \<or> key = ''created_at'' then
           (case qe_time env rfc3339_nano (cd_value c) of
              None \<Rightarrow> Inl ''malformed cursor value''
            | Some t \<Rightarrow> Inr (if key = ''started_at'' then item\<lparr>it_started_at := t\<rparr> else item\<lparr>it_created_at := t\<rparr>))
         else if key = ''duration'' then
           (case qe_float env (cd_value c) of
              Some (Finite d) \<Rightarrow> Inr (item\<lparr>it_duration := Finite d\<rparr>)
            | _ \<Rightarrow> Inl ''malformed cursor value'')
         else if key = ''size'' then
           (case parse_int64 (cd_value c) of
              None \<Rightarrow> Inl ''malformed cursor value''
            | Some n \<Rightarrow> Inr (item\<lparr>it_archive_size := n\<rparr>))
         else Inl ''malformed cursor key'')"

definition filter_of :: "query_env \<Rightarrow> query \<Rightarrow> query_filter" where
  "filter_of env q =
     (let date = (\<lambda>d. case d of None \<Rightarrow> [] | Some t \<Rightarrow> qe_format env t)
      in \<lparr>qf_q = qy_q q, qf_state = qy_state q, qf_adapter = qy_adapter q, qf_resource_type = qy_resource_type q,
          qf_started_after = date (qy_started_after q), qf_started_before = date (qy_started_before q),
          qf_has_gaps = qy_has_gaps q, qf_integrity = qy_integrity q, qf_tag = qy_tag q, qf_sort = qy_sort q\<rparr>)"

definition filter_fingerprint :: "query_env \<Rightarrow> query \<Rightarrow> string" where
  "filter_fingerprint env q = hex_encode (qe_digest env (filter_of env q))"

section \<open>Matching and paging\<close>

fun bad_float :: "go_float \<Rightarrow> bool" where
  "bad_float (Finite d) \<longleftrightarrow> d < 0"
| "bad_float _ \<longleftrightarrow> True"

definition validate_item :: "query_item \<Rightarrow> query_error option" where
  "validate_item item =
     (if bad_float (it_duration item) then Some ''invalid duration summary''
      else if it_archive_size item < 0 \<or> it_media_size item < 0 \<or> it_manifest_size item < 0 \<or>
        it_init_size item < 0 \<or> it_segment_count item < 0 \<or> it_init_segment_count item < 0 \<or>
        it_snapshot_count item < 0 \<or> it_gap_count item < 0 \<or> it_gap_segment_count item < 0
      then Some ''invalid statistics summary''
      else if pred_option bad_float (it_gap_duration item) \<and> it_gap_duration item \<noteq> None
      then Some ''invalid gap duration summary''
      else None)"

fun contains :: "string \<Rightarrow> string \<Rightarrow> bool" where
  "contains needle s \<longleftrightarrow> has_prefix needle s \<or> (case s of [] \<Rightarrow> False | _ # rest \<Rightarrow> contains needle rest)"

definition contains_fold :: "query_env \<Rightarrow> string \<Rightarrow> string \<Rightarrow> bool" where
  "contains_fold env s lower_needle \<longleftrightarrow> contains lower_needle (qe_lower env s)"

definition has_tag :: "query_env \<Rightarrow> string list \<Rightarrow> string \<Rightarrow> bool" where
  "has_tag env tags wanted \<longleftrightarrow> list_ex (\<lambda>tag. qe_fold env tag wanted) tags"

definition text_matches :: "query_env \<Rightarrow> query_item \<Rightarrow> string \<Rightarrow> bool" where
  "text_matches env item text \<longleftrightarrow>
     (let needle = qe_lower env text
      in contains_fold env (it_title item) needle \<or> contains_fold env (it_adapter_id item) needle \<or>
         contains_fold env (it_adapter_name item) needle \<or> contains_fold env (it_resource_id item) needle \<or>
         list_ex (\<lambda>tag. contains_fold env tag needle) (it_tags item))"

definition matches :: "query_env \<Rightarrow> query_item \<Rightarrow> query \<Rightarrow> bool" where
  "matches env item q \<longleftrightarrow>
     (qy_q q = [] \<or> text_matches env item (qy_q q)) \<and>
     (qy_state q = [] \<or> it_state item = qy_state q) \<and>
     (qy_adapter q = [] \<or> it_adapter_id item = qy_adapter q) \<and>
     (qy_resource_type q = [] \<or> it_resource_type item = qy_resource_type q) \<and>
     (case qy_started_after q of None \<Rightarrow> True | Some t \<Rightarrow> \<not> it_started_at item < t) \<and>
     (case qy_started_before q of None \<Rightarrow> True | Some t \<Rightarrow> \<not> t < it_started_at item) \<and>
     (case qy_has_gaps q of None \<Rightarrow> True
      | Some b \<Rightarrow> (0 < it_gap_count item \<or> 0 < it_gap_segment_count item) = b) \<and>
     (qy_integrity q = [] \<or> it_integrity item = qy_integrity q) \<and>
     (qy_tag q = [] \<or> has_tag env (it_tags item) (qy_tag q))"

text \<open>The loop over the items, with the ids seen so far.\<close>

fun select_items :: "query_env \<Rightarrow> query \<Rightarrow> string list \<Rightarrow> query_item list \<Rightarrow> query_error + query_item list" where
  "select_items env q seen [] = Inr []"
| "select_items env q seen (item # rest) =
     (if it_id item = [] then Inl ''item ID is required''
      else if it_id item \<in> set seen then Inl ''duplicate item ID''
      else case validate_item item of
        Some e \<Rightarrow> Inl e
      | None \<Rightarrow> bind_sum (select_items env q (it_id item # seen) rest) (\<lambda>found.
          Inr (if matches env item q then item # found else found)))"

definition cursor_of_query :: "query_env \<Rightarrow> query \<Rightarrow> string \<Rightarrow> query_error + cursor_data option" where
  "cursor_of_query env q fingerprint =
     (if qy_cursor q = [] then Inr None
      else bind_sum (decode_cursor env (qy_cursor q)) (\<lambda>c.
        if cd_version c \<noteq> 1 \<or> cd_fingerprint c \<noteq> fingerprint \<or> cd_key c \<noteq> sort_column (qy_sort q)
        then Inl ''cursor does not match query'' else Inr (Some c)))"

definition page_start :: "query_env \<Rightarrow> query \<Rightarrow> cursor_data option \<Rightarrow> query_item list \<Rightarrow> query_error + nat" where
  "page_start env q cursor found =
     (case cursor of
        None \<Rightarrow> Inr 0
      | Some c \<Rightarrow> bind_sum (cursor_item env c (qy_sort q)) (\<lambda>anchor.
          Inr (length (takeWhile (\<lambda>x. compare_items x anchor (qy_sort q) \<le> 0) found))))"

definition page_from :: "query_env \<Rightarrow> query \<Rightarrow> string \<Rightarrow> query_item list \<Rightarrow> nat \<Rightarrow> query_error + query_result" where
  "page_from env q fingerprint found start =
     (let stop = min (start + nat (qy_limit q)) (length found);
          items = take (stop - start) (drop start found)
      in bind_sum (if stop < length found \<and> items \<noteq> []
                   then encode_cursor env (last items) (qy_sort q) fingerprint else Inr []) (\<lambda>next_cursor.
           Inr \<lparr>qr_items = items, qr_next_cursor = next_cursor, qr_total = length found\<rparr>))"

definition page :: "query_env \<Rightarrow> query_item list \<Rightarrow> query \<Rightarrow> query_error + query_result" where
  "page env items q0 =
     bind_sum (normalize_query q0) (\<lambda>q.
     bind_sum (cursor_of_query env q (filter_fingerprint env q)) (\<lambda>cursor.
     bind_sum (select_items env q [] items) (\<lambda>chosen.
     let found = sort_items chosen (qy_sort q)
     in bind_sum (page_start env q cursor found) (\<lambda>start.
        page_from env q (filter_fingerprint env q) found start))))"

section \<open>The order of the list\<close>

definition finite_item :: "query_item \<Rightarrow> bool" where
  "finite_item x \<longleftrightarrow> (\<exists>d. it_duration x = Finite d)"

definition float_value :: "go_float \<Rightarrow> rat" where
  "float_value f = (case f of Finite d \<Rightarrow> d | _ \<Rightarrow> 0)"

text \<open>The number the list is sorted by: the column, negated for a descending sort.\<close>

definition sort_rank :: "string \<Rightarrow> query_item \<Rightarrow> rat" where
  "sort_rank sort_by x =
     (let key = trim_prefix ''-'' sort_by;
          r = (if key = ''started_at'' then of_int (it_started_at x)
               else if key = ''created_at'' then of_int (it_created_at x)
               else if key = ''duration'' then float_value (it_duration x)
               else if key = ''size'' then of_int (it_archive_size x) else 0)
      in if has_prefix ''-'' sort_by then - r else r)"

definition before :: "string \<Rightarrow> query_item \<Rightarrow> query_item \<Rightarrow> bool" where
  "before sort_by x y \<longleftrightarrow>
     sort_rank sort_by x < sort_rank sort_by y \<or> (sort_rank sort_by x = sort_rank sort_by y \<and> it_id x < it_id y)"

lemma compare_with_less: "compare_with (<) a b = (if a < b then - 1 else if b < a then 1 else 0)" for a b :: "'a :: ord"
  by (simp add: compare_with_def)

lemma compare_float_value:
  "finite_item x \<Longrightarrow> finite_item y \<Longrightarrow> compare_float (it_duration x) (it_duration y)
     = compare_with (<) (float_value (it_duration x)) (float_value (it_duration y))"
  by (auto simp: finite_item_def compare_float_def compare_with_def float_value_def)

lemma compare_items_rank:
  assumes "finite_item x" "finite_item y"
  shows "compare_items x y s = (if sort_rank s x < sort_rank s y then - 1
    else if sort_rank s y < sort_rank s x then 1 else compare_string (it_id x) (it_id y))"
  using compare_float_value [OF assms]
  by (simp add: compare_items_def sort_rank_def Let_def compare_time_def compare_int64_def compare_with_less)

lemma compare_items_before:
  assumes "finite_item x" "finite_item y"
  shows "compare_items x y s < 0 \<longleftrightarrow> before s x y" "compare_items x y s \<le> 0 \<longleftrightarrow> \<not> before s y x"
  using compare_items_rank [OF assms] by (auto simp: before_def compare_string_def compare_with_less)

lemma before_irrefl: "\<not> before s x x"
  by (simp add: before_def)

lemma before_trans: "before s x y \<Longrightarrow> before s y z \<Longrightarrow> before s x z"
  unfolding before_def by (metis order.strict_trans)

lemma before_total: "it_id x \<noteq> it_id y \<Longrightarrow> before s x y \<or> before s y x"
  unfolding before_def by (metis linorder_less_linear)

lemma before_asym: "before s x y \<Longrightarrow> \<not> before s y x"
  using before_trans before_irrefl by blast

lemma not_before_trans: "\<not> before s y x \<Longrightarrow> before s y z \<Longrightarrow> before s x z"
  unfolding before_def by (metis linorder_less_linear order.strict_trans)

section \<open>Sorting\<close>

abbreviation ordered :: "string \<Rightarrow> query_item list \<Rightarrow> bool" where
  "ordered sort_by xs \<equiv> sorted_wrt (before sort_by) xs"

lemma set_insert_item [simp]: "set (insert_item s x ys) = insert x (set ys)"
  by (induction ys) auto

lemma set_sort_items [simp]: "set (sort_items xs s) = set xs"
  by (induction xs) auto

lemma length_insert_item [simp]: "length (insert_item s x ys) = Suc (length ys)"
  by (induction ys) auto

lemma length_sort_items [simp]: "length (sort_items xs s) = length xs"
  by (induction xs) auto

lemma insert_item_ordered:
  assumes "ordered s ys" "\<forall>y \<in> insert x (set ys). finite_item y" "it_id x \<notin> it_id ` set ys"
  shows "ordered s (insert_item s x ys)"
  using assms
proof (induction ys)
  case (Cons y ys)
  have fin: "finite_item x" "finite_item y" "it_id x \<noteq> it_id y"
    using Cons.prems by auto
  show ?case
  proof (cases "before s x y")
    case True
    then show ?thesis
      using Cons.prems(1) before_trans fin by (auto simp: compare_items_before)
  next
    case False
    then have "before s y x"
      using before_total fin by blast
    then show ?thesis
      using Cons False fin by (auto simp: compare_items_before)
  qed
qed simp

lemma sort_items_ordered:
  assumes "distinct (map it_id xs)" "\<forall>x \<in> set xs. finite_item x"
  shows "ordered s (sort_items xs s)"
  using assms by (induction xs) (auto intro!: insert_item_ordered)

text \<open>Any algorithm that permutes the items into an ascending list gives this list.\<close>

lemma ordered_unique:
  assumes "ordered s xs" "ordered s ys" "set xs = set ys"
  shows "xs = ys"
  using assms
proof (induction xs arbitrary: ys)
  case (Cons x xs)
  then obtain y ys' where ys: "ys = y # ys'"
    by (cases ys) auto
  have "x = y"
    using Cons.prems before_asym unfolding ys by (auto simp: set_eq_iff) metis
  moreover have "x \<notin> set xs" "y \<notin> set ys'"
    using Cons.prems before_irrefl unfolding ys by auto
  ultimately have "set xs = set ys'"
    using Cons.prems(3) unfolding ys by (metis insert_ident list.simps(15))
  then show ?case
    using Cons \<open>x = y\<close> unfolding ys by simp
qed simp

lemma sort_items_unique:
  assumes "distinct (map it_id xs)" "\<forall>x \<in> set xs. finite_item x" "set ys = set xs"
    "sorted_wrt (\<lambda>a b. compare_items a b s < 0) ys"
  shows "ys = sort_items xs s"
proof (rule ordered_unique)
  show "ordered s ys"
    using assms(2-4) by (auto intro: sorted_wrt_mono_rel [rotated] simp: compare_items_before)
qed (use assms sort_items_ordered in auto)

section \<open>Selection\<close>

definition items_ok :: "query_item list \<Rightarrow> bool" where
  "items_ok xs \<longleftrightarrow> distinct (map it_id xs) \<and> (\<forall>x \<in> set xs. it_id x \<noteq> [] \<and> validate_item x = None)"

lemma validate_item_finite: "validate_item x = None \<Longrightarrow> finite_item x"
  by (cases "it_duration x") (auto simp: validate_item_def finite_item_def)

lemma items_ok_Cons:
  "items_ok (x # xs) \<longleftrightarrow> it_id x \<noteq> [] \<and> validate_item x = None \<and> (\<forall>y \<in> set xs. it_id y \<noteq> it_id x) \<and> items_ok xs"
proof -
  have "it_id x \<in> it_id ` set xs \<longleftrightarrow> (\<exists>y \<in> set xs. it_id y = it_id x)"
    by (metis imageE image_eqI)
  then show ?thesis
    by (auto simp: items_ok_def)
qed

lemma select_items_spec:
  "select_items env q seen xs = Inr found \<longleftrightarrow>
     items_ok xs \<and> (\<forall>x \<in> set xs. it_id x \<notin> set seen) \<and> found = filter (\<lambda>x. matches env x q) xs"
proof (induction xs arbitrary: seen found)
  case (Cons x xs)
  let ?rest = "select_items env q (it_id x # seen) xs"
  show ?case
  proof (cases "it_id x = [] \<or> it_id x \<in> set seen \<or> validate_item x \<noteq> None")
    case True
    then show ?thesis
      by (auto simp: items_ok_Cons)
  next
    case False
    have "(select_items env q seen (x # xs) = Inr found) =
      (\<exists>rest. ?rest = Inr rest \<and> found = (if matches env x q then x # rest else rest))"
      using False by (cases ?rest) (auto simp: bind_sum_def)
    also have "\<dots> = (items_ok xs \<and> (\<forall>y \<in> set xs. it_id y \<notin> set (it_id x # seen)) \<and>
        found = filter (\<lambda>x. matches env x q) (x # xs))"
      unfolding Cons.IH by auto
    also have "\<dots> = (items_ok (x # xs) \<and> (\<forall>y \<in> set (x # xs). it_id y \<notin> set seen) \<and>
        found = filter (\<lambda>x. matches env x q) (x # xs))"
      using False by (auto simp: items_ok_Cons)
    finally show ?thesis .
  qed
qed (auto simp: items_ok_def)

section \<open>Normal form\<close>

definition clamp_limit :: "int \<Rightarrow> int" where
  "clamp_limit l = (if l = 0 then default_limit else if maximum_limit < l then maximum_limit else l)"

definition normal_form :: "query \<Rightarrow> query" where
  "normal_form q = (trimmed_query q)\<lparr>qy_limit := clamp_limit (qy_limit q)\<rparr>"

definition query_ok :: "query \<Rightarrow> bool" where
  "query_ok q \<longleftrightarrow> has_key valid_sorts (qy_sort q) \<and> filters_fit q \<and> dates_in_order q \<and>
     length (qy_cursor q) \<le> max_cursor_len"

lemma normal_form_eq:
  "(trimmed_query q)\<lparr>qy_limit :=
     (if maximum_limit < (if qy_limit (trimmed_query q) = 0 then default_limit else qy_limit (trimmed_query q))
      then maximum_limit
      else if qy_limit (trimmed_query q) = 0 then default_limit else qy_limit (trimmed_query q))\<rparr> = normal_form q"
proof -
  have "qy_limit (trimmed_query q) = qy_limit q"
    by (simp add: trimmed_query_def)
  then show ?thesis
    by (simp add: normal_form_def clamp_limit_def default_limit_def maximum_limit_def)
qed

lemma trimmed_sel: "qy_limit (trimmed_query q) = qy_limit q" "qy_sort (normal_form q) = qy_sort (trimmed_query q)"
  by (simp_all add: trimmed_query_def normal_form_def)

lemma normalize_iff: "normalize_query q = Inr n \<longleftrightarrow> 0 \<le> qy_limit q \<and> n = normal_form q \<and> query_ok n"
  unfolding normalize_query_def Let_def normal_form_eq query_ok_def
  by (auto simp: trimmed_sel split: if_splits)


lemma query_ok_cong:
  assumes "query_ok n" "length c \<le> max_cursor_len"
  shows "query_ok (n\<lparr>qy_cursor := c, qy_limit := l\<rparr>)"
  using assms by (simp add: query_ok_def filters_fit_def dates_in_order_def)

lemma normalize_cursor:
  assumes "normalize_query q = Inr n" "0 \<le> l" "trim_space c = c" "length c \<le> max_cursor_len"
  shows "normalize_query (q\<lparr>qy_cursor := c, qy_limit := l\<rparr>) = Inr (n\<lparr>qy_cursor := c, qy_limit := clamp_limit l\<rparr>)"
proof -
  have "normal_form (q\<lparr>qy_cursor := c, qy_limit := l\<rparr>) = (normal_form q)\<lparr>qy_cursor := c, qy_limit := clamp_limit l\<rparr>"
    using assms(3) by (simp add: normal_form_def trimmed_query_def)
  moreover have "n = normal_form q" "query_ok n"
    using assms(1) unfolding normalize_iff by auto
  ultimately show ?thesis
    using query_ok_cong [OF \<open>query_ok n\<close> assms(4), of "clamp_limit l"] assms(2) by (simp add: normalize_iff)
qed

lemma clamp_limit_bounds: "0 \<le> l \<Longrightarrow> 1 \<le> clamp_limit l \<and> clamp_limit l \<le> maximum_limit"
  by (simp add: clamp_limit_def default_limit_def maximum_limit_def)

lemma normal_form_idem:
  assumes "0 \<le> qy_limit q"
  shows "normal_form (normal_form q) = normal_form q"
proof -
  have "trim_space ''-started_at'' = ''-started_at''"
    by (rule trim_space_graphic) (simp_all add: graphic_def)
  moreover have "clamp_limit (clamp_limit (qy_limit q)) = clamp_limit (qy_limit q)"
    by (simp add: clamp_limit_def default_limit_def maximum_limit_def)
  ultimately show ?thesis
    by (simp add: normal_form_def trimmed_query_def)
qed

section \<open>Cursors continue after an item\<close>

text \<open>What is asked of the codecs for the cursor of one item: the value it is sorted by and the marshalled
  cursor read back, and the cursor is not too long to be accepted.\<close>

definition cursor_for :: "query_env \<Rightarrow> query_item \<Rightarrow> string \<Rightarrow> string \<Rightarrow> string \<Rightarrow> cursor_data" where
  "cursor_for env x sort_by fingerprint val =
     \<lparr>cd_version = 1, cd_key = sort_column sort_by, cd_value = val, cd_id = it_id x, cd_fingerprint = fingerprint\<rparr>"

lemma cursor_for_sel [simp]:
  "cd_version (cursor_for env x s fp val) = 1" "cd_key (cursor_for env x s fp val) = sort_column s"
  "cd_fingerprint (cursor_for env x s fp val) = fp"
  by (simp_all add: cursor_for_def)

definition codec_ok :: "query_env \<Rightarrow> string \<Rightarrow> string \<Rightarrow> query_item \<Rightarrow> bool" where
  "codec_ok env sort_by fingerprint x \<longleftrightarrow>
     (\<forall>t \<in> {it_started_at x, it_created_at x}.
        qe_format env t \<noteq> [] \<and> qe_time env rfc3339_nano (qe_format env t) = Some t) \<and>
     qe_format_float env (it_duration x) \<noteq> [] \<and>
     qe_float env (qe_format_float env (it_duration x)) = Some (it_duration x) \<and>
     it_archive_size x < 2 ^ 63 \<and>
     (\<forall>val. sort_value env x (sort_column sort_by) = Inr val \<longrightarrow>
        qe_unjson env (qe_json env (cursor_for env x sort_by fingerprint val))
          = Some (cursor_for env x sort_by fingerprint val) \<and>
        0 < length (qe_json env (cursor_for env x sort_by fingerprint val)) \<and>
        length (qe_json env (cursor_for env x sort_by fingerprint val)) \<le> 3072)"

definition item_ready :: "query_item \<Rightarrow> bool" where
  "item_ready x \<longleftrightarrow> it_id x \<noteq> [] \<and> validate_item x = None"

lemma sort_column_cases:
  assumes "has_key valid_sorts s"
  obtains "trim_prefix ''-'' s = ''started_at''" "sort_column s = ''started_at''"
    | "trim_prefix ''-'' s = ''created_at''" "sort_column s = ''created_at''"
    | "trim_prefix ''-'' s = ''duration''" "sort_column s = ''duration''"
    | "trim_prefix ''-'' s = ''size''" "sort_column s = ''size''"
proof -
  have "s \<in> fst ` set valid_sorts"
    using assms by (simp add: map_of_eq_None_iff)
  then have "s \<in> {''started_at'', ''-started_at'', ''created_at'', ''-created_at'', ''duration'', ''-duration'', ''size'', ''-size''}"
    by (simp add: valid_sorts_def)
  then show ?thesis
    by (elim insertE emptyE;
      auto intro: that simp: trim_prefix_def has_prefix_def sort_column_def valid_sorts_def)
qed

lemma base64_cursor:
  assumes "0 < length t"
  shows "base64_encode t \<noteq> [] \<and> trim_space (base64_encode t) = base64_encode t"
proof -
  have "0 < length (base64_encode t)"
    using assms unfolding length_base64_encode by linarith
  moreover have "list_all graphic (base64_encode t)"
    by (rule base64_encode_graphic)
  ultimately show ?thesis
    by (auto intro!: trim_space_graphic simp: list_all_iff)
qed


lemma cursor_roundtrip:
  assumes "item_ready x" "codec_ok env s fp x" "has_key valid_sorts s" "fp \<noteq> []"
  obtains c val anchor where "encode_cursor env x s fp = Inr c" "c \<noteq> []" "trim_space c = c" "length c \<le> max_cursor_len"
    "decode_cursor env c = Inr (cursor_for env x s fp val)" "cursor_item env (cursor_for env x s fp val) s = Inr anchor"
    "it_id anchor = it_id x" "sort_rank s anchor = sort_rank s x" "finite_item anchor"
proof -
  have fin: "finite_item x"
    using assms(1) by (simp add: item_ready_def validate_item_finite)
  have size: "- (2 ^ 63) \<le> it_archive_size x" "it_archive_size x < 2 ^ 63"
    using assms(1,2) by (auto simp: item_ready_def validate_item_def codec_ok_def split: if_splits)
  obtain val where val: "sort_value env x (sort_column s) = Inr val" "val \<noteq> []"
    using assms(2) by - (rule sort_column_cases [OF assms(3)]; auto simp: sort_value_def codec_ok_def format_int64_def)
  define j where "j = qe_json env (cursor_for env x s fp val)"
  have j: "qe_unjson env j = Some (cursor_for env x s fp val)" "0 < length j" "length j \<le> 3072"
    using assms(2) val(1) by (simp_all add: codec_ok_def j_def)
  have enc: "encode_cursor env x s fp = Inr (base64_encode j)"
    by (simp add: encode_cursor_def Let_def bind_sum_def val(1) j_def cursor_for_def)
  have len: "length (base64_encode j) \<le> max_cursor_len"
    using j(3) unfolding length_base64_encode max_cursor_len_def by linarith
  have nonempty: "sort_column s \<noteq> []" "it_id x \<noteq> []"
    using assms(1) by - ((rule sort_column_cases [OF assms(3)]; simp), simp add: item_ready_def)
  have dec: "decode_cursor env (base64_encode j) = Inr (cursor_for env x s fp val)"
    using len j nonempty val(2) assms(4)
    by (simp add: decode_cursor_def base64_roundtrip max_cursor_len_def cursor_for_def)
  obtain d where d: "it_duration x = Finite d"
    using fin by (auto simp: finite_item_def)
  have "\<exists>anchor. cursor_item env (cursor_for env x s fp val) s = Inr anchor \<and> it_id anchor = it_id x \<and>
    sort_rank s anchor = sort_rank s x \<and> finite_item anchor"
    using assms(2) val(1) parse_format_int64 [OF size] d
    by - (rule sort_column_cases [OF assms(3)];
      auto simp: cursor_item_def cursor_for_def sort_value_def codec_ok_def zero_item_def finite_item_def
        sort_rank_def Let_def)
  then show ?thesis
    using that enc base64_cursor [OF j(2)] len dec by blast
qed

lemma encode_cursor_nonempty:
  assumes "item_ready x" "codec_ok env s fp x" "has_key valid_sorts s" "fp \<noteq> []" "encode_cursor env x s fp = Inr c"
  shows "c \<noteq> []"
proof -
  obtain c' where "encode_cursor env x s fp = Inr c'" "c' \<noteq> []"
    by (rule cursor_roundtrip [OF assms(1-4)]) (rule that)
  then show ?thesis
    using assms(5) by simp
qed

text \<open>The list a query denotes: the matching items in order.\<close>

definition listing :: "query_env \<Rightarrow> query_item list \<Rightarrow> query \<Rightarrow> query_item list" where
  "listing env items n = sort_items (filter (\<lambda>x. matches env x n) items) (qy_sort n)"

lemma matches_cursor [simp]: "matches env x (n\<lparr>qy_cursor := c, qy_limit := l\<rparr>) = matches env x n"
  by (simp add: matches_def)

lemma fingerprint_cursor [simp]: "filter_fingerprint env (n\<lparr>qy_cursor := c, qy_limit := l\<rparr>) = filter_fingerprint env n"
  by (simp add: filter_fingerprint_def filter_of_def)

lemma listing_set: "set (listing env items n) = {x \<in> set items. matches env x n}"
  by (simp add: listing_def)

lemma listing_ready: "items_ok items \<Longrightarrow> x \<in> set (listing env items n) \<Longrightarrow> item_ready x \<and> finite_item x"
  by (auto simp: listing_set items_ok_def item_ready_def validate_item_finite)

lemma listing_ordered:
  assumes "items_ok items"
  shows "ordered (qy_sort n) (listing env items n)"
proof -
  have "distinct (map it_id (filter (\<lambda>x. matches env x n) items))"
    using assms by (simp add: items_ok_def distinct_map_filter)
  then show ?thesis
    using assms unfolding listing_def
    by (intro sort_items_ordered) (auto simp: items_ok_def validate_item_finite)
qed

lemma listing_distinct:
  assumes "items_ok items"
  shows "distinct (map it_id (listing env items n))"
proof -
  have "distinct (map it_id (filter (\<lambda>x. matches env x n) items))"
    using assms by (simp add: items_ok_def distinct_map_filter)
  moreover have "distinct (map it_id (insert_item s x xs)) = distinct (it_id x # map it_id xs)" for s x xs
    by (induction xs) auto
  then have "distinct (map it_id (sort_items xs s)) = distinct (map it_id xs)" for s xs
    by (induction xs) auto
  ultimately show ?thesis
    by (simp add: listing_def)
qed

lemma select_listing:
  "items_ok items \<Longrightarrow> select_items env (n\<lparr>qy_cursor := c, qy_limit := l\<rparr>) [] items = Inr (filter (\<lambda>x. matches env x n) items)"
  by (simp add: select_items_spec)

lemma ordered_takeWhile:
  "ordered s xs \<Longrightarrow> drop (length (takeWhile (\<lambda>y. \<not> before s x y) xs)) xs = filter (before s x) xs"
proof (induction xs)
  case (Cons y ys)
  show ?case
  proof (cases "before s x y")
    case True
    then have "\<forall>z \<in> set ys. before s x z"
      using Cons.prems before_trans by (auto dest: bspec)
    then show ?thesis
      using True by simp
  qed (use Cons in simp)
qed simp

lemma page_continues:
  assumes "normalize_query q = Inr n" "items_ok items" "item_ready x" "codec_ok env (qy_sort n) (filter_fingerprint env n) x"
    "filter_fingerprint env n \<noteq> []" "encode_cursor env x (qy_sort n) (filter_fingerprint env n) = Inr c" "0 \<le> l"
  shows "page env items (q\<lparr>qy_cursor := c, qy_limit := l\<rparr>) =
    page_from env (n\<lparr>qy_cursor := c, qy_limit := clamp_limit l\<rparr>) (filter_fingerprint env n) (listing env items n)
      (length (takeWhile (\<lambda>y. \<not> before (qy_sort n) x y) (listing env items n)))"
proof -
  let ?s = "qy_sort n" let ?fp = "filter_fingerprint env n" let ?S = "listing env items n"
  have sort_ok: "has_key valid_sorts ?s"
    using assms(1) unfolding normalize_iff query_ok_def by blast
  obtain c' val anchor where enc: "encode_cursor env x ?s ?fp = Inr c'"
    and c': "c' \<noteq> []" "trim_space c' = c'" "length c' \<le> max_cursor_len"
    "decode_cursor env c' = Inr (cursor_for env x ?s ?fp val)" "cursor_item env (cursor_for env x ?s ?fp val) ?s = Inr anchor"
    and anchor: "it_id anchor = it_id x" "sort_rank ?s anchor = sort_rank ?s x" "finite_item anchor"
    by (rule cursor_roundtrip [OF assms(3,4) sort_ok assms(5)])
  have "c' = c"
    using enc assms(6) by simp
  note c = c' [unfolded this]
  have before: "before ?s anchor y = before ?s x y" for y
    using anchor by (simp add: before_def)
  have "takeWhile (\<lambda>y. compare_items y anchor ?s \<le> 0) ?S = takeWhile (\<lambda>y. \<not> before ?s x y) ?S"
    using listing_ready [OF assms(2)] anchor(3) by (intro takeWhile_cong) (auto simp: compare_items_before before)
  then show ?thesis
    unfolding page_def normalize_cursor [OF assms(1,7) c(2,3)]
    by (simp add: bind_sum_def cursor_of_query_def c select_listing [OF assms(2)] page_start_def Let_def
        flip: listing_def)
qed

lemma blank_cursor: "qy_cursor q = [] \<Longrightarrow> q\<lparr>qy_cursor := []\<rparr> = q" for q :: query
  by (cases q) simp

lemma page_starts:
  assumes "normalize_query q = Inr n" "items_ok items" "qy_cursor q = []" "0 \<le> l"
  shows "page env items (q\<lparr>qy_limit := l\<rparr>) =
    page_from env (n\<lparr>qy_limit := clamp_limit l\<rparr>) (filter_fingerprint env n) (listing env items n) 0"
proof -
  have n: "qy_cursor n = []"
    using assms(1,3) unfolding normalize_iff by (auto simp: normal_form_def trimmed_query_def)
  have "normalize_query (q\<lparr>qy_limit := l\<rparr>) = Inr (n\<lparr>qy_limit := clamp_limit l\<rparr>)"
    using normalize_cursor [OF assms(1,4), of "[]"] blank_cursor [OF assms(3)] blank_cursor [OF n]
    by (simp add: max_cursor_len_def)
  then show ?thesis
    using select_listing [OF assms(2), where n = n and c = "[]" and l = "clamp_limit l"]
      fingerprint_cursor [where n = n and c = "[]" and l = "clamp_limit l"] blank_cursor [OF n] n
    by (simp add: page_def bind_sum_def cursor_of_query_def page_start_def listing_def)
qed

lemma encode_cursor_total:
  assumes "has_key valid_sorts s"
  obtains c where "encode_cursor env x s fp = Inr c"
  by (rule sort_column_cases [OF assms]; auto simp: encode_cursor_def bind_sum_def sort_value_def Let_def)

lemma page_from_items:
  assumes "has_key valid_sorts (qy_sort n)" "start \<le> length S" "0 < qy_limit n"
  obtains r where "page_from env n fp S start = Inr r" "qr_items r = take (nat (qy_limit n)) (drop start S)"
    "qr_total r = length S"
    "if start + nat (qy_limit n) < length S
     then encode_cursor env (S ! (start + nat (qy_limit n) - 1)) (qy_sort n) fp = Inr (qr_next_cursor r)
     else qr_next_cursor r = []"
proof -
  let ?l = "nat (qy_limit n)" let ?items = "take ?l (drop start S)"
  have items: "take (min (start + ?l) (length S) - start) (drop start S) = ?items"
    by (simp add: min_def)
  show ?thesis
  proof (cases "start + ?l < length S")
    case True
    then have "?items \<noteq> []" "last ?items = S ! (start + ?l - 1)"
      using assms(3) by (simp_all add: last_conv_nth)
    moreover obtain c where "encode_cursor env (S ! (start + ?l - 1)) (qy_sort n) fp = Inr c"
      by (rule encode_cursor_total [OF assms(1)])
    ultimately show ?thesis
      using True items by (intro that [of "\<lparr>qr_items = ?items, qr_next_cursor = c, qr_total = length S\<rparr>"])
        (simp_all add: page_from_def Let_def bind_sum_def)
  next
    case False
    then show ?thesis
      using items by (intro that [of "\<lparr>qr_items = ?items, qr_next_cursor = [], qr_total = length S\<rparr>"])
        (simp_all add: page_from_def Let_def bind_sum_def min_def)
  qed
qed

text \<open>C16: A cursor continues strictly after its item: whatever recordings the list holds by now and whatever page
  size is asked for next, the page holds exactly the first items of the current list that come after the item the cursor
  names (as the cursor describes it) in the order of the query, and the total counts the current matches.  So an item
  that has not changed its place relative to the cursor is neither repeated nor skipped; one that has, such as a live
  recording that grew under the order by size, is found where it stands now.\<close>

theorem cursor_continues_strictly_after:
  assumes "normalize_query q = Inr n" "items_ok items" "item_ready x" "codec_ok env (qy_sort n) (filter_fingerprint env n) x"
    "filter_fingerprint env n \<noteq> []" "encode_cursor env x (qy_sort n) (filter_fingerprint env n) = Inr c" "0 \<le> l"
  shows "\<exists>r. page env items (q\<lparr>qy_cursor := c, qy_limit := l\<rparr>) = Inr r \<and>
    qr_items r = take (nat (clamp_limit l)) (filter (before (qy_sort n) x) (listing env items n)) \<and>
    qr_total r = length (listing env items n)"
proof -
  let ?S = "listing env items n" let ?m = "n\<lparr>qy_cursor := c, qy_limit := clamp_limit l\<rparr>"
  let ?i = "length (takeWhile (\<lambda>y. \<not> before (qy_sort n) x y) ?S)"
  have "has_key valid_sorts (qy_sort ?m)" "?i \<le> length ?S" "0 < qy_limit ?m"
    using assms(1) clamp_limit_bounds [OF assms(7)] unfolding normalize_iff query_ok_def
    by (auto simp: length_takeWhile_le)
  then obtain r where "page_from env ?m (filter_fingerprint env n) ?S ?i = Inr r"
    "qr_items r = take (nat (qy_limit ?m)) (drop ?i ?S)" "qr_total r = length ?S"
    by (rule page_from_items) (rule that)
  then show ?thesis
    unfolding page_continues [OF assms] ordered_takeWhile [OF listing_ordered [OF assms(2)]] by simp
qed

text \<open>A client that follows the cursors, asking for \<open>l\<close> items in each request: the items it has collected
  when a page comes without a cursor, \<open>None\<close> when a request fails or its requests run out first.\<close>

fun walk :: "query_env \<Rightarrow> query_item list \<Rightarrow> query \<Rightarrow> int list \<Rightarrow> query_item list option" where
  "walk env items q [] = None"
| "walk env items q (l # ls) =
     (case page env items (q\<lparr>qy_limit := l\<rparr>) of
        Inl _ \<Rightarrow> None
      | Inr r \<Rightarrow> if qr_next_cursor r = [] then Some (qr_items r)
                 else map_option ((@) (qr_items r)) (walk env items (q\<lparr>qy_cursor := qr_next_cursor r\<rparr>) ls))"

lemma takeWhile_before_nth:
  assumes "ordered s S" "i < length S"
  shows "length (takeWhile (\<lambda>y. \<not> before s (S ! i) y) S) = Suc i"
proof -
  have "takeWhile (\<lambda>y. \<not> before s (S ! i) y) S = take (Suc i) S"
  proof (rule takeWhile_eq_take_P_nth)
    fix j assume "j < Suc i" "j < length S"
    then show "\<not> before s (S ! i) (S ! j)"
      using sorted_wrt_nth_less [OF assms(1), of j i] assms(2) before_asym before_irrefl
      by (cases "j = i") auto
  next
    assume "Suc i < length S"
    then show "\<not> \<not> before s (S ! i) (S ! Suc i)"
      using assms by (simp add: sorted_wrt_nth_less)
  qed
  then show ?thesis
    using assms(2) by simp
qed

definition walk_ready :: "query_env \<Rightarrow> query_item list \<Rightarrow> query \<Rightarrow> bool" where
  "walk_ready env items n \<longleftrightarrow> items_ok items \<and> filter_fingerprint env n \<noteq> [] \<and>
     (\<forall>x \<in> set items. codec_ok env (qy_sort n) (filter_fingerprint env n) x)"

text \<open>The request that reads from position \<open>i\<close> of the list.\<close>

definition request_at :: "query_env \<Rightarrow> query_item list \<Rightarrow> query \<Rightarrow> query \<Rightarrow> nat \<Rightarrow> bool" where
  "request_at env items n q i \<longleftrightarrow> (\<forall>l \<ge> 0. \<exists>c. page env items (q\<lparr>qy_limit := l\<rparr>) =
     page_from env (n\<lparr>qy_cursor := c, qy_limit := clamp_limit l\<rparr>) (filter_fingerprint env n) (listing env items n) i)"

lemma request_after:
  assumes "normalize_query q = Inr n" "walk_ready env items n" "i < length (listing env items n)"
    "encode_cursor env (listing env items n ! i) (qy_sort n) (filter_fingerprint env n) = Inr c"
  shows "request_at env items n (q\<lparr>qy_cursor := c\<rparr>) (Suc i)"
proof -
  let ?x = "listing env items n ! i"
  have ok: "items_ok items" "filter_fingerprint env n \<noteq> []"
    using assms(2) by (simp_all add: walk_ready_def)
  have "?x \<in> set (listing env items n)"
    using assms(3) by simp
  then have x: "item_ready ?x" "codec_ok env (qy_sort n) (filter_fingerprint env n) ?x"
    using listing_ready [OF ok(1)] assms(2) by (auto simp: walk_ready_def listing_set)
  show ?thesis
    unfolding request_at_def
    using page_continues [OF assms(1) ok(1) x ok(2) assms(4)]
      takeWhile_before_nth [OF listing_ordered [OF ok(1)] assms(3)] by auto
qed

lemma walk_from:
  assumes "normalize_query q = Inr n" "walk_ready env items n" "\<forall>l \<in> set ls. 0 \<le> l" "ls \<noteq> []"
    "request_at env items n (q\<lparr>qy_cursor := c\<rparr>) i" "i \<le> length (listing env items n)"
    "length (listing env items n) - i \<le> length ls"
  shows "walk env items (q\<lparr>qy_cursor := c\<rparr>) ls = Some (drop i (listing env items n))"
  using assms(3-)
proof (induction ls arbitrary: c i)
  case (Cons l ls)
  let ?S = "listing env items n" let ?L = "nat (clamp_limit l)" let ?fp = "filter_fingerprint env n"
  have sort_ok: "has_key valid_sorts (qy_sort n)"
    using assms(1) unfolding normalize_iff query_ok_def by blast
  have L: "1 \<le> clamp_limit l" "0 < ?L"
    using clamp_limit_bounds [of l] Cons.prems(1) by auto
  obtain c1 where page: "page env items (q\<lparr>qy_cursor := c, qy_limit := l\<rparr>)
      = page_from env (n\<lparr>qy_cursor := c1, qy_limit := clamp_limit l\<rparr>) ?fp ?S i"
    using Cons.prems(1,3) by (auto simp: request_at_def)
  let ?m = "n\<lparr>qy_cursor := c1, qy_limit := clamp_limit l\<rparr>"
  have "has_key valid_sorts (qy_sort ?m)" "i \<le> length ?S" "0 < qy_limit ?m"
    using sort_ok Cons.prems(4) L by simp_all
  then obtain r where r: "page_from env ?m ?fp ?S i = Inr r" "qr_items r = take (nat (qy_limit ?m)) (drop i ?S)"
    "if i + nat (qy_limit ?m) < length ?S
     then encode_cursor env (?S ! (i + nat (qy_limit ?m) - 1)) (qy_sort ?m) ?fp = Inr (qr_next_cursor r)
     else qr_next_cursor r = []"
    by (rule page_from_items) (rule that)
  show ?case
  proof (cases "i + ?L < length ?S")
    case True
    let ?x = "?S ! (i + ?L - 1)"
    have enc: "encode_cursor env ?x (qy_sort n) ?fp = Inr (qr_next_cursor r)"
      using r(3) True by simp
    have "?x \<in> set ?S"
      using True by simp
    then have x: "item_ready ?x" "codec_ok env (qy_sort n) ?fp ?x" and fp: "?fp \<noteq> []"
      using assms(2) listing_ready by (auto simp: walk_ready_def listing_set)
    have "qr_next_cursor r \<noteq> []"
      by (rule encode_cursor_nonempty [OF x sort_ok fp enc])
    moreover have "request_at env items n (q\<lparr>qy_cursor := qr_next_cursor r\<rparr>) (i + ?L)"
      using request_after [OF assms(1,2) _ enc] True L by simp
    then have "walk env items (q\<lparr>qy_cursor := qr_next_cursor r\<rparr>) ls = Some (drop (i + ?L) ?S)"
      using Cons.prems True L by (intro Cons.IH) auto
    moreover have "take ?L (drop i ?S) @ drop (i + ?L) ?S = drop i ?S"
      by (metis add.commute append_take_drop_id drop_drop)
    ultimately show ?thesis
      using page r by simp
  next
    case False
    then show ?thesis
      using page r by simp
  qed
qed simp

text \<open>C14: Pagination is exhaustive and terminates: a client that follows the cursors, with any page sizes,
  collects exactly the matching items, each once and in the order of the sort, and is finished after at
  most as many requests as there are matching items (one if there are none).\<close>
theorem pagination_is_exhaustive:
  assumes "normalize_query q = Inr n" "qy_cursor q = []" "walk_ready env items n" "\<forall>l \<in> set ls. 0 \<le> l"
    "ls \<noteq> []" "length (filter (\<lambda>x. matches env x n) items) \<le> length ls"
  shows "\<exists>found. walk env items q ls = Some found \<and> ordered (qy_sort n) found \<and>
    set found = {x \<in> set items. matches env x n} \<and> distinct (map it_id found)"
proof -
  let ?S = "listing env items n"
  have ok: "items_ok items"
    using assms(3) by (simp add: walk_ready_def)
  have q: "q\<lparr>qy_cursor := []\<rparr> = q"
    by (rule blank_cursor [OF assms(2)])
  have "qy_cursor n = []"
    using assms(1,2) unfolding normalize_iff by (auto simp: normal_form_def trimmed_query_def)
  then have "n\<lparr>qy_limit := l\<rparr> = n\<lparr>qy_cursor := [], qy_limit := l\<rparr>" for l
    by (simp add: blank_cursor)
  then have "request_at env items n (q\<lparr>qy_cursor := []\<rparr>) 0"
    unfolding request_at_def q using page_starts [OF assms(1) ok assms(2)] by metis
  then have "walk env items (q\<lparr>qy_cursor := []\<rparr>) ls = Some (drop 0 ?S)"
    using assms(4-6) by (intro walk_from [OF assms(1,3)]) (simp_all add: listing_def)
  then show ?thesis
    unfolding q using listing_ordered [OF ok] listing_set listing_distinct [OF ok] by auto
qed

section \<open>Parsed queries\<close>

lemma bind_sum_Inr: "bind_sum r f = Inr b \<longleftrightarrow> (\<exists>a. r = Inr a \<and> f a = Inr b)"
  by (simp add: bind_sum_def split: sum.splits)

text \<open>C38: A query accepted from a URL is in normal form: its sort is one of the supported ones, its filters are
  valid UTF-8 of at most 128 bytes without control characters, its dates are in order, its limit is between
  1 and 100, and normalising it again (as every page does) changes nothing.\<close>
theorem parsed_queries_are_normal:
  assumes "parse_query env vals = Inr q"
  shows "query_ok q \<and> 1 \<le> qy_limit q \<and> qy_limit q \<le> maximum_limit \<and> normalize_query q = Inr q"
proof -
  obtain q0 where "normalize_query q0 = Inr q"
    using assms unfolding parse_query_def by (auto simp: bind_sum_Inr split: if_splits)
  then have q: "0 \<le> qy_limit q0" "q = normal_form q0" "query_ok q"
    unfolding normalize_iff by auto
  have "1 \<le> qy_limit q \<and> qy_limit q \<le> maximum_limit"
    using clamp_limit_bounds [OF q(1)] by (simp add: q(2) normal_form_def)
  moreover have "normal_form q = q"
    using normal_form_idem [OF q(1)] q(2) by simp
  ultimately show ?thesis
    using q(3) unfolding normalize_iff by auto
qed

section \<open>Examples\<close>

definition sample_item :: "nat \<Rightarrow> query_item" where
  "sample_item k = zero_item\<lparr>it_id := dec_nat k, it_archive_size := int k\<rparr>"

definition sample_digest :: string where "sample_digest = replicate 32 CHR 0x01"

definition sample_env :: query_env where
  "sample_env = \<lparr>qe_lower = \<lambda>s. s, qe_fold = (=), qe_time = \<lambda>_ _. Some 0, qe_format = \<lambda>_. ''0'',
     qe_float = \<lambda>_. Some (Finite 0), qe_format_float = \<lambda>_. ''0'', qe_json = cd_id,
     qe_unjson = \<lambda>s. Some \<lparr>cd_version = 1, cd_key = ''size'', cd_value = s, cd_id = s,
       cd_fingerprint = hex_encode sample_digest\<rparr>,
     qe_digest = \<lambda>_. sample_digest\<rparr>"

definition sample_query :: query where
  "sample_query = \<lparr>qy_q = [], qy_state = [], qy_adapter = [], qy_resource_type = [], qy_started_after = None,
     qy_started_before = None, qy_has_gaps = None, qy_integrity = [], qy_tag = [], qy_sort = ''-size'',
     qy_limit = 2, qy_cursor = []\<rparr>"

theorem parsed_queries_are_normal_witness:
  "\<exists>q. parse_query sample_env [(''limit'', [''500''])] = Inr q \<and> qy_limit q \<le> maximum_limit"
proof -
  have "trim_space ''500'' = ''500''" "trim_space ''-started_at'' = ''-started_at''"
    by (rule trim_space_graphic; simp add: graphic_def)+
  moreover have "parse_int64 ''500'' = Some 500"
    by (simp add: parse_int64_def parse_uint_def is_digit_def less_eq_char_def dec_value_def digit_value_def)
  ultimately have "\<exists>q. parse_query sample_env [(''limit'', [''500''])] = Inr q"
    by (simp add: parse_query_def allowed_parameters_def bind_sum_def one_value_def parse_limit_def parse_date_def
        parse_gaps_def normalize_iff maximum_limit_def normal_form_def trimmed_query_def query_ok_def valid_sorts_def
        filters_fit_def filter_fits_def valid_filter_def dates_in_order_def)
  then show ?thesis
    using parsed_queries_are_normal by blast
qed

lemma sample_query_normal: "normalize_query sample_query = Inr sample_query"
proof -
  have "trim_space ''-size'' = ''-size''"
    by (rule trim_space_graphic) (simp_all add: graphic_def)
  then show ?thesis
    by (simp add: normalize_iff sample_query_def normal_form_def trimmed_query_def query_ok_def valid_sorts_def
        filters_fit_def filter_fits_def valid_filter_def dates_in_order_def clamp_limit_def maximum_limit_def)
qed

lemma sample_fingerprint: "filter_fingerprint sample_env q = hex_encode sample_digest"
  by (simp add: filter_fingerprint_def sample_env_def)

lemma sample_fingerprint_nonempty: "filter_fingerprint sample_env q \<noteq> []"
proof -
  have "length (hex_encode sample_digest) = 64"
    by (simp add: sample_digest_def)
  then show ?thesis
    unfolding sample_fingerprint by (metis list.size(3) zero_neq_numeral)
qed

lemma sample_item_ready: "item_ready (sample_item k)"
  by (simp add: item_ready_def sample_item_def zero_item_def validate_item_def)

lemma sample_codec_ok:
  assumes "k < 10"
  shows "codec_ok sample_env (qy_sort sample_query) (filter_fingerprint sample_env q) (sample_item k)"
proof -
  have "length (dec_nat k) = 1"
    using assms by (subst dec_nat.simps) simp
  then show ?thesis
    using assms by (simp add: codec_ok_def sample_env_def sample_item_def zero_item_def sort_value_def sample_query_def
        sort_column_def valid_sorts_def cursor_for_def format_int64_def filter_fingerprint_def)
qed

lemma sample_ids: "dec_nat i = dec_nat j \<longleftrightarrow> i = j"
  by (metis dec_value_dec_nat)

lemma sample_items_ok: "items_ok [sample_item 3, sample_item 1]" "items_ok [sample_item 2, sample_item 3, sample_item 1]"
  by (simp_all add: items_ok_def sample_item_def zero_item_def validate_item_def sample_ids)

lemma sample_listing: "listing sample_env [sample_item 3, sample_item 1] sample_query = [sample_item 3, sample_item 1]"
  by (simp add: listing_def matches_def sample_query_def sample_item_def zero_item_def compare_items_def Let_def
      trim_prefix_def has_prefix_def compare_int64_def compare_with_def)

theorem cursor_continues_strictly_after_witness:
  "\<exists>c r. encode_cursor sample_env (sample_item 2) (qy_sort sample_query) (filter_fingerprint sample_env sample_query) = Inr c \<and>
     page sample_env [sample_item 3, sample_item 1] (sample_query\<lparr>qy_cursor := c, qy_limit := 5\<rparr>) = Inr r \<and>
     qr_items r = [sample_item 1]"
proof -
  have "has_key valid_sorts (qy_sort sample_query)"
    by (simp add: sample_query_def valid_sorts_def)
  then obtain c where c: "encode_cursor sample_env (sample_item 2) (qy_sort sample_query)
      (filter_fingerprint sample_env sample_query) = Inr c"
    by (rule encode_cursor_total)
  have "filter (before (qy_sort sample_query) (sample_item 2)) [sample_item 3, sample_item 1] = [sample_item 1]"
    by (simp add: before_def sort_rank_def sample_query_def sample_item_def zero_item_def Let_def trim_prefix_def has_prefix_def)
  moreover have "nat (clamp_limit 5) = 5"
    by (simp add: clamp_limit_def maximum_limit_def)
  ultimately show ?thesis
    using cursor_continues_strictly_after [OF sample_query_normal sample_items_ok(1) sample_item_ready
        sample_codec_ok [of 2] sample_fingerprint_nonempty c, of 5] c
    unfolding sample_listing by auto
qed

theorem pagination_is_exhaustive_witness:
  "\<exists>found. walk sample_env [sample_item 2, sample_item 3, sample_item 1] sample_query [1, 2, 1] = Some found \<and>
     set found = {sample_item 1, sample_item 2, sample_item 3}"
proof -
  let ?items = "[sample_item 2, sample_item 3, sample_item 1]"
  have "walk_ready sample_env ?items sample_query"
    using sample_codec_ok sample_items_ok(2) sample_fingerprint_nonempty by (simp add: walk_ready_def)
  moreover have "matches sample_env x sample_query" for x
    by (simp add: matches_def sample_query_def)
  moreover have "qy_cursor sample_query = []"
    by (simp add: sample_query_def)
  ultimately show ?thesis
    using pagination_is_exhaustive [OF sample_query_normal, of sample_env ?items "[1, 2, 1]"] by auto
qed

end
