(* ===== verification/Watch_Store.thy ===== *)
theory Watch_Store
  imports Domain_Model Go_Encoding "HOL-Library.Multiset"
begin

declare map_of_eq_Some_iff [simp del]

text \<open>
  The durable state of the watches, \<^verbatim>\<open>internal/watch/store.go\<close>: definitions, runtimes, bounded event lists
  and the bounded relation of recordings to watches, as the store holds them in memory under its mutex.
  Of the files only the secret files are kept, because the store reads them back; the others mirror the
  document.  Every write or removal has an outcome, an argument of the operation; how the files are
  encoded, opened, synced and loaded at startup is not modelled.  In particular a write that is renamed into place and
  whose directory sync then fails is an error that leaves the document as it was, as in the code, but the model does not
  keep the new file, which the next start of the program would load.  An error is its message.
\<close>

section \<open>Data\<close>

text \<open>The state of a watch; \<open>Unset\<close> is the empty string of a runtime that has never been saved.\<close>

datatype watch_phase = Unset | Disabled | Offline | Checking | Starting | Recording_now | Backoff
  | Attention_required | Suppressed

record watch_def =
  wd_id :: string
  wd_adapter :: string
  wd_resource :: "resource_reference option"
  wd_input :: string
  wd_enabled :: bool
  wd_title :: string
  wd_preview_mode :: string
  wd_interval :: int
  wd_truncated :: bool
  wd_created_at :: instant
  wd_updated_at :: instant

record watch_runtime =
  wr_phase :: watch_phase
  wr_last_check :: "instant option"
  wr_next_check :: "instant option"
  wr_failures :: int
  wr_active :: string
  wr_pending :: string
  wr_digest :: string
  wr_suppressed_digest :: string
  wr_suppressed :: bool
  wr_observed_live :: bool
  wr_outcome :: string
  wr_error_code :: string
  wr_starting_at :: "instant option"

record watch_event =
  we_id :: string
  we_type :: string
  we_at :: instant
  we_phase :: watch_phase
  we_recording :: string
  we_code :: string

record watch_relation =
  rl_recording :: string
  rl_watch :: string
  rl_digest :: string
  rl_part :: int
  rl_created_at :: instant

type_synonym secrets = "(string, string) gomap"

record watch_store =
  ws_defs :: "(string, watch_def) gomap"
  ws_runtimes :: "(string, watch_runtime) gomap"
  ws_events :: "(string, watch_event list) gomap"
  ws_relations :: "(string, watch_relation) gomap"
  ws_secret_files :: "(string, secrets) gomap"
  ws_secret_bytes :: int
  ws_secret_set :: "(string, (string, bool) gomap) gomap"

type_synonym watch_error = string

text \<open>A write succeeds, fails and leaves the old file, or replaces the file and fails when the directory is
  synced.\<close>

datatype outcome = Done | Failed | Unsynced

definition max_watches :: nat where "max_watches = 5000"
definition max_input_bytes :: nat where "max_input_bytes = 8 * 2 ^ 10"
definition max_secret_bytes :: nat where "max_secret_bytes = 16 * 2 ^ 10"
definition max_aggregate_secret_bytes :: int where "max_aggregate_secret_bytes = 32 * 2 ^ 20"
definition max_events_per_watch :: nat where "max_events_per_watch = 50"
definition max_events_total :: nat where "max_events_total = 10000"
definition max_relations :: nat where "max_relations = 10000"
definition max_list_limit :: nat where "max_list_limit = 200"

definition empty_runtime :: watch_runtime where
  "empty_runtime = \<lparr>wr_phase = Unset, wr_last_check = None, wr_next_check = None, wr_failures = 0, wr_active = [],
     wr_pending = [], wr_digest = [], wr_suppressed_digest = [], wr_suppressed = False, wr_observed_live = False,
     wr_outcome = [], wr_error_code = [], wr_starting_at = None\<rparr>"

definition empty_store :: watch_store where
  "empty_store = \<lparr>ws_defs = [], ws_runtimes = [], ws_events = [], ws_relations = [], ws_secret_files = [],
     ws_secret_bytes = 0, ws_secret_set = []\<rparr>"

section \<open>Validation\<close>

definition secret_size :: "secrets \<Rightarrow> int" where
  "secret_size m = gomap_sum int (map (\<lambda>(k, v). (k, length k + length v)) m)"

text \<open>The loop with its running total.\<close>

fun secrets_fit :: "nat \<Rightarrow> secrets \<Rightarrow> bool" where
  "secrets_fit used [] \<longleftrightarrow> True"
| "secrets_fit used ((k, v) # rest) \<longleftrightarrow>
     \<not> (k = [] \<or> 128 < length k \<or> max_secret_bytes < length v \<or> \<not> utf8_valid v) \<and>
     used + (length k + length v) \<le> max_secret_bytes \<and> secrets_fit (used + (length k + length v)) rest"

definition valid_secrets :: "secrets \<Rightarrow> bool" where
  "valid_secrets m \<longleftrightarrow> length m \<le> 32 \<and> secrets_fit 0 m"

definition configured_flags :: "secrets \<Rightarrow> (string, bool) gomap" where
  "configured_flags m = map (\<lambda>(k, v). (k, v \<noteq> [])) m"

definition valid_digest :: "string \<Rightarrow> bool" where
  "valid_digest d \<longleftrightarrow> d = [] \<or> (length d = 64 \<and> list_all is_hex_lower d)"

definition valid_runtime :: "watch_runtime \<Rightarrow> bool" where
  "valid_runtime r \<longleftrightarrow> 0 \<le> wr_failures r \<and> wr_failures r \<le> 16 \<and>
     valid_digest (wr_digest r) \<and> valid_digest (wr_suppressed_digest r) \<and>
     (wr_active r = [] \<or> hex32 (wr_active r)) \<and> (wr_pending r = [] \<or> hex32 (wr_pending r))"

definition event_types :: "string list" where
  "event_types = [''watch_created'', ''watch_updated'', ''watch_enabled'', ''watch_disabled'', ''live_detected'',
     ''recording_started'', ''recording_ended'', ''check_failed'', ''attention_required'', ''watch_deleted'']"

definition event_codes :: "string list" where
  "event_codes = [''adapter_unavailable'', ''adapter_disabled'', ''check_failed'', ''resolve_unavailable'',
     ''invalid_response'', ''start_failed'', ''storage_failed'', ''start_recovery_ambiguous'',
     ''authentication_required'', ''interaction_required'', ''configuration_required'']"

definition valid_event :: "watch_event \<Rightarrow> bool" where
  "valid_event e \<longleftrightarrow> we_type e \<in> set event_types \<and> (we_code e = [] \<or> we_code e \<in> set event_codes) \<and>
     (we_recording e = [] \<or> hex32 (we_recording e))"

section \<open>Reading\<close>

definition runtime_of :: "watch_store \<Rightarrow> string \<Rightarrow> watch_runtime" where
  "runtime_of s wid = (case map_of (ws_runtimes s) wid of None \<Rightarrow> empty_runtime | Some r \<Rightarrow> r)"

text \<open>A missing secret file holds no secrets; \<open>readable\<close> says whether an existing one is read and valid.\<close>

definition secret_file :: "watch_store \<Rightarrow> string \<Rightarrow> secrets" where
  "secret_file s wid = (case map_of (ws_secret_files s) wid of None \<Rightarrow> [] | Some m \<Rightarrow> m)"

definition store_get :: "bool \<Rightarrow> string \<Rightarrow> watch_store \<Rightarrow> watch_error + watch_def \<times> watch_runtime \<times> secrets" where
  "store_get readable wid s =
     (if \<not> hex32 wid then Inl ''watch not found''
      else case map_of (ws_defs s) wid of
        None \<Rightarrow> Inl ''watch not found''
      | Some d \<Rightarrow>
          if \<not> readable then Inl ''invalid watch secrets''
          else Inr (d, runtime_of s wid, secret_file s wid))"

definition due :: "instant \<Rightarrow> watch_def \<Rightarrow> watch_runtime \<Rightarrow> bool" where
  "due now d r \<longleftrightarrow> wd_enabled d \<and> wr_active r = [] \<and> wr_pending r = [] \<and>
     \<not> (case wr_next_check r of None \<Rightarrow> False | Some t \<Rightarrow> now < t)"

definition due_ids :: "instant \<Rightarrow> watch_store \<Rightarrow> string list" where
  "due_ids now s = sort (map fst (filter (\<lambda>(wid, d). due now d (runtime_of s wid)) (ws_defs s)))"

definition part_count :: "string \<Rightarrow> string \<Rightarrow> watch_store \<Rightarrow> int" where
  "part_count wid digest s =
     int (length (filter (\<lambda>(_, r). rl_watch r = wid \<and> rl_digest r = digest) (ws_relations s)))"

definition relation_of :: "string \<Rightarrow> watch_store \<Rightarrow> watch_error + watch_relation" where
  "relation_of rid s =
     (if \<not> hex32 rid then Inl ''watch not found''
      else case map_of (ws_relations s) rid of None \<Rightarrow> Inl ''watch not found'' | Some r \<Rightarrow> Inr r)"

definition watch_events :: "string \<Rightarrow> int \<Rightarrow> watch_store \<Rightarrow> watch_error + watch_event list" where
  "watch_events wid limit s =
     (if \<not> hex32 wid \<or> \<not> has_key (ws_defs s) wid then Inl ''watch not found''
      else
        let l = (if limit \<le> 0 then 20 else if int max_events_per_watch < limit then int max_events_per_watch else limit);
            items = (case map_of (ws_events s) wid of None \<Rightarrow> [] | Some es \<Rightarrow> es)
        in Inr (rev (drop (length items - nat l) items)))"

definition relations_page :: "string \<Rightarrow> int \<Rightarrow> watch_store \<Rightarrow> watch_error + watch_relation list \<times> bool" where
  "relations_page wid limit s =
     (if \<not> hex32 wid then Inl ''watch not found''
      else case map_of (ws_defs s) wid of
        None \<Rightarrow> Inl ''watch not found''
      | Some d \<Rightarrow>
          let l = nat (if limit \<le> 0 then 20 else if int max_list_limit < limit then int max_list_limit else limit);
              items = sort_key (\<lambda>r. - rl_created_at r) (map snd (filter (\<lambda>(_, r). rl_watch r = wid) (ws_relations s)))
          in Inr (take l items, wd_truncated d \<or> l < length items))"

section \<open>Definitions and runtimes\<close>

definition def_ok :: "watch_def \<Rightarrow> bool" where
  "def_ok d \<longleftrightarrow> wd_adapter d \<noteq> [] \<and> wd_input d \<noteq> [] \<and> length (wd_input d) \<le> max_input_bytes"

text \<open>The writes of Create are the secret, runtime, event and definition files, outcomes 0 to 3; outcome 4 is
  the removal of the secret file after a failure.\<close>

definition create_cleanup :: "(nat \<Rightarrow> outcome) \<Rightarrow> string \<Rightarrow> secrets \<Rightarrow> watch_store \<Rightarrow> watch_store" where
  "create_cleanup io wid sec s =
     s\<lparr>ws_secret_files := (if io 4 = Failed then AList.update wid sec (ws_secret_files s)
                           else AList.delete wid (ws_secret_files s))\<rparr>"

definition store_create ::
    "(nat \<Rightarrow> outcome) \<Rightarrow> watch_def \<Rightarrow> secrets \<Rightarrow> watch_runtime \<Rightarrow> watch_store \<Rightarrow> watch_error option \<times> watch_store" where
  "store_create io d sec r s =
     (let wid = wd_id d; s1 = s\<lparr>ws_secret_files := AList.update wid sec (ws_secret_files s)\<rparr>
      in if max_watches \<le> length (ws_defs s) then (Some ''watch limit reached'', s)
         else if \<not> hex32 wid \<or> \<not> def_ok d \<or> \<not> valid_secrets sec \<or> \<not> valid_runtime r then (Some ''invalid watch'', s)
         else if has_key (ws_defs s) wid then (Some ''watch state conflict'', s)
         else if max_aggregate_secret_bytes < ws_secret_bytes s + secret_size sec
         then (Some ''aggregate watch secrets exceed configured bound'', s)
         else if io 0 \<noteq> Done then (Some ''write'', if io 0 = Unsynced then s1 else s)
         else if io 1 \<noteq> Done \<or> io 2 \<noteq> Done \<or> io 3 \<noteq> Done then (Some ''write'', create_cleanup io wid sec s)
         else (None, s1\<lparr>ws_defs := AList.update wid d (ws_defs s),
                        ws_runtimes := AList.update wid r (ws_runtimes s),
                        ws_events := AList.update wid [] (ws_events s),
                        ws_secret_bytes := ws_secret_bytes s + secret_size sec,
                        ws_secret_set := AList.update wid (configured_flags sec) (ws_secret_set s)\<rparr>))"

text \<open>Outcome 0 is the secret file, 1 the definition file, 2 the attempt to restore the secrets.\<close>

definition store_update ::
    "bool \<Rightarrow> (nat \<Rightarrow> outcome) \<Rightarrow> watch_def \<Rightarrow> secrets \<Rightarrow> bool \<Rightarrow> watch_store \<Rightarrow> watch_error option \<times> watch_store" where
  "store_update readable io d sec replace s =
     (let wid = wd_id d;
          previous = (if replace \<and> readable then secret_file s wid else []);
          put = (\<lambda>m t. t\<lparr>ws_secret_files := AList.update wid m (ws_secret_files t)\<rparr>)
      in if \<not> has_key (ws_defs s) wid then (Some ''watch not found'', s)
         else if \<not> def_ok d then (Some ''invalid watch'', s)
         else if replace \<and> \<not> valid_secrets sec then (Some ''invalid watch'', s)
         else if replace \<and> max_aggregate_secret_bytes < ws_secret_bytes s - secret_size previous + secret_size sec
         then (Some ''aggregate watch secrets exceed configured bound'', s)
         else if replace \<and> io 0 \<noteq> Done then (Some ''write'', if io 0 = Unsynced then put sec s else s)
         else
           let s1 = (if replace then put sec s else s)
           in if io 1 \<noteq> Done
              then (Some ''write'', if replace \<and> io 2 \<noteq> Failed then put previous s1 else s1)
              else
                let s2 = s1\<lparr>ws_defs := AList.update wid d (ws_defs s1)\<rparr>
                in (None, if replace
                          then s2\<lparr>ws_secret_bytes := ws_secret_bytes s2 + (secret_size sec - secret_size previous),
                                  ws_secret_set := AList.update wid (configured_flags sec) (ws_secret_set s2)\<rparr>
                          else s2))"

text \<open>\<open>ok\<close> is the result of writeJSONAtomic; whether a failure came before or after the rename makes no difference to
  the document, and the file it would leave for the next start is not kept.\<close>

definition save_runtime :: "bool \<Rightarrow> string \<Rightarrow> watch_runtime \<Rightarrow> watch_store \<Rightarrow> watch_error option \<times> watch_store" where
  "save_runtime ok wid r s =
     (if \<not> hex32 wid \<or> \<not> valid_runtime r then (Some ''invalid watch'', s)
      else if \<not> has_key (ws_defs s) wid then (Some ''watch not found'', s)
      else if \<not> ok then (Some ''write'', s)
      else (None, s\<lparr>ws_runtimes := AList.update wid r (ws_runtimes s)\<rparr>))"

section \<open>Events\<close>

text \<open>trimEvents: every event with its watch and position, oldest first (events of the same instant in the
  order of the lists, one of the orders sort.Slice may give), and the surplus dropped.\<close>

definition indexed_events :: "(string, watch_event list) gomap \<Rightarrow> (string \<times> nat \<times> instant) list" where
  "indexed_events evs = concat (map (\<lambda>(wid, es). map (\<lambda>(i, e). (wid, i, we_at e)) (enumerate 0 es)) evs)"

definition trim_events :: "nat \<Rightarrow> (string, watch_event list) gomap \<Rightarrow> (string, watch_event list) gomap" where
  "trim_events maximum evs =
     (let all = indexed_events evs
      in if length all \<le> maximum then evs
         else
           let dropped = map (\<lambda>(wid, i, _). (wid, i)) (take (length all - maximum) (sort_key (\<lambda>(_, _, t). t) all))
           in map (\<lambda>(wid, es). (wid, map snd (filter (\<lambda>(i, _). (wid, i) \<notin> set dropped) (enumerate 0 es)))) evs)"

definition put_event :: "string \<Rightarrow> watch_event \<Rightarrow> (string, watch_event list) gomap \<Rightarrow> (string, watch_event list) gomap" where
  "put_event wid e evs =
     (let items = (case map_of evs wid of None \<Rightarrow> [] | Some es \<Rightarrow> es) @ [e];
          kept = drop (length items - max_events_per_watch) items
      in trim_events max_events_total (AList.update wid kept evs))"

definition stamp_event :: "watch_store \<Rightarrow> string \<Rightarrow> string \<Rightarrow> watch_event \<Rightarrow> watch_event" where
  "stamp_event s wid eid e =
     e\<lparr>we_id := eid, we_phase := (if we_phase e = Unset then wr_phase (runtime_of s wid) else we_phase e)\<rparr>"

text \<open>\<open>fresh\<close> is the generated event id, \<open>ok\<close> whether the changed event files were written; a failure rolls
  the files and the document back.\<close>

definition add_event ::
    "string option \<Rightarrow> bool \<Rightarrow> string \<Rightarrow> watch_event \<Rightarrow> watch_store \<Rightarrow> watch_error option \<times> watch_store" where
  "add_event fresh ok wid e s =
     (if \<not> hex32 wid \<or> \<not> valid_event e then (Some ''invalid watch'', s)
      else if \<not> has_key (ws_defs s) wid then (Some ''watch not found'', s)
      else case (if we_id e = [] then fresh else Some (we_id e)) of
        None \<Rightarrow> (Some ''random'', s)
      | Some eid \<Rightarrow>
          if \<not> ok then (Some ''write'', s)
          else (None, s\<lparr>ws_events := put_event wid (stamp_event s wid eid e) (ws_events s)\<rparr>))"

section \<open>Deletion\<close>

text \<open>Removing the definition is the logical delete; the side files and relations follow, and a failed
  removal is reported after the whole clean-up.  \<open>removed p\<close> says whether the removal of file \<open>p\<close> succeeds.\<close>

definition store_delete ::
    "bool \<Rightarrow> (string \<Rightarrow> bool) \<Rightarrow> string \<Rightarrow> watch_store \<Rightarrow> watch_error option \<times> watch_store" where
  "store_delete readable removed wid s =
     (if \<not> hex32 wid \<or> \<not> has_key (ws_defs s) wid then (Some ''watch not found'', s)
      else if \<not> removed ''definition'' then (Some ''remove'', s)
      else
        let gone = map fst (filter (\<lambda>(_, r). rl_watch r = wid) (ws_relations s))
        in (if removed ''runtime'' \<and> removed ''event'' \<and> removed ''secret'' \<and> list_all removed gone \<and> removed ''sync''
            then None else Some ''remove'',
            s\<lparr>ws_defs := AList.delete wid (ws_defs s),
              ws_runtimes := AList.delete wid (ws_runtimes s),
              ws_events := AList.delete wid (ws_events s),
              ws_secret_set := AList.delete wid (ws_secret_set s),
              ws_secret_bytes := (if readable then ws_secret_bytes s - secret_size (secret_file s wid) else ws_secret_bytes s),
              ws_secret_files := (if removed ''secret'' then AList.delete wid (ws_secret_files s) else ws_secret_files s),
              ws_relations := filter (\<lambda>(_, r). rl_watch r \<noteq> wid) (ws_relations s)\<rparr>))"

section \<open>Relations\<close>

definition mark_history_truncated :: "bool \<Rightarrow> string \<Rightarrow> watch_store \<Rightarrow> watch_error option \<times> watch_store" where
  "mark_history_truncated ok wid s =
     (case map_of (ws_defs s) wid of
        None \<Rightarrow> (None, s)
      | Some d \<Rightarrow>
          if wd_truncated d then (None, s)
          else if \<not> ok then (Some ''write'', s)
          else (None, s\<lparr>ws_defs := AList.update wid (d\<lparr>wd_truncated := True\<rparr>) (ws_defs s)\<rparr>))"

fun older :: "(string \<times> watch_relation) option \<Rightarrow> (string, watch_relation) gomap \<Rightarrow> (string \<times> watch_relation) option" where
  "older best [] = best"
| "older best ((rid, r) # rest) =
     older (case best of
              None \<Rightarrow> Some (rid, r)
            | Some (_, b) \<Rightarrow> if rl_created_at r < rl_created_at b then Some (rid, r) else best) rest"

definition oldest_relation :: "(string, watch_relation) gomap \<Rightarrow> (string \<times> watch_relation) option" where
  "oldest_relation rels = older None rels"

text \<open>Outcome 0 is the definition marked as truncated, 1 the removal of the evicted relation, 2 the write of the
  new one.  A failed write restores the evicted relation in the document.\<close>

definition put_relation ::
    "bool \<Rightarrow> (string, watch_relation) gomap \<Rightarrow> watch_relation \<Rightarrow> watch_store \<Rightarrow> watch_error option \<times> watch_store" where
  "put_relation ok restored rel s =
     (if \<not> ok then (Some ''write'', s\<lparr>ws_relations := restored\<rparr>)
      else (None, s\<lparr>ws_relations := AList.update (rl_recording rel) rel (ws_relations s)\<rparr>))"

definition save_relation :: "(nat \<Rightarrow> bool) \<Rightarrow> watch_relation \<Rightarrow> watch_store \<Rightarrow> watch_error option \<times> watch_store" where
  "save_relation io rel s =
     (if \<not> hex32 (rl_recording rel) \<or> \<not> hex32 (rl_watch rel) \<or> rl_part rel < 1 then (Some ''invalid watch'', s)
      else if \<not> has_key (ws_defs s) (rl_watch rel) then (Some ''watch not found'', s)
      else
        case (if \<not> has_key (ws_relations s) (rl_recording rel) \<and> max_relations \<le> length (ws_relations s)
              then oldest_relation (ws_relations s) else None) of
          None \<Rightarrow> put_relation (io 2) (ws_relations s) rel s
        | Some (rid, evicted) \<Rightarrow>
            (case mark_history_truncated (io 0) (rl_watch evicted) s of
               (Some e, s1) \<Rightarrow> (Some e, s1)
             | (None, s1) \<Rightarrow>
                 if \<not> io 1 then (Some ''remove'', s1)
                 else put_relation (io 2) (AList.update rid evicted (AList.delete rid (ws_relations s1))) rel
                        (s1\<lparr>ws_relations := AList.delete rid (ws_relations s1)\<rparr>)))"

definition delete_relation :: "bool \<Rightarrow> string \<Rightarrow> watch_store \<Rightarrow> watch_error option \<times> watch_store" where
  "delete_relation ok rid s =
     (if \<not> hex32 rid then (Some ''watch not found'', s)
      else if \<not> has_key (ws_relations s) rid then (None, s)
      else if \<not> ok then (Some ''remove'', s)
      else (None, s\<lparr>ws_relations := AList.delete rid (ws_relations s)\<rparr>))"

section \<open>Trimming the events\<close>

definition total_events :: "(string, watch_event list) gomap \<Rightarrow> nat" where
  "total_events evs = sum_list (map (length \<circ> snd) evs)"

lemma total_events_simps [simp]:
  "total_events [] = 0" "total_events ((wid, es) # evs) = length es + total_events evs"
  by (simp_all add: total_events_def)

lemma length_indexed_events [simp]: "length (indexed_events evs) = total_events evs"
  by (induction evs) (auto simp: indexed_events_def)

definition positions :: "(string, watch_event list) gomap \<Rightarrow> (string \<times> nat) list" where
  "positions evs = map (\<lambda>(wid, i, _). (wid, i)) (indexed_events evs)"

lemma positions_Cons [simp]:
  "positions [] = []" "positions ((wid, es) # evs) = map (Pair wid) [0..<length es] @ positions evs"
proof -
  have "map (\<lambda>x. (wid, fst x)) (zip [0..<length es] es) = map (Pair wid) [0..<length es]"
    by (rule nth_equalityI) auto
  then show "positions ((wid, es) # evs) = map (Pair wid) [0..<length es] @ positions evs"
    by (simp add: positions_def indexed_events_def comp_def case_prod_beta enumerate_eq_zip)
qed (simp add: positions_def indexed_events_def)

lemma positions_keys: "fst ` set (positions evs) \<subseteq> fst ` set evs"
proof (induction evs)
  case (Cons e evs)
  then show ?case
    by (cases e) auto
qed simp

lemma distinct_positions:
  assumes "gomap_ok evs"
  shows "distinct (positions evs)"
  using assms
proof (induction evs)
  case (Cons e evs)
  obtain wid es where e: "e = (wid, es)"
    by (cases e)
  have "wid \<notin> fst ` set (positions evs)"
    using Cons.prems positions_keys [of evs] by (auto simp: e)
  then show ?case
    using Cons by (auto simp: e distinct_map inj_on_def image_iff)
qed simp

lemma total_events_filtered:
  "total_events (map (\<lambda>(wid, es). (wid, map snd (filter (\<lambda>(i, _). (wid, i) \<notin> D) (enumerate 0 es)))) evs)
     = length (filter (\<lambda>p. p \<notin> D) (positions evs))"
proof (induction evs)
  case (Cons e evs)
  obtain wid es where e: "e = (wid, es)"
    by (cases e)
  have "length (filter (\<lambda>(i, _). (wid, i) \<notin> D) (zip is xs)) = length (filter (\<lambda>p. p \<notin> D) (map (Pair wid) is))"
    if "length is = length xs" for "is" and xs :: "watch_event list"
    using that by (induction "is" xs rule: list_induct2) auto
  from this [of "[0..<length es]" es] show ?case
    using Cons by (simp add: e enumerate_eq_zip)
qed simp

lemma length_filter_remaining:
  assumes "distinct xs" "set ds \<subseteq> set xs" "distinct ds"
  shows "length (filter (\<lambda>x. x \<notin> set ds) xs) = length xs - length ds"
proof -
  have "length (filter (\<lambda>x. x \<notin> set ds) xs) = card (set xs - set ds)"
    using assms(1) by (subst distinct_card [symmetric]) (auto intro!: arg_cong [of _ _ card])
  also have "\<dots> = length xs - length ds"
    using assms by (simp add: card_Diff_subset distinct_card)
  finally show ?thesis .
qed

lemma trim_events_total:
  assumes "gomap_ok evs"
  shows "total_events (trim_events maximum evs) = min maximum (total_events evs)"
proof (cases "total_events evs \<le> maximum")
  case True
  then show ?thesis
    by (simp add: trim_events_def)
next
  case False
  define sorted_all where "sorted_all = sort_key (\<lambda>(_, _, t). t) (indexed_events evs)"
  define dropped where "dropped = map (\<lambda>(wid, i, _). (wid, i)) (take (total_events evs - maximum) sorted_all)"
  have "mset (map (\<lambda>(wid, i, _). (wid, i)) sorted_all) = mset (positions evs)"
    by (simp add: sorted_all_def positions_def mset_map)
  then have d: "distinct (map (\<lambda>(wid, i, _). (wid, i)) sorted_all)"
    "set (map (\<lambda>(wid, i, _). (wid, i)) sorted_all) = set (positions evs)"
    using distinct_positions [OF assms] by (metis mset_eq_imp_distinct_iff, metis mset_eq_setD)
  have dropped: "dropped = take (total_events evs - maximum) (map (\<lambda>(wid, i, _). (wid, i)) sorted_all)"
    by (simp add: dropped_def take_map)
  have "distinct dropped" "set dropped \<subseteq> set (positions evs)"
    using d set_take_subset [of _ "map (\<lambda>(wid, i, _). (wid, i)) sorted_all"] by (auto simp: dropped)
  moreover have "length sorted_all = total_events evs" "length (positions evs) = total_events evs"
    by (simp_all add: sorted_all_def positions_def)
  then have "length dropped = total_events evs - maximum"
    using False by (simp add: dropped_def)
  ultimately have "length (filter (\<lambda>p. p \<notin> set dropped) (positions evs)) = maximum"
    using False length_filter_remaining [OF distinct_positions [OF assms]] \<open>length (positions evs) = total_events evs\<close>
    by simp
  then show ?thesis
    using False total_events_filtered [of "set dropped" evs]
    by (simp add: trim_events_def Let_def dropped_def sorted_all_def)
qed

lemma trim_events_entry:
  assumes "map_of (trim_events maximum evs) wid = Some es'"
  shows "\<exists>es. map_of evs wid = Some es \<and> set es' \<subseteq> set es \<and> length es' \<le> length es"
proof (cases "total_events evs \<le> maximum")
  case True
  then show ?thesis
    using assms by (auto simp: trim_events_def)
next
  case False
  obtain keep where keep: "trim_events maximum evs = map (\<lambda>(wid, es). (wid, map snd (filter (keep wid) (enumerate 0 es)))) evs"
    using False by (fastforce simp: trim_events_def Let_def)
  then have "map_of (trim_events maximum evs) wid = map_option (\<lambda>es. map snd (filter (keep wid) (enumerate 0 es))) (map_of evs wid)"
    by (simp add: map_of_map_key)
  moreover have "snd ` set (filter f (enumerate 0 es)) \<subseteq> set es" for f and es :: "watch_event list"
    by (auto simp: enumerate_eq_zip dest: set_zip_rightD)
  moreover have "length (filter f (enumerate 0 es)) \<le> length es" for f and es :: "watch_event list"
    by (metis length_enumerate length_filter_le)
  moreover obtain es where "map_of evs wid = Some es"
    using assms keep by (auto simp: map_of_map_key)
  ultimately show ?thesis
    using assms by (intro exI [of _ es]) auto
qed

lemma trim_events_keys: "map fst (trim_events maximum evs) = map fst evs"
  by (simp add: trim_events_def Let_def case_prod_beta comp_def)

section \<open>The invariant of the store\<close>

definition defs_ok :: "watch_store \<Rightarrow> bool" where
  "defs_ok s \<longleftrightarrow> gomap_ok (ws_defs s) \<and> length (ws_defs s) \<le> max_watches \<and>
     (\<forall>wid d. map_of (ws_defs s) wid = Some d \<longrightarrow> hex32 wid \<and> wd_id d = wid \<and> def_ok d)"

definition runtimes_ok :: "watch_store \<Rightarrow> bool" where
  "runtimes_ok s \<longleftrightarrow> gomap_ok (ws_runtimes s) \<and>
     (\<forall>wid r. map_of (ws_runtimes s) wid = Some r \<longrightarrow> has_key (ws_defs s) wid \<and> valid_runtime r)"

definition event_list_ok :: "watch_event list \<Rightarrow> bool" where
  "event_list_ok es \<longleftrightarrow> length es \<le> max_events_per_watch \<and> (\<forall>e \<in> set es. valid_event e)"

definition events_ok :: "watch_store \<Rightarrow> bool" where
  "events_ok s \<longleftrightarrow> gomap_ok (ws_events s) \<and> total_events (ws_events s) \<le> max_events_total \<and>
     (\<forall>wid es. map_of (ws_events s) wid = Some es \<longrightarrow> has_key (ws_defs s) wid \<and> event_list_ok es)"

definition relations_ok :: "watch_store \<Rightarrow> bool" where
  "relations_ok s \<longleftrightarrow> gomap_ok (ws_relations s) \<and> length (ws_relations s) \<le> max_relations \<and>
     (\<forall>rid r. map_of (ws_relations s) rid = Some r \<longrightarrow>
        hex32 rid \<and> rl_recording r = rid \<and> 1 \<le> rl_part r \<and> has_key (ws_defs s) (rl_watch r))"

definition store_inv :: "watch_store \<Rightarrow> bool" where
  "store_inv s \<longleftrightarrow> defs_ok s \<and> runtimes_ok s \<and> events_ok s \<and> relations_ok s"

lemmas store_parts = defs_ok_def runtimes_ok_def events_ok_def relations_ok_def

text \<open>Parts that an operation does not touch, up to the set of watches.\<close>

lemma store_inv_frame:
  assumes "store_inv s" "ws_defs s' = ws_defs s"
    "ws_runtimes s' \<noteq> ws_runtimes s \<Longrightarrow> runtimes_ok s'" "ws_events s' \<noteq> ws_events s \<Longrightarrow> events_ok s'"
    "ws_relations s' \<noteq> ws_relations s \<Longrightarrow> relations_ok s'"
  shows "store_inv s'"
proof -
  have "defs_ok s'"
    using assms(1,2) by (simp add: store_inv_def defs_ok_def)
  moreover have "runtimes_ok s'"
    using assms(1-3) by (cases "ws_runtimes s' = ws_runtimes s") (simp_all add: store_inv_def runtimes_ok_def)
  moreover have "events_ok s'"
    using assms(1,2,4) by (cases "ws_events s' = ws_events s") (simp_all add: store_inv_def events_ok_def)
  moreover have "relations_ok s'"
    using assms(1,2,5) by (cases "ws_relations s' = ws_relations s") (simp_all add: store_inv_def relations_ok_def)
  ultimately show ?thesis
    by (simp add: store_inv_def)
qed

text \<open>Replacing the definition of a known watch.\<close>

lemma store_inv_put_def:
  assumes "store_inv s" "has_key (ws_defs s) (wd_id d)" "def_ok d"
  shows "store_inv (s\<lparr>ws_defs := AList.update (wd_id d) d (ws_defs s)\<rparr>)"
proof -
  have "length (AList.update (wd_id d) d (ws_defs s)) = length (ws_defs s)"
    using assms(2) by (auto simp: length_update_old)
  moreover have "hex32 (wd_id d)"
    using assms(1,2) by (auto simp: store_inv_def defs_ok_def)
  ultimately show ?thesis
    using assms by (auto simp: store_inv_def store_parts map_of_update)
qed

lemma save_runtime_inv: "store_inv s \<Longrightarrow> store_inv (snd (save_runtime ok wid r s))"
  by (rule store_inv_frame [where s = s])
    (auto simp: save_runtime_def store_inv_def runtimes_ok_def map_of_update)

lemma delete_relation_inv:
  assumes "store_inv s"
  shows "store_inv (snd (delete_relation ok rid s))"
proof (rule store_inv_frame [OF assms])
  assume "ws_relations (snd (delete_relation ok rid s)) \<noteq> ws_relations s"
  moreover have "length (AList.delete rid m) \<le> length m" for m :: "(string, watch_relation) gomap"
    by (simp add: AList.delete_eq)
  ultimately show "relations_ok (snd (delete_relation ok rid s))"
    using assms by (auto simp: delete_relation_def store_inv_def relations_ok_def map_of_delete intro: order.trans split: if_splits)
qed (auto simp: delete_relation_def)

lemma add_event_frame [simp]:
  "ws_defs (snd (add_event fresh ok wid e s)) = ws_defs s" "ws_runtimes (snd (add_event fresh ok wid e s)) = ws_runtimes s"
  "ws_relations (snd (add_event fresh ok wid e s)) = ws_relations s"
  by (cases "if we_id e = [] then fresh else Some (we_id e)"; simp add: add_event_def)+

lemma put_event_ok:
  assumes "events_ok s" "has_key (ws_defs s) wid" "valid_event e"
  shows "events_ok (s\<lparr>ws_events := put_event wid e (ws_events s)\<rparr>)"
proof -
  let ?old = "case map_of (ws_events s) wid of None \<Rightarrow> [] | Some es \<Rightarrow> es"
  define kept where "kept = drop (length (?old @ [e]) - max_events_per_watch) (?old @ [e])"
  define evs where "evs = AList.update wid kept (ws_events s)"
  have put: "put_event wid e (ws_events s) = trim_events max_events_total evs"
    by (simp add: put_event_def kept_def evs_def Let_def)
  have "\<forall>x \<in> set ?old. valid_event x"
    using assms(1) by (cases "map_of (ws_events s) wid") (auto simp: events_ok_def event_list_ok_def)
  then have kept: "event_list_ok kept"
    using assms(3) by (auto simp: event_list_ok_def kept_def dest: in_set_dropD)
  have evs_ok: "gomap_ok evs" "\<And>w es. map_of evs w = Some es \<Longrightarrow> has_key (ws_defs s) w \<and> event_list_ok es"
    using assms(1,2) kept by (auto simp: evs_def events_ok_def map_of_update split: if_splits)
  have "gomap_ok (trim_events max_events_total evs)"
    using evs_ok(1) by (simp add: trim_events_keys)
  moreover have "total_events (trim_events max_events_total evs) \<le> max_events_total"
    by (simp add: trim_events_total [OF evs_ok(1)])
  moreover have "has_key (ws_defs s) w \<and> event_list_ok es" if es: "map_of (trim_events max_events_total evs) w = Some es" for w es
  proof -
    obtain es0 where "map_of evs w = Some es0" "set es \<subseteq> set es0" "length es \<le> length es0"
      using trim_events_entry [OF es] by blast
    then show ?thesis
      using evs_ok(2) [of w es0] by (auto simp: event_list_ok_def)
  qed
  ultimately show ?thesis
    by (simp add: events_ok_def put)
qed

lemma add_event_inv:
  assumes "store_inv s"
  shows "store_inv (snd (add_event fresh ok wid e s))"
proof (rule store_inv_frame [OF assms])
  assume "ws_events (snd (add_event fresh ok wid e s)) \<noteq> ws_events s"
  then obtain eid where "has_key (ws_defs s) wid" "valid_event e"
    "snd (add_event fresh ok wid e s) = s\<lparr>ws_events := put_event wid (stamp_event s wid eid e) (ws_events s)\<rparr>"
    by (auto simp: add_event_def split: if_splits option.splits)
  moreover have "valid_event (stamp_event s wid eid e)"
    using \<open>valid_event e\<close> by (simp add: valid_event_def stamp_event_def)
  ultimately show "events_ok (snd (add_event fresh ok wid e s))"
    using put_event_ok [of s wid] assms by (simp add: store_inv_def)
qed simp_all


lemma relations_ok_put:
  assumes "relations_ok s" "hex32 (rl_recording rel)" "1 \<le> rl_part rel" "has_key (ws_defs s) (rl_watch rel)"
    "length (AList.update (rl_recording rel) rel (ws_relations s)) \<le> max_relations"
  shows "relations_ok (s\<lparr>ws_relations := AList.update (rl_recording rel) rel (ws_relations s)\<rparr>)"
  using assms by (auto simp: relations_ok_def map_of_update)

lemma store_inv_relations: "store_inv s \<Longrightarrow> relations_ok (s\<lparr>ws_relations := rels\<rparr>) \<Longrightarrow> store_inv (s\<lparr>ws_relations := rels\<rparr>)"
  by (rule store_inv_frame [where s = s]) simp_all

lemma mark_truncated_inv:
  assumes "store_inv s"
  shows "store_inv (snd (mark_history_truncated ok wid s))"
proof (cases "map_of (ws_defs s) wid")
  case (Some d)
  then have "wd_id d = wid" "def_ok d"
    using assms by (auto simp: store_inv_def defs_ok_def)
  then show ?thesis
    using store_inv_put_def [OF assms, of "d\<lparr>wd_truncated := True\<rparr>"] Some assms
    by (auto simp: mark_history_truncated_def def_ok_def)
qed (simp add: mark_history_truncated_def assms)

lemma older_in: "older best rels = Some p \<Longrightarrow> p \<in> set rels \<or> best = Some p"
  by (induction best rels rule: older.induct) (auto split: option.splits if_splits)

lemma older_some: "best \<noteq> None \<or> rels \<noteq> [] \<Longrightarrow> older best rels \<noteq> None"
  by (induction best rels rule: older.induct) (auto split: option.splits)

lemma older_oldest:
  "older best rels = Some (rid, r) \<Longrightarrow>
     (\<forall>p \<in> set rels. rl_created_at r \<le> rl_created_at (snd p)) \<and> (\<forall>b. best = Some b \<longrightarrow> rl_created_at r \<le> rl_created_at (snd b))"
proof (induction best rels rule: older.induct)
  case (2 best rid' r' rest)
  then show ?case
    by (cases best) (auto split: if_splits prod.splits)
qed auto

lemma oldest_relation_spec:
  assumes "gomap_ok rels" "oldest_relation rels = Some (rid, r)"
  shows "map_of rels rid = Some r" "\<forall>rid' r'. map_of rels rid' = Some r' \<longrightarrow> rl_created_at r \<le> rl_created_at r'"
  using older_in [of None rels] older_oldest [of None rels rid r] assms
  by (auto simp: oldest_relation_def in_gomap_iff [OF assms(1), symmetric] dest: bspec)

lemma put_relation_inv:
  assumes "store_inv s" "hex32 (rl_recording rel)" "1 \<le> rl_part rel" "has_key (ws_defs s) (rl_watch rel)"
    "length (AList.update (rl_recording rel) rel (ws_relations s)) \<le> max_relations"
    "relations_ok (s\<lparr>ws_relations := restored\<rparr>)"
  shows "store_inv (snd (put_relation ok restored rel s))"
proof -
  have "relations_ok s"
    using assms(1) by (simp add: store_inv_def)
  then show ?thesis
    using assms(6) store_inv_relations [OF assms(1)] relations_ok_put [OF _ assms(2-5)] by (simp add: put_relation_def)
qed

lemma relations_ok_cong: "ws_relations s' = ws_relations s \<Longrightarrow> dom (map_of (ws_defs s')) = dom (map_of (ws_defs s)) \<Longrightarrow>
    relations_ok s' = relations_ok s"
  by (auto simp: relations_ok_def dom_def)

lemma mark_truncated_frame:
  "ws_relations (snd (mark_history_truncated ok wid s)) = ws_relations s"
  "has_key (ws_defs (snd (mark_history_truncated ok wid s))) w = has_key (ws_defs s) w"
  by (auto simp: mark_history_truncated_def map_of_update split: option.splits)

lemma save_relation_inv:
  assumes "store_inv s"
  shows "store_inv (snd (save_relation io rel s))"
proof (cases "hex32 (rl_recording rel) \<and> hex32 (rl_watch rel) \<and> 1 \<le> rl_part rel \<and> has_key (ws_defs s) (rl_watch rel)")
  case False
  then show ?thesis
    using assms by (auto simp: save_relation_def not_less)
next
  case ok: True
  have rels: "relations_ok s" "gomap_ok (ws_relations s)" "length (ws_relations s) \<le> max_relations"
    using assms by (auto simp: store_inv_def relations_ok_def)
  let ?full = "\<not> has_key (ws_relations s) (rl_recording rel) \<and> max_relations \<le> length (ws_relations s)"
  show ?thesis
  proof (cases "if ?full then oldest_relation (ws_relations s) else None")
    case None
    have "oldest_relation (ws_relations s) \<noteq> None" if "ws_relations s \<noteq> []"
      using that older_some by (simp add: oldest_relation_def)
    then have "\<not> ?full"
      using None by (cases "ws_relations s = []") (auto simp: max_relations_def split: if_splits)
    then have "length (AList.update (rl_recording rel) rel (ws_relations s)) \<le> max_relations"
      using rels(3) by (auto simp: length_update)
    then show ?thesis
      using put_relation_inv [OF assms, of rel "ws_relations s" "io 2"] ok rels(1) None
      by (simp add: save_relation_def not_less)
  next
    case (Some p)
    obtain rid old where p: "p = (rid, old)"
      by (cases p)
    have old: "map_of (ws_relations s) rid = Some old" "?full"
      using Some oldest_relation_spec(1) [OF rels(2)] by (auto simp: p split: if_splits)
    obtain e s1 where mark: "mark_history_truncated (io 0) (rl_watch old) s = (e, s1)"
      by fastforce
    have s1: "store_inv s1" "ws_relations s1 = ws_relations s" "has_key (ws_defs s1) w = has_key (ws_defs s) w" for w
      using mark_truncated_inv [OF assms, of "io 0" "rl_watch old"] mark_truncated_frame [of "io 0" "rl_watch old" s] mark by simp_all
    let ?s2 = "s1\<lparr>ws_relations := AList.delete rid (ws_relations s1)\<rparr>"
    have len: "Suc (length (AList.delete rid (ws_relations s))) = length (ws_relations s)"
      using length_delete_present [OF rels(2) old(1)] .
    have r1: "relations_ok s1"
      using s1(1) by (simp add: store_inv_def)
    have s2: "store_inv ?s2"
      using r1 len rels(3) by (intro store_inv_relations s1(1)) (auto simp: relations_ok_def map_of_delete s1(2))
    have "map_of (AList.update rid old (AList.delete rid (ws_relations s))) w = map_of (ws_relations s) w" for w
      using old(1) by (simp add: map_of_update map_of_delete rels(2))
    moreover have "length (AList.update rid old (AList.delete rid (ws_relations s))) = length (ws_relations s)"
      using len by (simp add: length_update map_of_delete rels(2))
    ultimately have restored: "relations_ok (?s2\<lparr>ws_relations := AList.update rid old (AList.delete rid (ws_relations s1))\<rparr>)"
      using r1 rels(2) by (auto simp: relations_ok_def s1(2))
    have "length (AList.update (rl_recording rel) rel (ws_relations ?s2)) \<le> max_relations"
      using len rels(3) by (simp add: length_update s1(2))
    then have "store_inv (snd (put_relation (io 2) (AList.update rid old (AList.delete rid (ws_relations s1))) rel ?s2))"
      using ok s1(3) by (intro put_relation_inv s2 restored) auto
    then show ?thesis
      using ok Some s1(1) by (cases e) (simp_all add: save_relation_def not_less p mark)
  qed
qed

lemma store_create_inv:
  assumes "store_inv s"
  shows "store_inv (snd (store_create io d sec r s))"
proof (cases "fst (store_create io d sec r s)")
  case None
  then have new: "length (ws_defs s) < max_watches" "hex32 (wd_id d)" "def_ok d" "valid_runtime r"
    "map_of (ws_defs s) (wd_id d) = None"
    by (auto simp: store_create_def Let_def split: if_splits)
  let ?s = "snd (store_create io d sec r s)" let ?wid = "wd_id d"
  have s': "ws_defs ?s = AList.update ?wid d (ws_defs s)" "ws_runtimes ?s = AList.update ?wid r (ws_runtimes s)"
    "ws_events ?s = AList.update ?wid [] (ws_events s)" "ws_relations ?s = ws_relations s"
    using None by (auto simp: store_create_def Let_def split: if_splits)
  have "defs_ok ?s"
    using assms new by (auto simp: store_inv_def defs_ok_def s' map_of_update length_update_new)
  moreover have "runtimes_ok ?s"
    using assms new by (auto simp: store_inv_def runtimes_ok_def s' map_of_update)
  moreover have "\<not> has_key (ws_events s) ?wid"
    using assms new(5) unfolding store_inv_def events_ok_def by fastforce
  then have "map_of (ws_events s) ?wid = None"
    by simp
  then have "total_events (AList.update ?wid [] (ws_events s)) = total_events (ws_events s)"
    by (simp add: update_new_key total_events_def)
  then have "events_ok ?s"
    using assms by (auto simp: store_inv_def events_ok_def s' map_of_update event_list_ok_def)
  moreover have "relations_ok ?s"
    using assms by (auto simp: store_inv_def relations_ok_def s' map_of_update)
  ultimately show ?thesis
    by (simp add: store_inv_def)
next
  case (Some e)
  then show ?thesis
    by (intro store_inv_frame [OF assms]) (auto simp: store_create_def create_cleanup_def Let_def split: if_splits)
qed

lemma store_update_inv:
  assumes "store_inv s"
  shows "store_inv (snd (store_update readable io d sec replace s))"
proof (cases "fst (store_update readable io d sec replace s)")
  case None
  then have ok: "has_key (ws_defs s) (wd_id d)" "def_ok d"
    by (auto simp: store_update_def Let_def split: if_splits)
  let ?s = "snd (store_update readable io d sec replace s)"
  have "ws_defs ?s = AList.update (wd_id d) d (ws_defs s)" "ws_runtimes ?s = ws_runtimes s"
    "ws_events ?s = ws_events s" "ws_relations ?s = ws_relations s"
    using None by (auto simp: store_update_def Let_def split: if_splits)
  then show ?thesis
    by (intro store_inv_frame [OF store_inv_put_def [OF assms ok]]) simp_all
next
  case (Some e)
  then show ?thesis
    by (intro store_inv_frame [OF assms]) (auto simp: store_update_def Let_def split: if_splits)
qed

lemma total_events_delete: "total_events (AList.delete wid evs) \<le> total_events evs"
  by (induction evs) auto

lemma length_delete_le: "length (AList.delete k m) \<le> length m"
  by (simp add: AList.delete_eq)

lemma store_delete_inv:
  assumes "store_inv s"
  shows "store_inv (snd (store_delete readable removed wid s))"
proof (cases "hex32 wid \<and> has_key (ws_defs s) wid \<and> removed ''definition''")
  case True
  let ?s = "snd (store_delete readable removed wid s)"
  have s': "ws_defs ?s = AList.delete wid (ws_defs s)" "ws_runtimes ?s = AList.delete wid (ws_runtimes s)"
    "ws_events ?s = AList.delete wid (ws_events s)" "ws_relations ?s = filter (\<lambda>(_, r). rl_watch r \<noteq> wid) (ws_relations s)"
    using True by (auto simp: store_delete_def Let_def)
  have inv: "defs_ok s" "runtimes_ok s" "events_ok s" "relations_ok s"
    using assms by (simp_all add: store_inv_def)
  have "defs_ok ?s"
    using inv(1) length_delete_le [of wid "ws_defs s"] unfolding defs_ok_def s' map_of_delete by auto
  moreover have "runtimes_ok ?s"
    using inv(2) unfolding runtimes_ok_def s' map_of_delete by auto
  moreover have "events_ok ?s"
    unfolding events_ok_def s'
  proof (intro conjI allI impI)
    show "gomap_ok (AList.delete wid (ws_events s))"
      using inv(3) unfolding events_ok_def by blast
    show "total_events (AList.delete wid (ws_events s)) \<le> max_events_total"
      using inv(3) total_events_delete [of wid "ws_events s"] unfolding events_ok_def by linarith
    fix w es assume "map_of (AList.delete wid (ws_events s)) w = Some es"
    then have w: "w \<noteq> wid" "map_of (ws_events s) w = Some es"
      unfolding map_of_delete by (auto split: if_splits)
    then have "has_key (ws_defs s) w \<and> event_list_ok es"
      using inv(3) unfolding events_ok_def by blast
    then show "has_key (AList.delete wid (ws_defs s)) w" "event_list_ok es"
      using w(1) unfolding map_of_delete by simp_all
  qed
  moreover have "relations_ok ?s"
  proof -
    have ok: "gomap_ok (ws_relations s)" "length (ws_relations s) \<le> max_relations"
      using inv(4) unfolding relations_ok_def by blast+
    have kept: "map_of (ws_relations s) rid = Some r \<and> rl_watch r \<noteq> wid"
      if r: "map_of (ws_relations ?s) rid = Some r" for rid r
    proof (cases "map_of (ws_relations s) rid")
      case (Some r')
      then show ?thesis
        using r unfolding s' map_of_filter_gomap [OF ok(1)] by (simp split: if_splits)
    qed (use r in \<open>simp add: s' map_of_filter_gomap [OF ok(1)]\<close>)
    show ?thesis
      unfolding relations_ok_def
    proof (intro conjI allI impI)
      show "gomap_ok (ws_relations ?s)"
        unfolding s' by (rule distinct_map_filter [OF ok(1)])
      show "length (ws_relations ?s) \<le> max_relations"
        unfolding s' by (rule order.trans [OF length_filter_le ok(2)])
      fix rid r assume "map_of (ws_relations ?s) rid = Some r"
      then have r: "map_of (ws_relations s) rid = Some r" "rl_watch r \<noteq> wid"
        using kept by blast+
      then have "hex32 rid \<and> rl_recording r = rid \<and> 1 \<le> rl_part r \<and> has_key (ws_defs s) (rl_watch r)"
        using inv(4) unfolding relations_ok_def by blast
      then show "hex32 rid" "rl_recording r = rid" "1 \<le> rl_part r" "has_key (ws_defs ?s) (rl_watch r)"
        using r(2) unfolding s' map_of_delete by simp_all
    qed
  qed
  ultimately show ?thesis
    by (simp add: store_inv_def)
next
  case False
  then show ?thesis
    using assms by (auto simp: store_delete_def)
qed

section \<open>Runs of the store\<close>

datatype store_op =
    Create "nat \<Rightarrow> outcome" watch_def secrets watch_runtime
  | Update bool "nat \<Rightarrow> outcome" watch_def secrets bool
  | Save_runtime bool string watch_runtime
  | Add_event "string option" bool string watch_event
  | Delete bool "string \<Rightarrow> bool" string
  | Save_relation "nat \<Rightarrow> bool" watch_relation
  | Delete_relation bool string

fun store_apply :: "watch_store \<Rightarrow> store_op \<Rightarrow> watch_store" where
  "store_apply s (Create io d sec r) = snd (store_create io d sec r s)"
| "store_apply s (Update readable io d sec replace) = snd (store_update readable io d sec replace s)"
| "store_apply s (Save_runtime ok wid r) = snd (save_runtime ok wid r s)"
| "store_apply s (Add_event fresh ok wid e) = snd (add_event fresh ok wid e s)"
| "store_apply s (Delete readable removed wid) = snd (store_delete readable removed wid s)"
| "store_apply s (Save_relation io rel) = snd (save_relation io rel s)"
| "store_apply s (Delete_relation ok rid) = snd (delete_relation ok rid s)"

interpretation watches: op_system store_apply store_inv
proof
  fix s p assume "store_inv s"
  then show "store_inv (store_apply s p)"
    by (cases p) (simp_all add: store_create_inv store_update_inv save_runtime_inv add_event_inv store_delete_inv
        save_relation_inv delete_relation_inv)
qed

lemma empty_store_inv: "store_inv empty_store"
  by (simp add: store_inv_def store_parts empty_store_def)

text \<open>C15: The watch store stays bounded and closed: after any operations, with any writes failing, there are at
  most 5000 watches, 50 events per watch and 10000 in all, and 10000 relations; every saved runtime is valid,
  and no runtime, event or relation belongs to a watch that does not exist.\<close>
theorem watch_store_stays_bounded:
  "let s = foldl store_apply empty_store ops
   in length (ws_defs s) \<le> 5000 \<and> total_events (ws_events s) \<le> 10000 \<and> length (ws_relations s) \<le> 10000 \<and>
      list_all (\<lambda>(wid, r). valid_runtime r \<and> has_key (ws_defs s) wid) (ws_runtimes s) \<and>
      list_all (\<lambda>(wid, es). length es \<le> 50 \<and> has_key (ws_defs s) wid) (ws_events s) \<and>
      list_all (\<lambda>(rid, r). rl_recording r = rid \<and> has_key (ws_defs s) (rl_watch r)) (ws_relations s)"
proof -
  define s where "s = foldl store_apply empty_store ops"
  have inv: "defs_ok s" "runtimes_ok s" "events_ok s" "relations_ok s"
    using watches.run_inv [OF empty_store_inv, of ops] by (simp_all add: store_inv_def s_def)
  have "list_all (\<lambda>(wid, r). valid_runtime r \<and> has_key (ws_defs s) wid) (ws_runtimes s)"
    using inv(2) by (simp add: runtimes_ok_def list_all_gomap)
  moreover have "list_all (\<lambda>(wid, es). length es \<le> 50 \<and> has_key (ws_defs s) wid) (ws_events s)"
    using inv(3) by (simp add: events_ok_def list_all_gomap event_list_ok_def max_events_per_watch_def)
  moreover have "list_all (\<lambda>(rid, r). rl_recording r = rid \<and> has_key (ws_defs s) (rl_watch r)) (ws_relations s)"
    using inv(4) by (simp add: relations_ok_def list_all_gomap)
  ultimately show ?thesis
    using inv by (simp add: s_def [symmetric] Let_def defs_ok_def events_ok_def relations_ok_def max_watches_def
        max_events_total_def max_relations_def)
qed

text \<open>The ids a scheduler tick enqueues: the watches that are enabled, have no recording in progress or being
  started and are due, once each and in ascending order.\<close>

lemma due_ids_exact:
  assumes "store_inv s"
  shows "sorted (due_ids now s)" "distinct (due_ids now s)"
    "wid \<in> set (due_ids now s) \<longleftrightarrow> (\<exists>d. map_of (ws_defs s) wid = Some d \<and> due now d (runtime_of s wid))"
proof -
  have ok: "gomap_ok (ws_defs s)"
    using assms by (simp add: store_inv_def defs_ok_def)
  show "sorted (due_ids now s)"
    by (simp add: due_ids_def)
  show "distinct (due_ids now s)"
    by (simp add: due_ids_def distinct_map_filter [OF ok])
  show "wid \<in> set (due_ids now s) \<longleftrightarrow> (\<exists>d. map_of (ws_defs s) wid = Some d \<and> due now d (runtime_of s wid))"
    by (force simp: due_ids_def in_gomap_iff [OF ok, symmetric])
qed

text \<open>Making room never hides history: the relation that is evicted is one of the oldest, and the page of its
  watch says from then on that it is truncated.\<close>

lemma eviction_is_reported:
  assumes "store_inv s" "save_relation io rel s = (None, s')" "map_of (ws_relations s) rid = Some old"
    "map_of (ws_relations s') rid = None"
  shows "\<forall>rid' r. map_of (ws_relations s) rid' = Some r \<longrightarrow> rl_created_at old \<le> rl_created_at r"
    "\<exists>items. relations_page (rl_watch old) limit s' = Inr (items, True)"
proof -
  have rels: "gomap_ok (ws_relations s)"
    using assms(1) by (simp add: store_inv_def relations_ok_def)
  define full where "full = (\<not> has_key (ws_relations s) (rl_recording rel) \<and> max_relations \<le> length (ws_relations s))"
  have guards: "hex32 (rl_recording rel)" "hex32 (rl_watch rel)" "1 \<le> rl_part rel" "has_key (ws_defs s) (rl_watch rel)"
    using assms(2) by (auto simp: save_relation_def split: if_splits)
  have eq: "save_relation io rel s =
      (case (if full then oldest_relation (ws_relations s) else None) of
          None \<Rightarrow> put_relation (io 2) (ws_relations s) rel s
        | Some (rid, evicted) \<Rightarrow>
            (case mark_history_truncated (io 0) (rl_watch evicted) s of
               (Some e, s1) \<Rightarrow> (Some e, s1)
             | (None, s1) \<Rightarrow>
                 if \<not> io 1 then (Some ''remove'', s1)
                 else put_relation (io 2) (AList.update rid evicted (AList.delete rid (ws_relations s1))) rel
                        (s1\<lparr>ws_relations := AList.delete rid (ws_relations s1)\<rparr>)))"
    using guards by (simp add: save_relation_def full_def not_less)
  have "(if full then oldest_relation (ws_relations s) else None) \<noteq> None"
  proof
    assume "(if full then oldest_relation (ws_relations s) else None) = None"
    then have "ws_relations s' = AList.update (rl_recording rel) rel (ws_relations s)"
      using assms(2) unfolding eq by (auto simp: put_relation_def split: if_splits)
    then show False
      using assms(3,4) by (auto simp: map_of_update split: if_splits)
  qed
  then obtain rid' ev where ev: "full" "oldest_relation (ws_relations s) = Some (rid', ev)"
    by (auto split: if_splits)
  obtain e s1 where mark: "mark_history_truncated (io 0) (rl_watch ev) s = (e, s1)"
    by fastforce
  have fin: "e = None" "io 1" "io 2"
    "s' = (s1\<lparr>ws_relations := AList.update (rl_recording rel) rel (AList.delete rid' (ws_relations s1))\<rparr>)"
    using assms(2) unfolding eq by (cases e; simp add: ev mark put_relation_def split: if_splits)+
  have s1: "ws_relations s1 = ws_relations s"
    using mark_truncated_frame(1) [of "io 0" "rl_watch ev" s] mark by simp
  have "rid = rid'"
    using assms(3,4) by (auto simp: fin(4) s1 map_of_update split: if_splits)
  then have old: "old = ev"
    using oldest_relation_spec(1) [OF rels ev(2)] assms(3) by simp
  show "\<forall>rid' r. map_of (ws_relations s) rid' = Some r \<longrightarrow> rl_created_at old \<le> rl_created_at r"
    using oldest_relation_spec(2) [OF rels ev(2)] old by simp
  obtain d where d: "map_of (ws_defs s) (rl_watch old) = Some d"
    using assms(1,3) unfolding store_inv_def relations_ok_def by blast
  then have "hex32 (rl_watch old)"
    using assms(1) unfolding store_inv_def defs_ok_def by blast
  then show "\<exists>items. relations_page (rl_watch old) limit s' = Inr (items, True)"
    using d mark fin(1,4) old by (auto simp: relations_page_def mark_history_truncated_def Let_def map_of_update split: if_splits)
qed

end
