(* ===== verification/Watch_Checks.thy ===== *)
theory Watch_Checks
  imports Watch_Store
begin

text \<open>
  The handlers of the watch service, \<^verbatim>\<open>internal/watch/service.go\<close>: delays, the outcome of a check, the claim
  of a recording start and its commit, the links between watches and recordings, and the requests that
  change a watch.  Each definition is one region between \<^verbatim>\<open>s.mu.Lock\<close> and \<^verbatim>\<open>Unlock\<close> (or the whole of a function
  that takes no lock), on the store and on \<^verbatim>\<open>s.starting\<close>; the theory \<open>Watch_Service\<close> composes them.

  What a region observes from outside is a \<open>watch_env\<close>: the clock, read once per region, the jitter, a
  generated id, whether the secrets are readable and which writes succeed.  SHA-256 and the JSON codec are
  parameters.  The preview callback, whose error the service ignores, is left out.  Times are nanoseconds.
\<close>

section \<open>Data\<close>

record watch_links =
  wl_store :: watch_store
  wl_starting :: "(string, string) gomap"

record watch_env =
  en_now :: instant
  en_jitter :: "int \<Rightarrow> int"
  en_fresh :: "string option"
  en_readable :: bool
  en_runtime_ok :: bool
  en_relation_io :: "nat \<Rightarrow> bool"
  en_unlink_ok :: bool
  en_store_io :: "nat \<Rightarrow> outcome"
  en_removed :: "string \<Rightarrow> bool"
  en_event_id :: "string option"
  en_event_ok :: bool

text \<open>What \<^verbatim>\<open>manager.Get\<close> answers: the recording, \<^verbatim>\<open>storage.ErrNotFound\<close>, or another error.\<close>

datatype manager_answer = Found recording | Missing | Unreadable

fun state_text :: "recording_state \<Rightarrow> string" where
  "state_text StateRecording = ''recording''"
| "state_text StateStopped = ''stopped''"
| "state_text StateCompleted = ''completed''"
| "state_text StateInterrupted = ''interrupted''"

section \<open>Delays\<close>

definition second :: int where "second = 10 ^ 9"

definition clamp_jitter :: "(int \<Rightarrow> int) \<Rightarrow> int \<Rightarrow> int" where
  "clamp_jitter jitter base =
     (let bound = base div 10;
          delta = jitter bound;
          delta = (if delta < - bound then - bound else delta);
          delta = (if bound < delta then bound else delta)
      in if base + delta < second then second else base + delta)"

definition interval_delay :: "(int \<Rightarrow> int) \<Rightarrow> watch_def \<Rightarrow> int" where
  "interval_delay jitter d = clamp_jitter jitter (wd_interval d * second)"

text \<open>The loop of backoffDelay, with the number of rounds left.\<close>

fun backoff_seconds :: "nat \<Rightarrow> int \<Rightarrow> int" where
  "backoff_seconds 0 seconds = seconds"
| "backoff_seconds (Suc n) seconds =
     (if seconds < 300 then backoff_seconds n (if 300 < seconds * 2 then 300 else seconds * 2) else seconds)"

definition backoff_delay :: "(int \<Rightarrow> int) \<Rightarrow> int \<Rightarrow> int" where
  "backoff_delay jitter failures =
     (let delay = clamp_jitter jitter (backoff_seconds (nat (failures - 1)) 10 * second)
      in if 300 * second < delay then 300 * second else delay)"

definition startup_stagger :: "(string \<Rightarrow> string) \<Rightarrow> string \<Rightarrow> int \<Rightarrow> int" where
  "startup_stagger sha256 wid interval =
     (if interval \<le> 0 then 0
      else
        let millis = interval * 1000;
            b = (\<lambda>i. int (byte (sha256 wid ! i)));
            n = b 0 * 2 ^ 24 + b 1 * 2 ^ 16 + b 2 * 2 ^ 8 + b 3
        in if millis \<le> 0 then 0 else (n mod millis) * 10 ^ 6)"

section \<open>Writes\<close>

definition put_runtime :: "watch_env \<Rightarrow> string \<Rightarrow> watch_runtime \<Rightarrow> watch_links \<Rightarrow> watch_error option \<times> watch_links" where
  "put_runtime env wid r c =
     (let (e, s) = save_runtime (en_runtime_ok env) wid r (wl_store c) in (e, c\<lparr>wl_store := s\<rparr>))"

text \<open>\<^verbatim>\<open>_ = s.store.SaveRuntime(\<dots>)\<close> and the like: the error is dropped.\<close>

definition try_runtime :: "watch_env \<Rightarrow> string \<Rightarrow> watch_runtime \<Rightarrow> watch_links \<Rightarrow> watch_links" where
  "try_runtime env wid r c = snd (put_runtime env wid r c)"

definition unlink :: "watch_env \<Rightarrow> string \<Rightarrow> watch_links \<Rightarrow> watch_links" where
  "unlink env rid c = c\<lparr>wl_store := snd (delete_relation (en_unlink_ok env) rid (wl_store c))\<rparr>"

definition note_event :: "watch_env \<Rightarrow> string \<Rightarrow> string \<Rightarrow> string \<Rightarrow> string \<Rightarrow> watch_links \<Rightarrow> watch_links" where
  "note_event env wid kind rid code c =
     c\<lparr>wl_store := snd (add_event (en_event_id env) (en_event_ok env) wid
         \<lparr>we_id = [], we_type = kind, we_at = en_now env, we_phase = Unset, we_recording = rid, we_code = code\<rparr>
         (wl_store c))\<rparr>"

definition end_start :: "string \<Rightarrow> watch_links \<Rightarrow> watch_links" where
  "end_start wid c = c\<lparr>wl_starting := AList.delete wid (wl_starting c)\<rparr>"

definition idle_runtime :: "watch_def \<Rightarrow> instant \<Rightarrow> watch_runtime \<Rightarrow> watch_runtime" where
  "idle_runtime d next r =
     (if wd_enabled d then r\<lparr>wr_phase := Checking, wr_next_check := Some next\<rparr>
      else r\<lparr>wr_phase := Disabled, wr_next_check := None\<rparr>)"

definition attention_runtime :: "watch_runtime \<Rightarrow> watch_runtime" where
  "attention_runtime r = r\<lparr>wr_phase := Attention_required, wr_error_code := ''storage_failed'', wr_next_check := None\<rparr>"

section \<open>Checks\<close>

text \<open>The first region of runCheck; \<open>Link_first\<close> says that the watch has a recording and reconcileOne follows.\<close>

datatype check_begin = Not_checked "watch_error option" | Link_first watch_def watch_runtime | Check_now watch_def

definition begin_check :: "watch_env \<Rightarrow> string \<Rightarrow> watch_links \<Rightarrow> check_begin \<times> watch_links" where
  "begin_check env wid c =
     (case store_get (en_readable env) wid (wl_store c) of
        Inl e \<Rightarrow> (Not_checked (Some e), c)
      | Inr (d, r, _) \<Rightarrow>
          if \<not> wd_enabled d then (Not_checked None, c)
          else if wr_active r \<noteq> [] then (Link_first d r, c)
          else
            (case put_runtime env wid (r\<lparr>wr_phase := Checking, wr_last_check := Some (en_now env)\<rparr>) c of
               (Some e, c1) \<Rightarrow> (Not_checked (Some e), c1)
             | (None, c1) \<Rightarrow> (Check_now d, c1)))"

text \<open>What the adapter answers a check.  \<open>Live\<close> carries the session reference and whether media came with it;
  \<open>Check_error\<close> the protocol error's code, if there is one.\<close>

datatype check_result = Check_cancelled | Check_error "string option" | Offline_now | Live string bool

record adapter_view =
  av_name :: string
  av_state :: string
  av_capabilities :: "string list option"

definition contains_capability :: "string list \<Rightarrow> string \<Rightarrow> bool" where
  "contains_capability caps x \<longleftrightarrow> List.member caps x"

definition safe_attention_code :: "string \<Rightarrow> bool" where
  "safe_attention_code code \<longleftrightarrow>
     code \<in> set [''authentication_required'', ''interaction_required'', ''configuration_required'']"

text \<open>The rest of runCheck, from the adapter lookup to the handler that ends the check: a failure with its code
  and whether it needs attention, an offline observation, or a live one.\<close>

datatype check_verdict = Give_up | Failed_check string bool | Is_offline | Is_live string bool bool

definition judge_check :: "adapter_view option \<Rightarrow> check_result \<Rightarrow> check_verdict" where
  "judge_check adapter result =
     (case adapter of
        None \<Rightarrow> Failed_check ''adapter_unavailable'' False
      | Some a \<Rightarrow>
          (case av_capabilities a of
             None \<Rightarrow> Failed_check ''adapter_unavailable'' False
           | Some caps \<Rightarrow>
               if av_state a = ''disabled'' \<or> av_state a = ''rejected'' then Failed_check ''adapter_disabled'' True
               else if av_state a \<noteq> ''ready'' then Failed_check ''adapter_unavailable'' False
               else if \<not> contains_capability caps ''watch'' then Failed_check ''adapter_unavailable'' True
               else
                 (case result of
                    Check_cancelled \<Rightarrow> Give_up
                  | Check_error (Some code) \<Rightarrow>
                      if safe_attention_code code then Failed_check code True else Failed_check ''check_failed'' False
                  | Check_error None \<Rightarrow> Failed_check ''check_failed'' False
                  | Offline_now \<Rightarrow> Is_offline
                  | Live session media \<Rightarrow> Is_live session media (contains_capability caps ''resolve''))))"

definition drop_pending :: "watch_env \<Rightarrow> string \<Rightarrow> watch_runtime \<Rightarrow> watch_links \<Rightarrow> watch_links" where
  "drop_pending env wid r c = (if wr_pending r = [] then c else end_start wid (unlink env (wr_pending r) c))"

definition failed_runtime :: "watch_env \<Rightarrow> string \<Rightarrow> bool \<Rightarrow> watch_runtime \<Rightarrow> watch_runtime" where
  "failed_runtime env code attention r =
     (let n = (if wr_failures r < 16 then wr_failures r + 1 else wr_failures r)
      in r\<lparr>wr_starting_at := None, wr_pending := [], wr_failures := n,
           wr_phase := (if attention then Attention_required else Backoff),
           wr_next_check := Some (en_now env + backoff_delay (en_jitter env) n), wr_error_code := code\<rparr>)"

definition check_failed ::
    "watch_env \<Rightarrow> string \<Rightarrow> string \<Rightarrow> bool \<Rightarrow> watch_links \<Rightarrow> watch_error option \<times> watch_links" where
  "check_failed env wid code attention c =
     (case store_get (en_readable env) wid (wl_store c) of
        Inl e \<Rightarrow> (Some e, c)
      | Inr (d, r, _) \<Rightarrow>
          if \<not> wd_enabled d
          then put_runtime env wid
                 (r\<lparr>wr_phase := Disabled, wr_next_check := None, wr_starting_at := None, wr_pending := []\<rparr>)
                 (drop_pending env wid r c)
          else
            (case put_runtime env wid (failed_runtime env code attention r) (drop_pending env wid r c) of
               (Some e, c1) \<Rightarrow> (Some e, c1)
             | (None, c1) \<Rightarrow>
                 let c2 = note_event env wid ''check_failed'' [] code c1
                 in (None, if attention then note_event env wid ''attention_required'' [] code c2 else c2)))"

definition offline_runtime :: "watch_env \<Rightarrow> instant \<Rightarrow> watch_def \<Rightarrow> watch_runtime \<Rightarrow> watch_runtime" where
  "offline_runtime env t d r =
     r\<lparr>wr_phase := (if wd_enabled d then Offline else Disabled), wr_failures := 0, wr_error_code := [],
       wr_observed_live := False, wr_digest := [], wr_suppressed_digest := [], wr_suppressed := False,
       wr_outcome := [], wr_active := [], wr_starting_at := None,
       wr_next_check := (if wd_enabled d then Some (t + interval_delay (en_jitter env) d) else None)\<rparr>"

text \<open>\<open>t\<close> is the time at which the check began.\<close>

definition check_offline :: "watch_env \<Rightarrow> string \<Rightarrow> instant \<Rightarrow> watch_links \<Rightarrow> watch_error option \<times> watch_links" where
  "check_offline env wid t c =
     (case store_get (en_readable env) wid (wl_store c) of
        Inl e \<Rightarrow> (Some e, c)
      | Inr (d, r, _) \<Rightarrow>
          (case put_runtime env wid (offline_runtime env t d r) c of
             (Some e, c1) \<Rightarrow> (Some e, c1)
           | (None, c1) \<Rightarrow>
               (None, if wr_observed_live r then note_event (env\<lparr>en_now := t\<rparr>) wid ''recording_ended'' [] [] c1 else c1)))"

section \<open>A live watch\<close>

definition session_digest :: "(string \<Rightarrow> string) \<Rightarrow> string \<Rightarrow> string" where
  "session_digest sha256 session = (if session = [] then [] else hex_encode (sha256 session))"

definition lift_suppression :: "watch_runtime \<Rightarrow> watch_runtime" where
  "lift_suppression r = r\<lparr>wr_suppressed := False, wr_suppressed_digest := [], wr_outcome := []\<rparr>"

text \<open>The runtime after the observation, before the decision.\<close>

definition observe_live :: "string \<Rightarrow> watch_runtime \<Rightarrow> watch_runtime" where
  "observe_live digest r =
     (let fresh_session = digest \<noteq> [] \<and> wr_digest r \<noteq> [] \<and> digest \<noteq> wr_digest r;
          r1 = (if fresh_session then lift_suppression r else r);
          r2 = (if digest \<noteq> [] then r1\<lparr>wr_digest := digest\<rparr> else r1)
      in r2\<lparr>wr_observed_live := True, wr_failures := 0, wr_error_code := []\<rparr>)"

definition note_live :: "watch_env \<Rightarrow> string \<Rightarrow> string \<Rightarrow> watch_runtime \<Rightarrow> watch_links \<Rightarrow> watch_links" where
  "note_live env wid digest r c =
     (if \<not> wr_observed_live r \<or> (digest \<noteq> [] \<and> wr_digest r \<noteq> [] \<and> digest \<noteq> wr_digest r)
      then note_event env wid ''live_detected'' [] [] c else c)"

definition same_session :: "string \<Rightarrow> watch_runtime \<Rightarrow> bool" where
  "same_session digest r = (if digest = [] then wr_observed_live r else digest = wr_digest r)"

definition suppressed_runtime :: "watch_env \<Rightarrow> watch_def \<Rightarrow> watch_runtime \<Rightarrow> watch_runtime" where
  "suppressed_runtime env d r =
     r\<lparr>wr_phase := Suppressed, wr_next_check := Some (en_now env + interval_delay (en_jitter env) d)\<rparr>"

text \<open>The decision: the check is over, the media has to be resolved first, or a start is claimed.  The
  runtime carried on is the one \<^verbatim>\<open>live\<close> keeps as its local copy.\<close>

datatype live_decision = Finished "watch_error option" | Resolve watch_runtime | Claim watch_runtime

definition finish_with :: "watch_error option \<times> watch_links \<Rightarrow> live_decision \<times> watch_links" where
  "finish_with p = (Finished (fst p), snd p)"

definition decide_start ::
    "watch_env \<Rightarrow> bool \<Rightarrow> bool \<Rightarrow> string \<Rightarrow> bool \<Rightarrow> watch_def \<Rightarrow> watch_runtime \<Rightarrow> watch_links \<Rightarrow> live_decision \<times> watch_links" where
  "decide_start env media can_resolve wid same d r c =
     (if same \<and> (wr_outcome r = ''completed'' \<or> wr_outcome r = ''stopped'')
      then finish_with (put_runtime env wid (suppressed_runtime env d r) c)
      else if wr_active r \<noteq> []
      then finish_with (put_runtime env wid (r\<lparr>wr_phase := Recording_now, wr_next_check := None\<rparr>) c)
      else if media then (Claim r, c)
      else if \<not> can_resolve
      then
        let c1 = try_runtime env wid
              (r\<lparr>wr_phase := Attention_required, wr_next_check := Some (en_now env + interval_delay (en_jitter env) d)\<rparr>) c
        in (Finished None, note_event env wid ''attention_required'' [] ''resolve_unavailable'' c1)
      else (Resolve r, c))"

definition live_decide ::
    "watch_env \<Rightarrow> string \<Rightarrow> bool \<Rightarrow> bool \<Rightarrow> string \<Rightarrow> watch_links \<Rightarrow> live_decision \<times> watch_links" where
  "live_decide env digest media can_resolve wid c =
     (case store_get (en_readable env) wid (wl_store c) of
        Inl _ \<Rightarrow> (Finished None, c)
      | Inr (d, r, _) \<Rightarrow>
          if \<not> wd_enabled d then (Finished None, c)
          else
            let c1 = note_live env wid digest r c;
                r1 = observe_live digest r
            in if wr_suppressed r1 \<and>
                  (wr_suppressed_digest r1 = [] \<or> digest = [] \<or> wr_suppressed_digest r1 = digest)
               then finish_with (put_runtime env wid (suppressed_runtime env d r1) c1)
               else decide_start env media can_resolve wid (same_session digest r) d
                      (if wr_suppressed r1 then lift_suppression r1 else r1) c1)"

section \<open>Starting a recording\<close>

definition claimed_runtime :: "instant \<Rightarrow> string \<Rightarrow> watch_runtime \<Rightarrow> watch_runtime" where
  "claimed_runtime t pid r =
     r\<lparr>wr_phase := Starting, wr_starting_at := Some t, wr_pending := pid, wr_next_check := None\<rparr>"

definition claim_starting ::
    "watch_env \<Rightarrow> string \<Rightarrow> watch_runtime \<Rightarrow> instant \<Rightarrow> watch_links \<Rightarrow> (watch_error + string) \<times> watch_links" where
  "claim_starting env wid r t c =
     (case en_fresh env of
        None \<Rightarrow> (Inl ''random'', c)
      | Some pid \<Rightarrow>
          (case store_get (en_readable env) wid (wl_store c) of
             Inl e \<Rightarrow> (Inl e, c)
           | Inr (d, current, _) \<Rightarrow>
               if \<not> wd_enabled d \<or> wr_active current \<noteq> [] \<or> wr_pending current \<noteq> [] \<or> wr_phase current = Starting
               then (Inl ''watch already has an active recording'', c)
               else
                 (case put_runtime env wid (claimed_runtime t pid r) c of
                    (Some e, c1) \<Rightarrow> (Inl e, c1)
                  | (None, c1) \<Rightarrow> (Inr pid, c1\<lparr>wl_starting := AList.update wid pid (wl_starting c1)\<rparr>))))"

text \<open>A start that is given up: the claim is dropped and the watch is due after its interval, counted from \<open>t\<close>.\<close>

definition unclaimed_runtime :: "watch_env \<Rightarrow> instant \<Rightarrow> watch_def \<Rightarrow> watch_runtime \<Rightarrow> watch_runtime" where
  "unclaimed_runtime env t d r =
     idle_runtime d (t + interval_delay (en_jitter env) d) (r\<lparr>wr_pending := [], wr_starting_at := None\<rparr>)"

definition clear_pending_start :: "watch_env \<Rightarrow> string \<Rightarrow> string \<Rightarrow> watch_links \<Rightarrow> watch_links" where
  "clear_pending_start env wid pid c =
     (let c1 = unlink env pid c; c2 = end_start wid c1
      in case store_get (en_readable env) wid (wl_store c1) of
           Inl _ \<Rightarrow> c2
         | Inr (d, r, _) \<Rightarrow>
             if wr_pending r \<noteq> pid then c2 else try_runtime env wid (unclaimed_runtime env (en_now env) d r) c2)"

text \<open>The last look before the recording manager is called, under the watch's start gate; the relation of the
  recording to the watch is durable before the recording exists.\<close>

datatype admission = Abandoned | Not_saved | Admitted watch_def watch_runtime

definition start_relation :: "string \<Rightarrow> string \<Rightarrow> string \<Rightarrow> instant \<Rightarrow> watch_store \<Rightarrow> watch_relation" where
  "start_relation wid pid digest t s =
     \<lparr>rl_recording = pid, rl_watch = wid, rl_digest = digest, rl_part = part_count wid digest s + 1, rl_created_at = t\<rparr>"

definition abandon_start :: "watch_env \<Rightarrow> instant \<Rightarrow> string \<Rightarrow> string \<Rightarrow> watch_def \<Rightarrow> watch_runtime \<Rightarrow> watch_links \<Rightarrow> watch_links" where
  "abandon_start env t wid pid d r c = try_runtime env wid (unclaimed_runtime env t d r) (unlink env pid c)"

definition admit_start ::
    "watch_env \<Rightarrow> string \<Rightarrow> string \<Rightarrow> string \<Rightarrow> instant \<Rightarrow> watch_links \<Rightarrow> admission \<times> watch_links" where
  "admit_start env wid pid digest t c =
     (case store_get (en_readable env) wid (wl_store c) of
        Inl _ \<Rightarrow> (Abandoned, end_start wid (unlink env pid c))
      | Inr (d, r, _) \<Rightarrow>
          if wr_pending r \<noteq> pid then (Abandoned, end_start wid (unlink env pid c))
          else if \<not> wd_enabled d \<or> wr_active r \<noteq> []
          then (Abandoned, end_start wid (abandon_start env t wid pid d r c))
          else
            (case save_relation (en_relation_io env) (start_relation wid pid digest t (wl_store c)) (wl_store c) of
               (Some e, s) \<Rightarrow>
                 (Not_saved, try_runtime env wid (r\<lparr>wr_pending := [], wr_starting_at := None\<rparr>)
                               (end_start wid (c\<lparr>wl_store := s\<rparr>)))
             | (None, s) \<Rightarrow> (Admitted d r, c\<lparr>wl_store := s\<rparr>)))"

text \<open>After \<^verbatim>\<open>StartResolvedWithID\<close>: the region that follows an error, with the definition and runtime read at
  admission, and the commit.\<close>

definition start_refused ::
    "watch_env \<Rightarrow> string \<Rightarrow> string \<Rightarrow> instant \<Rightarrow> watch_def \<Rightarrow> watch_runtime \<Rightarrow> watch_links \<Rightarrow> watch_links" where
  "start_refused env wid pid t d r c = abandon_start env t wid pid d r (end_start wid c)"

definition active_runtime :: "string \<Rightarrow> watch_runtime \<Rightarrow> watch_runtime" where
  "active_runtime rid r =
     r\<lparr>wr_active := rid, wr_pending := [], wr_phase := Recording_now, wr_starting_at := None, wr_next_check := None\<rparr>"

definition commit_start :: "watch_env \<Rightarrow> string \<Rightarrow> string \<Rightarrow> recording \<Rightarrow> watch_links \<Rightarrow> watch_links" where
  "commit_start env wid pid rec c =
     (let c1 = end_start wid c
      in case store_get (en_readable env) wid (wl_store c) of
           Inl _ \<Rightarrow> c1
         | Inr (d, r, _) \<Rightarrow>
             if wr_pending r \<noteq> pid \<or> \<not> wd_enabled d then c1
             else
               (case put_runtime env wid ((active_runtime (rec_id rec) r)\<lparr>wr_outcome := []\<rparr>) c1 of
                  (Some _, c2) \<Rightarrow> c2
                | (None, c2) \<Rightarrow> note_event (env\<lparr>en_now := rec_started_at rec\<rparr>) wid ''recording_started'' (rec_id rec) [] c2))"

section \<open>Links between watches and recordings\<close>

text \<open>markTerminal: the recording of the watch has ended; the runtime it leaves in its caller's variable comes
  with the new state.\<close>

definition terminal_runtime :: "watch_env \<Rightarrow> instant \<Rightarrow> watch_def \<Rightarrow> recording \<Rightarrow> watch_runtime \<Rightarrow> watch_runtime" where
  "terminal_runtime env t d rec r =
     (let interrupted = (rec_state rec = StateInterrupted);
          n = (if interrupted then wr_failures r + 1 else wr_failures r);
          delay = (if interrupted then backoff_delay (en_jitter env) n else 0)
      in idle_runtime d (t + delay)
           (r\<lparr>wr_active := [], wr_starting_at := None, wr_outcome := state_text (rec_state rec), wr_failures := n\<rparr>))"

definition mark_terminal ::
    "watch_env \<Rightarrow> instant \<Rightarrow> string \<Rightarrow> watch_def \<Rightarrow> recording \<Rightarrow> watch_runtime \<Rightarrow> watch_links \<Rightarrow> watch_runtime \<times> watch_links" where
  "mark_terminal env t wid d rec r c =
     (let r1 = terminal_runtime env t d rec r
      in (r1, note_event (env\<lparr>en_now := t\<rparr>) wid ''recording_ended'' (rec_id rec) [] (try_runtime env wid r1 c)))"

text \<open>reconcileOne overwrites the runtime of the watch with a change of \<open>r\<close>, the copy its caller holds; it takes no
  lock.\<close>

definition reconcile_one ::
    "watch_env \<Rightarrow> instant \<Rightarrow> string \<Rightarrow> watch_def \<Rightarrow> watch_runtime \<Rightarrow> manager_answer \<Rightarrow> watch_links \<Rightarrow> watch_links" where
  "reconcile_one env t wid d r answer c =
     (case answer of
        Unreadable \<Rightarrow> try_runtime env wid (attention_runtime r) c
      | Missing \<Rightarrow> try_runtime env wid (idle_runtime d t (r\<lparr>wr_active := []\<rparr>)) (unlink env (wr_active r) c)
      | Found rec \<Rightarrow>
          if rec_state rec = StateRecording
          then try_runtime env wid (r\<lparr>wr_phase := Recording_now, wr_next_check := None\<rparr>) c
          else snd (mark_terminal env t wid d rec r c))"

text \<open>The relation of a recording that a start left behind: the stored one, or a new one for the session last
  seen.  \<open>None\<close> in the first component says that it could not be saved.\<close>

definition pending_relation ::
    "watch_env \<Rightarrow> string \<Rightarrow> watch_runtime \<Rightarrow> recording \<Rightarrow> watch_store \<Rightarrow> watch_relation option \<times> watch_store" where
  "pending_relation env wid r rec s =
     (case relation_of (wr_pending r) s of
        Inr rel \<Rightarrow> (Some rel, s)
      | Inl _ \<Rightarrow>
          let rel = start_relation wid (wr_pending r) (wr_digest r) (rec_started_at rec) s
          in case save_relation (en_relation_io env) rel s of
               (Some _, s1) \<Rightarrow> (None, s1)
             | (None, s1) \<Rightarrow> (Some rel, s1))"

definition reconcile_pending :: "watch_env \<Rightarrow> string \<Rightarrow> (string \<Rightarrow> manager_answer) \<Rightarrow> watch_links \<Rightarrow> watch_links" where
  "reconcile_pending env wid manager c =
     (case store_get (en_readable env) wid (wl_store c) of
        Inl _ \<Rightarrow> c
      | Inr (d, r, _) \<Rightarrow>
          if wr_pending r = [] \<or> map_of (wl_starting c) wid = Some (wr_pending r) then c
          else
            (case manager (wr_pending r) of
               Missing \<Rightarrow>
                 try_runtime env wid (idle_runtime d (en_now env) (r\<lparr>wr_pending := [], wr_starting_at := None\<rparr>))
                   (unlink env (wr_pending r) c)
             | Unreadable \<Rightarrow> try_runtime env wid (attention_runtime r) c
             | Found rec \<Rightarrow>
                 let (rel, s) = pending_relation env wid r rec (wl_store c); c1 = c\<lparr>wl_store := s\<rparr>
                 in if (case rel of None \<Rightarrow> True | Some x \<Rightarrow> rl_watch x \<noteq> wid)
                    then try_runtime env wid (attention_runtime r) c1
                    else if rec_state rec = StateRecording
                    then try_runtime env wid (active_runtime (wr_pending r) r) c1
                    else snd (mark_terminal env (en_now env) wid d rec
                                (r\<lparr>wr_active := wr_pending r, wr_pending := []\<rparr>) c1)))"

text \<open>The region of NotifyRecordingStopped for the watch that its scan of the store names.\<close>

definition stopped_runtime :: "watch_env \<Rightarrow> watch_def \<Rightarrow> watch_runtime \<Rightarrow> watch_runtime" where
  "stopped_runtime env d r =
     r\<lparr>wr_active := [],
       wr_phase := (if wd_enabled d then Suppressed else Disabled),
       wr_next_check := (if wd_enabled d then Some (en_now env + interval_delay (en_jitter env) d) else None),
       wr_suppressed := True, wr_suppressed_digest := wr_digest r, wr_outcome := ''stopped'',
       wr_starting_at := None, wr_pending := []\<rparr>"

definition notify_stopped :: "watch_env \<Rightarrow> string \<Rightarrow> string \<Rightarrow> watch_links \<Rightarrow> watch_links" where
  "notify_stopped env wid rid c =
     (if \<not> hex32 rid then c
      else case store_get (en_readable env) wid (wl_store c) of
        Inl _ \<Rightarrow> c
      | Inr (d, r, _) \<Rightarrow>
          if wr_active r \<noteq> rid then c
          else note_event env wid ''recording_ended'' rid [] (try_runtime env wid (stopped_runtime env d r) c))"

section \<open>Recovery at startup\<close>

text \<open>recoverLinks for one watch, from the copies of its snapshot, in the three parts of the loop body.  The
  first component says that the body continues with the next watch.\<close>

definition recover_active ::
    "watch_env \<Rightarrow> instant \<Rightarrow> string \<Rightarrow> watch_def \<Rightarrow> (string \<Rightarrow> manager_answer) \<Rightarrow> watch_runtime \<times> watch_links \<Rightarrow>
     bool \<times> watch_runtime \<times> watch_links" where
  "recover_active env t wid d manager rc =
     (case rc of (r, c) \<Rightarrow>
        if wr_active r = [] then (False, r, c)
        else case manager (wr_active r) of
          Found rec \<Rightarrow>
            if rec_state rec = StateRecording
            then let r1 = r\<lparr>wr_phase := Recording_now, wr_next_check := None\<rparr> in (True, r1, try_runtime env wid r1 c)
            else (False, mark_terminal env t wid d rec r c)
        | Missing \<Rightarrow> (False, idle_runtime d t (r\<lparr>wr_active := []\<rparr>), unlink env (wr_active r) c)
        | Unreadable \<Rightarrow> (True, attention_runtime r, try_runtime env wid (attention_runtime r) c))"

definition recover_pending ::
    "watch_env \<Rightarrow> instant \<Rightarrow> string \<Rightarrow> watch_def \<Rightarrow> (string \<Rightarrow> manager_answer) \<Rightarrow> watch_runtime \<times> watch_links \<Rightarrow>
     bool \<times> watch_runtime \<times> watch_links" where
  "recover_pending env t wid d manager rc =
     (case rc of (r, c) \<Rightarrow>
        if wr_pending r = []
        then (False,
              if wr_phase r = Starting
              then r\<lparr>wr_phase := Attention_required, wr_error_code := ''start_recovery_ambiguous'',
                     wr_starting_at := None, wr_next_check := None\<rparr>
              else r, c)
        else case manager (wr_pending r) of
          Found rec \<Rightarrow>
            let (rel, s) = pending_relation env wid r rec (wl_store c); c1 = c\<lparr>wl_store := s\<rparr>
            in if (case rel of None \<Rightarrow> False | Some x \<Rightarrow> rl_watch x \<noteq> wid)
               then (True, attention_runtime r, try_runtime env wid (attention_runtime r) c1)
               else if rec_state rec = StateRecording then (False, active_runtime (wr_pending r) r, c1)
               else (False, mark_terminal env t wid d rec (r\<lparr>wr_active := wr_pending r, wr_pending := []\<rparr>) c1)
        | Missing \<Rightarrow>
            (False, idle_runtime d t (r\<lparr>wr_pending := [], wr_starting_at := None\<rparr>), unlink env (wr_pending r) c)
        | Unreadable \<Rightarrow> (True, attention_runtime r, try_runtime env wid (attention_runtime r) c))"

definition rescheduled_runtime :: "(string \<Rightarrow> string) \<Rightarrow> instant \<Rightarrow> string \<Rightarrow> watch_def \<Rightarrow> watch_runtime \<Rightarrow> watch_runtime" where
  "rescheduled_runtime sha256 t wid d r =
     (if wr_active r \<noteq> [] then r
      else if \<not> wd_enabled d then r\<lparr>wr_phase := Disabled, wr_next_check := None\<rparr>
      else if (case wr_next_check r of None \<Rightarrow> True | Some next \<Rightarrow> next < t)
      then r\<lparr>wr_next_check := Some (t + startup_stagger sha256 wid (wd_interval d)),
             wr_phase := (if wr_phase r = Offline then Checking else wr_phase r)\<rparr>
      else r)"

definition recover_one ::
    "(nat \<Rightarrow> watch_env) \<Rightarrow> (string \<Rightarrow> string) \<Rightarrow> instant \<Rightarrow> string \<Rightarrow> watch_def \<Rightarrow> watch_runtime \<Rightarrow>
     (string \<Rightarrow> manager_answer) \<Rightarrow> watch_links \<Rightarrow> watch_links" where
  "recover_one envs sha256 t wid d r manager c =
     (case recover_active (envs 0) t wid d manager (r, c) of
        (True, _, c1) \<Rightarrow> c1
      | (False, rc1) \<Rightarrow>
          (case recover_pending (envs 1) t wid d manager rc1 of
             (True, _, c2) \<Rightarrow> c2
           | (False, r2, c2) \<Rightarrow> try_runtime (envs 2) wid (rescheduled_runtime sha256 t wid d r2) c2))"

end
