(* ===== verification/Watch_Requests.thy ===== *)
theory Watch_Requests
  imports Watch_Checks
begin

text \<open>
  The requests of the watch API, \<^verbatim>\<open>internal/watch/service.go\<close>: Create, Update, SetEnabled, Delete and the views.
  The adapter host is a parameter (\<open>adapters\<close>), as are SHA-256 and the canonical JSON text of an object
  (\<open>canonical\<close>, undefined when the input is not an object); an error is its message.  The requests that
  wait for the start gate of a watch are guarded by it in \<open>Watch_Service\<close>.
\<close>

record adapters =
  ad_get :: "string \<Rightarrow> adapter_view option"
  ad_resource_ok :: "string \<Rightarrow> resource_reference option \<Rightarrow> bool"
  ad_input_ok :: "string \<Rightarrow> string \<Rightarrow> secrets \<Rightarrow> resource_reference option \<Rightarrow> bool"

record watch_request =
  rq_adapter :: string
  rq_resource :: "resource_reference option"
  rq_clear_resource :: bool
  rq_input :: string
  rq_secrets :: "secrets option"
  rq_clear_secrets :: "string list"
  rq_title :: "string option"
  rq_preview_mode :: string
  rq_interval :: "int option"
  rq_enabled :: "bool option"

definition min_interval :: int where "min_interval = 2"
definition max_interval :: int where "max_interval = 3600"
definition default_interval :: int where "default_interval = 10"

section \<open>Validation\<close>

definition validate_adapter_for_watch ::
    "adapters \<Rightarrow> string \<Rightarrow> string \<Rightarrow> secrets \<Rightarrow> resource_reference option \<Rightarrow> watch_error option" where
  "validate_adapter_for_watch ad aid input sec resource =
     (case ad_get ad aid of
        None \<Rightarrow> Some ''adapter does not support unattended watches''
      | Some a \<Rightarrow>
          (case av_capabilities a of
             None \<Rightarrow> Some ''adapter does not support unattended watches''
           | Some caps \<Rightarrow>
               if av_state a \<noteq> ''ready'' then Some ''adapter is unavailable''
               else if \<not> contains_capability caps ''watch'' then Some ''adapter does not support unattended watches''
               else if \<not> ad_resource_ok ad aid resource then Some ''invalid resource reference''
               else if \<not> ad_input_ok ad aid input sec resource then Some ''invalid watch''
               else if \<not> valid_secrets sec then Some ''invalid watch''
               else None))"

definition valid_title :: "string \<Rightarrow> bool" where
  "valid_title title \<longleftrightarrow> length title \<le> 1024 \<and> utf8_valid title"

definition valid_interval :: "int \<Rightarrow> bool" where
  "valid_interval i \<longleftrightarrow> min_interval \<le> i \<and> i \<le> max_interval"

definition normalize_object :: "(string \<Rightarrow> string option) \<Rightarrow> string \<Rightarrow> string option" where
  "normalize_object canonical raw =
     (case canonical raw of
        None \<Rightarrow> None
      | Some object \<Rightarrow> if max_input_bytes < length object then None else Some object)"

fun same_ref :: "resource_reference option \<Rightarrow> resource_reference option \<Rightarrow> bool" where
  "same_ref (Some (ResourceReference t i p)) (Some (ResourceReference t' i' p')) \<longleftrightarrow>
     t = t' \<and> i = i' \<and> same_ref p p'"
| "same_ref None None \<longleftrightarrow> True"
| "same_ref _ _ \<longleftrightarrow> False"

section \<open>Create\<close>

definition requested_title :: "string \<Rightarrow> watch_request \<Rightarrow> string" where
  "requested_title current rq = (case rq_title rq of None \<Rightarrow> current | Some title \<Rightarrow> trim_space title)"

definition requested_mode :: "string \<Rightarrow> watch_request \<Rightarrow> string" where
  "requested_mode current rq =
     (let mode = (if rq_preview_mode rq = [] then current else rq_preview_mode rq)
      in if mode = [] then ''disabled'' else mode)"

definition valid_mode :: "string \<Rightarrow> bool" where
  "valid_mode mode \<longleftrightarrow> mode = ''disabled'' \<or> mode = ''segment''"

definition checking_runtime :: "instant \<Rightarrow> watch_runtime" where
  "checking_runtime next = empty_runtime\<lparr>wr_phase := Checking, wr_next_check := Some next\<rparr>"

definition new_definition :: "instant \<Rightarrow> string \<Rightarrow> string \<Rightarrow> string \<Rightarrow> string \<Rightarrow> watch_request \<Rightarrow> watch_def" where
  "new_definition now wid aid input mode rq =
     \<lparr>wd_id = wid, wd_adapter = aid, wd_resource = rq_resource rq, wd_input = input, wd_enabled = True,
      wd_title = requested_title [] rq, wd_preview_mode = mode,
      wd_interval = (case rq_interval rq of None \<Rightarrow> default_interval | Some i \<Rightarrow> i), wd_truncated = False,
      wd_created_at = now, wd_updated_at = now\<rparr>"

definition create_watch ::
    "watch_env \<Rightarrow> (string \<Rightarrow> string) \<Rightarrow> (string \<Rightarrow> string option) \<Rightarrow> adapters \<Rightarrow> watch_request \<Rightarrow> watch_links \<Rightarrow>
     watch_error option \<times> watch_links" where
  "create_watch env sha256 canonical ad rq c =
     (let aid = trim_space (rq_adapter rq);
          interval = (case rq_interval rq of None \<Rightarrow> default_interval | Some i \<Rightarrow> i);
          mode = requested_mode [] rq;
          sec = (case rq_secrets rq of None \<Rightarrow> [] | Some m \<Rightarrow> m);
          now = en_now env
      in if aid = [] \<or> rq_input rq = [] \<or> max_input_bytes < length (rq_input rq) then (Some ''invalid watch'', c)
         else if \<not> valid_title (requested_title [] rq) then (Some ''invalid watch'', c)
         else if \<not> valid_interval interval then (Some ''invalid watch'', c)
         else if \<not> valid_mode mode then (Some ''invalid watch'', c)
         else
           case validate_adapter_for_watch ad aid (rq_input rq) sec (rq_resource rq) of
             Some e \<Rightarrow> (Some e, c)
           | None \<Rightarrow>
               (case normalize_object canonical (rq_input rq) of
                  None \<Rightarrow> (Some ''invalid watch'', c)
                | Some input \<Rightarrow>
                    (case en_fresh env of
                       None \<Rightarrow> (Some ''random'', c)
                     | Some wid \<Rightarrow>
                         let d = new_definition now wid aid input mode rq;
                             r = checking_runtime (now + startup_stagger sha256 wid interval)
                         in case store_create (en_store_io env) d sec r (wl_store c) of
                              (Some e, s) \<Rightarrow> (Some e, c\<lparr>wl_store := s\<rparr>)
                            | (None, s) \<Rightarrow> (None, note_event env wid ''watch_created'' [] [] (c\<lparr>wl_store := s\<rparr>)))))"

section \<open>Update\<close>

definition merge_secret :: "string \<times> string \<Rightarrow> secrets \<Rightarrow> secrets" where
  "merge_secret kv m = (if snd kv = [] then AList.delete (fst kv) m else AList.update (fst kv) (snd kv) m)"

definition updated_secrets :: "watch_request \<Rightarrow> secrets \<Rightarrow> bool \<times> secrets" where
  "updated_secrets rq old =
     (if rq_secrets rq = None \<and> rq_clear_secrets rq = [] then (False, old)
      else (True, fold merge_secret (case rq_secrets rq of None \<Rightarrow> [] | Some m \<Rightarrow> m)
                    (fold AList.delete (rq_clear_secrets rq) old)))"

definition updated_definition ::
    "instant \<Rightarrow> string \<Rightarrow> resource_reference option \<Rightarrow> string \<Rightarrow> watch_request \<Rightarrow> watch_def \<Rightarrow> watch_def" where
  "updated_definition now aid resource input rq d =
     d\<lparr>wd_adapter := aid, wd_resource := resource, wd_input := input, wd_title := requested_title (wd_title d) rq,
       wd_preview_mode := requested_mode (wd_preview_mode d) rq,
       wd_interval := (case rq_interval rq of None \<Rightarrow> wd_interval d | Some i \<Rightarrow> i),
       wd_enabled := (case rq_enabled rq of None \<Rightarrow> wd_enabled d | Some b \<Rightarrow> b), wd_updated_at := now\<rparr>"

definition updated_runtime ::
    "(string \<Rightarrow> string) \<Rightarrow> instant \<Rightarrow> string \<Rightarrow> bool \<Rightarrow> watch_def \<Rightarrow> watch_runtime \<Rightarrow> watch_runtime" where
  "updated_runtime sha256 now wid changed d r =
     (let r1 = (if changed
                then r\<lparr>wr_digest := [], wr_suppressed_digest := [], wr_suppressed := False, wr_observed_live := False,
                       wr_outcome := []\<rparr>
                else r)
      in if \<not> wd_enabled d then r1\<lparr>wr_phase := Disabled, wr_next_check := None\<rparr>
         else if changed \<or> wr_phase r1 = Disabled
         then r1\<lparr>wr_phase := Checking, wr_failures := 0,
                  wr_next_check := Some (now + startup_stagger sha256 wid (wd_interval d))\<rparr>
         else r1)"

text \<open>The region of Update after the test for a running check.\<close>

definition update_watch ::
    "watch_env \<Rightarrow> (string \<Rightarrow> string) \<Rightarrow> (string \<Rightarrow> string option) \<Rightarrow> adapters \<Rightarrow> string \<Rightarrow> watch_request \<Rightarrow>
     watch_links \<Rightarrow> watch_error option \<times> watch_links" where
  "update_watch env sha256 canonical ad wid rq c =
     (case store_get (en_readable env) wid (wl_store c) of
        Inl e \<Rightarrow> (Some e, c)
      | Inr (d, r, old) \<Rightarrow>
          let aid = (if rq_adapter rq = [] then wd_adapter d else rq_adapter rq);
              input = (if rq_input rq = [] then wd_input d else rq_input rq);
              resource = (if rq_resource rq = None \<and> \<not> rq_clear_resource rq then wd_resource d else rq_resource rq);
              interval = (case rq_interval rq of None \<Rightarrow> wd_interval d | Some i \<Rightarrow> i);
              (replace, sec) = updated_secrets rq old
          in if wr_active r \<noteq> [] \<or> wr_phase r = Starting then (Some ''watch state conflict'', c)
             else if \<not> valid_title (requested_title (wd_title d) rq) then (Some ''invalid watch'', c)
             else if \<not> valid_interval interval \<or> \<not> valid_mode (requested_mode (wd_preview_mode d) rq)
             then (Some ''invalid watch'', c)
             else
               case validate_adapter_for_watch ad aid input sec resource of
                 Some e \<Rightarrow> (Some e, c)
               | None \<Rightarrow>
                   (case normalize_object canonical input of
                      None \<Rightarrow> (Some ''invalid watch'', c)
                    | Some object \<Rightarrow>
                        let changed = (aid \<noteq> wd_adapter d \<or> \<not> same_ref resource (wd_resource d) \<or> object \<noteq> wd_input d);
                            d1 = updated_definition (en_now env) aid resource object rq d
                        in case store_update (en_readable env) (en_store_io env) d1 sec replace (wl_store c) of
                             (Some e, s) \<Rightarrow> (Some e, c\<lparr>wl_store := s\<rparr>)
                           | (None, s) \<Rightarrow>
                               (case put_runtime env wid (updated_runtime sha256 (en_now env) wid changed d1 r)
                                       (c\<lparr>wl_store := s\<rparr>) of
                                  (Some e, c1) \<Rightarrow> (Some e, c1)
                                | (None, c1) \<Rightarrow> (None, note_event env wid ''watch_updated'' [] [] c1))))"

section \<open>Enabling and deleting\<close>

definition enabled_runtime ::
    "(string \<Rightarrow> string) \<Rightarrow> instant \<Rightarrow> string \<Rightarrow> bool \<Rightarrow> watch_def \<Rightarrow> watch_runtime \<Rightarrow> watch_runtime" where
  "enabled_runtime sha256 now wid enabled d r =
     (if wr_active r \<noteq> [] then r\<lparr>wr_phase := Recording_now, wr_next_check := None\<rparr>
      else if enabled
      then r\<lparr>wr_phase := Checking, wr_failures := 0,
             wr_next_check := Some (now + startup_stagger sha256 wid (wd_interval d))\<rparr>
      else r\<lparr>wr_phase := Disabled, wr_next_check := None\<rparr>)"

definition set_enabled ::
    "watch_env \<Rightarrow> (string \<Rightarrow> string) \<Rightarrow> string \<Rightarrow> bool \<Rightarrow> watch_links \<Rightarrow> watch_error option \<times> watch_links" where
  "set_enabled env sha256 wid enabled c =
     (case store_get (en_readable env) wid (wl_store c) of
        Inl e \<Rightarrow> (Some e, c)
      | Inr (d, r, _) \<Rightarrow>
          if wd_enabled d = enabled then (None, c)
          else
            (case store_update (en_readable env) (en_store_io env)
                    (d\<lparr>wd_enabled := enabled, wd_updated_at := en_now env\<rparr>) [] False (wl_store c) of
               (Some e, s) \<Rightarrow> (Some e, c\<lparr>wl_store := s\<rparr>)
             | (None, s) \<Rightarrow>
                 (case put_runtime env wid (enabled_runtime sha256 (en_now env) wid enabled d r) (c\<lparr>wl_store := s\<rparr>) of
                    (Some e, c1) \<Rightarrow> (Some e, c1)
                  | (None, c1) \<Rightarrow>
                      (None, note_event env wid (if enabled then ''watch_enabled'' else ''watch_disabled'') [] [] c1))))"

definition delete_watch :: "watch_env \<Rightarrow> string \<Rightarrow> watch_links \<Rightarrow> watch_error option \<times> watch_links" where
  "delete_watch env wid c =
     (case store_get (en_readable env) wid (wl_store c) of
        Inl e \<Rightarrow> (Some e, c)
      | Inr _ \<Rightarrow>
          let (e, s) = store_delete (en_readable env) (en_removed env) wid (wl_store c)
          in (e, c\<lparr>wl_store := s\<rparr>))"

section \<open>Views\<close>

record watch_view =
  vw_definition :: watch_def
  vw_phase :: watch_phase
  vw_last_check :: "instant option"
  vw_next_check :: "instant option"
  vw_failures :: int
  vw_error_code :: string
  vw_adapter_name :: string
  vw_recording :: string
  vw_recording_state :: string
  vw_secrets :: "(string, bool) gomap"

definition view_phase :: "watch_def \<Rightarrow> watch_runtime \<Rightarrow> watch_phase" where
  "view_phase d r =
     (let phase = (if wr_phase r = Unset then (if wd_enabled d then Checking else Disabled) else wr_phase r)
      in if \<not> wd_enabled d \<and> wr_active r = [] then Disabled else phase)"

definition view_watch ::
    "adapters \<Rightarrow> (string \<Rightarrow> manager_answer) \<Rightarrow> watch_def \<Rightarrow> watch_runtime \<Rightarrow> (string, bool) gomap \<Rightarrow> bool \<Rightarrow> watch_view" where
  "view_watch ad manager d r configured include_input =
     \<lparr>vw_definition = (if include_input then d else d\<lparr>wd_input := []\<rparr>), vw_phase = view_phase d r,
      vw_last_check = wr_last_check r, vw_next_check = wr_next_check r, vw_failures = wr_failures r,
      vw_error_code = wr_error_code r,
      vw_adapter_name = (case ad_get ad (wd_adapter d) of
                           None \<Rightarrow> []
                         | Some a \<Rightarrow> if av_capabilities a = None then [] else av_name a),
      vw_recording = wr_active r,
      vw_recording_state = (if wr_active r = [] then []
                            else case manager (wr_active r) of Found rec \<Rightarrow> state_text (rec_state rec) | _ \<Rightarrow> []),
      vw_secrets = configured\<rparr>"

text \<open>The snapshots, oldest watch first, and the counts of the summary: total, enabled, recording, offline, backoff
  and attention required.\<close>

definition snapshots :: "watch_store \<Rightarrow> (watch_def \<times> watch_runtime) list" where
  "snapshots s = sort_key (\<lambda>(d, _). wd_created_at d) (map (\<lambda>(wid, d). (d, runtime_of s wid)) (ws_defs s))"

definition summary :: "watch_store \<Rightarrow> int \<times> int \<times> int \<times> int \<times> int \<times> int" where
  "summary s =
     (let count = (\<lambda>P. int (length (filter P (snapshots s)))) in
      (count (\<lambda>_. True), count (\<lambda>(d, _). wd_enabled d), count (\<lambda>(_, r). wr_phase r = Recording_now),
       count (\<lambda>(_, r). wr_phase r = Offline), count (\<lambda>(_, r). wr_phase r = Backoff),
       count (\<lambda>(_, r). wr_phase r = Attention_required)))"

end
