(* ===== verification/Watch_Service.thy ===== *)
theory Watch_Service
  imports Watch_Requests
begin

text \<open>
  The watch service as a system, \<^verbatim>\<open>internal/watch/service.go\<close>: the admission of checks, the checks in
  progress, the start gate, the reconciliation of links, restarts, and the recording manager they drive.
  Every transition is one region between lock and unlock, or one call to the manager; between two of them
  anything else may happen.  A transition that is not enabled changes nothing.
\<close>

section \<open>State\<close>

definition queue_capacity :: nat where "queue_capacity = 128"

text \<open>Where the check of a watch stands, with the local variables of runCheck and live that it still needs: \<open>t\<close> is
  the time of the region that read the clock, \<open>pid\<close> the claimed recording id.  From \<open>Gated\<close> on the check holds
  the start gate of its watch; \<open>Ending\<close> stands for the call of \<open>failed\<close> after a start, \<open>own\<close> the id it claimed.\<close>

datatype job =
    Queued
  | Taken
  | Linking watch_def watch_runtime
  | Linked watch_def watch_runtime manager_answer
  | Asking instant
  | Failing string bool
  | Going_offline instant
  | Deciding string bool bool
  | Resolving watch_runtime string instant
  | Claiming watch_runtime string instant
  | Claimed string string instant
  | Gated string string instant
  | Starting_recording string instant watch_def watch_runtime
  | Refused string instant watch_def watch_runtime
  | Committing string recording
  | Ending bool string string

record watch_service =
  sv_links :: watch_links
  sv_jobs :: "(string, job) gomap"
  sv_queue :: "string list"
  sv_running :: bool
  sv_paused :: bool
  sv_closed :: bool
  sv_snapshot :: "(watch_def \<times> watch_runtime) list"
  sv_looked :: "(watch_def \<times> watch_runtime \<times> manager_answer) option"
  sv_recovering :: "(watch_def \<times> watch_runtime) list"
  sv_manager :: "(string, recording) gomap"
  sv_log :: "(string \<times> string) list"
  sv_ids :: "string list"

text \<open>\<open>sv_log\<close> records which recordings were started for which watch, \<open>sv_ids\<close> the ids that were drawn; the
  program keeps neither.\<close>

definition empty_service :: watch_service where
  "empty_service = \<lparr>sv_links = \<lparr>wl_store = empty_store, wl_starting = []\<rparr>, sv_jobs = [], sv_queue = [],
     sv_running = False, sv_paused = False, sv_closed = False, sv_snapshot = [], sv_looked = None, sv_recovering = [], sv_manager = [],
     sv_log = [], sv_ids = []\<rparr>"

definition ask_manager :: "(string, recording) gomap \<Rightarrow> (string \<Rightarrow> bool) \<Rightarrow> string \<Rightarrow> manager_answer" where
  "ask_manager recordings readable rid =
     (if \<not> readable rid then Unreadable
      else case map_of recordings rid of None \<Rightarrow> Missing | Some r \<Rightarrow> Found r)"

text \<open>Whether a check holds the start gate of its watch.\<close>

fun holds_gate :: "job \<Rightarrow> bool" where
  "holds_gate (Gated _ _ _) \<longleftrightarrow> True"
| "holds_gate (Starting_recording _ _ _ _) \<longleftrightarrow> True"
| "holds_gate (Refused _ _ _ _) \<longleftrightarrow> True"
| "holds_gate (Committing _ _) \<longleftrightarrow> True"
| "holds_gate (Ending gated _ _) \<longleftrightarrow> gated"
| "holds_gate _ \<longleftrightarrow> False"

definition gate_free :: "watch_service \<Rightarrow> string \<Rightarrow> bool" where
  "gate_free sv wid \<longleftrightarrow> (case map_of (sv_jobs sv) wid of None \<Rightarrow> True | Some j \<Rightarrow> \<not> holds_gate j)"

section \<open>Admission\<close>

definition enqueue :: "string \<Rightarrow> watch_service \<Rightarrow> watch_error option \<times> watch_service" where
  "enqueue wid sv =
     (if sv_closed sv then (Some ''watch service is closed'', sv)
      else if \<not> sv_running sv then (Some ''watch scheduler is not running'', sv)
      else if sv_paused sv then (Some ''watch scheduler is paused for control generation handoff'', sv)
      else if has_key (sv_jobs sv) wid then (None, sv)
      else if queue_capacity \<le> length (sv_queue sv) then (Some ''watch check queue is full'', sv)
      else (None, sv\<lparr>sv_jobs := AList.update wid Queued (sv_jobs sv), sv_queue := sv_queue sv @ [wid]\<rparr>))"

definition schedule_due_at :: "instant \<Rightarrow> watch_service \<Rightarrow> nat \<times> watch_service" where
  "schedule_due_at now sv =
     fold (\<lambda>wid (queued, sv). case enqueue wid sv of (None, sv1) \<Rightarrow> (queued + 1, sv1) | (Some _, sv1) \<Rightarrow> (queued, sv1))
       (due_ids now (wl_store (sv_links sv))) (0, sv)"

text \<open>The test of ManualCheck before it joins or enqueues a check.\<close>

definition manual_check :: "watch_env \<Rightarrow> string \<Rightarrow> watch_service \<Rightarrow> watch_error option \<times> watch_service" where
  "manual_check env wid sv =
     (case store_get (en_readable env) wid (wl_store (sv_links sv)) of
        Inl e \<Rightarrow> (Some e, sv)
      | Inr (d, _, _) \<Rightarrow> if \<not> wd_enabled d then (Some ''watch state conflict'', sv) else enqueue wid sv)"

definition finish_job :: "string \<Rightarrow> watch_service \<Rightarrow> watch_service" where
  "finish_job wid sv = sv\<lparr>sv_jobs := AList.delete wid (sv_jobs sv)\<rparr>"

text \<open>A worker receives the head of the queue; a paused service or a cancelled job ends it at once.\<close>

definition take_job :: "bool \<Rightarrow> watch_service \<Rightarrow> watch_service" where
  "take_job cancelled sv =
     (case sv_queue sv of
        [] \<Rightarrow> sv
      | wid # rest \<Rightarrow>
          let sv1 = sv\<lparr>sv_queue := rest\<rparr>
          in if \<not> sv_running sv \<or> sv_recovering sv \<noteq> [] \<or> map_of (sv_jobs sv) wid \<noteq> Some Queued then sv
             else if cancelled \<or> sv_paused sv then finish_job wid sv1
             else sv1\<lparr>sv_jobs := AList.update wid Taken (sv_jobs sv)\<rparr>)"

section \<open>One check\<close>

text \<open>The answers of the adapter host and of the recording manager to one transition of a check: the adapter,
  its answer, whether the context is cancelled, whether the stream was resolved, the provenance is known and
  the recording was created, and which recordings are readable.\<close>

record check_world =
  cw_adapter :: "adapter_view option"
  cw_result :: check_result
  cw_cancelled :: bool
  cw_resolved :: bool
  cw_provenance :: bool
  cw_started :: "recording option"
  cw_readable :: "string \<Rightarrow> bool"

definition set_job :: "string \<Rightarrow> job \<Rightarrow> watch_service \<Rightarrow> watch_service" where
  "set_job wid j sv = sv\<lparr>sv_jobs := AList.update wid j (sv_jobs sv)\<rparr>"

definition with_links :: "watch_links \<Rightarrow> watch_service \<Rightarrow> watch_service" where
  "with_links c sv = sv\<lparr>sv_links := c\<rparr>"

definition after_decision :: "string \<Rightarrow> string \<Rightarrow> instant \<Rightarrow> live_decision \<Rightarrow> watch_service \<Rightarrow> watch_service" where
  "after_decision wid digest t decision sv =
     (case decision of
        Finished _ \<Rightarrow> finish_job wid sv
      | Resolve r \<Rightarrow> set_job wid (Resolving r digest t) sv
      | Claim r \<Rightarrow> set_job wid (Claiming r digest t) sv)"

definition claim_step :: "watch_env \<Rightarrow> string \<Rightarrow> watch_runtime \<Rightarrow> string \<Rightarrow> instant \<Rightarrow> watch_service \<Rightarrow> watch_service" where
  "claim_step env wid r digest t sv =
     (let sv1 = (case en_fresh env of None \<Rightarrow> sv | Some x \<Rightarrow> sv\<lparr>sv_ids := x # sv_ids sv\<rparr>)
      in case claim_starting env wid r t (sv_links sv) of
           (Inl _, c) \<Rightarrow> finish_job wid (with_links c sv1)
         | (Inr pid, c) \<Rightarrow> set_job wid (Claimed pid digest t) (with_links c sv1))"

text \<open>\<^verbatim>\<open>manager.StartResolvedWithID\<close>: a new recording under the claimed id, or an error.\<close>

definition start_step :: "string \<Rightarrow> string \<Rightarrow> instant \<Rightarrow> watch_def \<Rightarrow> watch_runtime \<Rightarrow> recording option \<Rightarrow> watch_service \<Rightarrow> watch_service" where
  "start_step wid pid t d r started sv =
     (case started of
        None \<Rightarrow> set_job wid (Refused pid t d r) sv
      | Some rec \<Rightarrow>
          let rec = rec\<lparr>rec_id := pid, rec_state := StateRecording\<rparr>
          in if has_key (sv_manager sv) pid then set_job wid (Refused pid t d r) sv
             else set_job wid (Committing pid rec)
                    (sv\<lparr>sv_manager := AList.update pid rec (sv_manager sv), sv_log := (wid, pid) # sv_log sv\<rparr>))"

definition advance_job ::
    "watch_env \<Rightarrow> check_world \<Rightarrow> (string \<Rightarrow> string) \<Rightarrow> string \<Rightarrow> job \<Rightarrow> watch_service \<Rightarrow> watch_service" where
  "advance_job env w sha256 wid j sv =
     (let c = sv_links sv in
      case j of
        Queued \<Rightarrow> sv
      | Taken \<Rightarrow>
          (case begin_check env wid c of
             (Not_checked _, c1) \<Rightarrow> finish_job wid (with_links c1 sv)
           | (Link_first d r, c1) \<Rightarrow> set_job wid (Linking d r) (with_links c1 sv)
           | (Check_now d, c1) \<Rightarrow> set_job wid (Asking (en_now env)) (with_links c1 sv))
      | Linking d r \<Rightarrow>
          set_job wid (Linked d r (ask_manager (sv_manager sv) (cw_readable w) (wr_active r))) sv
      | Linked d r answer \<Rightarrow> finish_job wid (with_links (reconcile_one env (en_now env) wid d r answer c) sv)
      | Asking t \<Rightarrow>
          (case judge_check (cw_adapter w) (cw_result w) of
             Give_up \<Rightarrow> finish_job wid sv
           | Failed_check code attention \<Rightarrow> set_job wid (Failing code attention) sv
           | Is_offline \<Rightarrow> set_job wid (Going_offline t) sv
           | Is_live session media can_resolve \<Rightarrow>
               set_job wid (Deciding (session_digest sha256 session) media can_resolve) sv)
      | Failing code attention \<Rightarrow> finish_job wid (with_links (snd (check_failed env wid code attention c)) sv)
      | Going_offline t \<Rightarrow> finish_job wid (with_links (snd (check_offline env wid t c)) sv)
      | Deciding digest media can_resolve \<Rightarrow>
          if cw_cancelled w then finish_job wid sv
          else (case live_decide env digest media can_resolve wid c of
                  (decision, c1) \<Rightarrow> after_decision wid digest (en_now env) decision (with_links c1 sv))
      | Resolving r digest t \<Rightarrow>
          if cw_resolved w then set_job wid (Claiming r digest t) sv
          else set_job wid (Ending False [] ''resolve_unavailable'') sv
      | Claiming r digest t \<Rightarrow> claim_step env wid r digest t sv
      | Claimed pid digest t \<Rightarrow>
          if \<not> cw_provenance w then set_job wid (Ending False pid ''adapter_unavailable'') sv
          else if cw_cancelled w then finish_job wid (with_links (clear_pending_start env wid pid c) sv)
          else set_job wid (Gated pid digest t) sv
      | Gated pid digest t \<Rightarrow>
          (case admit_start env wid pid digest t c of
             (Abandoned, c1) \<Rightarrow> finish_job wid (with_links c1 sv)
           | (Not_saved, c1) \<Rightarrow> set_job wid (Ending True pid ''storage_failed'') (with_links c1 sv)
           | (Admitted d r, c1) \<Rightarrow> set_job wid (Starting_recording pid t d r) (with_links c1 sv))
      | Starting_recording pid t d r \<Rightarrow> start_step wid pid t d r (cw_started w) sv
      | Refused pid t d r \<Rightarrow> set_job wid (Ending True pid ''start_failed'') (with_links (start_refused env wid pid t d r c) sv)
      | Committing pid rec \<Rightarrow> finish_job wid (with_links (commit_start env wid pid rec c) sv)
      | Ending _ _ code \<Rightarrow> finish_job wid (with_links (snd (check_failed env wid code False c)) sv))"

section \<open>The service\<close>

text \<open>The transitions.  \<open>Links_next\<close> takes the next watch of the snapshot of reconcileLinks; for a watch with a
  recording it asks the manager, and \<open>Links_save\<close> is the write of reconcileOne.  \<open>Crash\<close> ends the process and starts a
  new one on the same files; a stop is notified after the manager has ended the recording; \<open>Run\<close> begins its recovery, one \<open>Recover_next\<close> per watch.  The last three are the manager's
  own: a recording somebody else starts, the end of a recording and the removal of an ended one.\<close>

datatype service_event =
    Schedule_due instant
  | Manual_check watch_env string
  | Take bool
  | Advance watch_env check_world string
  | Create_watch watch_env adapters watch_request
  | Update_watch watch_env adapters string watch_request
  | Set_enabled watch_env string bool
  | Delete_watch watch_env string
  | Notify_stopped watch_env string string
  | Pause_checks
  | Resume_checks
  | Links_snapshot
  | Links_next watch_env "string \<Rightarrow> bool"
  | Links_save watch_env
  | Crash
  | Run
  | Recover_next "nat \<Rightarrow> watch_env" instant "string \<Rightarrow> bool"
  | Close
  | Recording_started recording
  | Recording_ended string recording_state
  | Recording_removed string

definition create_step ::
    "(string \<Rightarrow> string) \<Rightarrow> (string \<Rightarrow> string option) \<Rightarrow> watch_env \<Rightarrow> adapters \<Rightarrow> watch_request \<Rightarrow> watch_service \<Rightarrow> watch_service" where
  "create_step sha256 canonical env ad rq sv =
     (let sv1 = (case en_fresh env of None \<Rightarrow> sv | Some x \<Rightarrow> sv\<lparr>sv_ids := x # sv_ids sv\<rparr>)
      in with_links (snd (create_watch env sha256 canonical ad rq (sv_links sv))) sv1)"

definition resume_checks :: "watch_service \<Rightarrow> watch_error option \<times> watch_service" where
  "resume_checks sv =
     (if sv_closed sv then (Some ''watch service is closed'', sv) else (None, sv\<lparr>sv_paused := False\<rparr>))"

definition pause_checks :: "watch_service \<Rightarrow> watch_error option \<times> watch_service" where
  "pause_checks sv =
     (if sv_closed sv then (Some ''watch service is closed'', sv) else (None, sv\<lparr>sv_paused := True\<rparr>))"

definition run_service :: "watch_service \<Rightarrow> watch_error option \<times> watch_service" where
  "run_service sv =
     (if sv_closed sv then (Some ''watch service is closed'', sv)
      else if sv_running sv then (Some ''watch scheduler already running'', sv)
      else (None, sv\<lparr>sv_running := True, sv_recovering := snapshots (wl_store (sv_links sv))\<rparr>))"

definition crash :: "watch_service \<Rightarrow> watch_service" where
  "crash sv = sv\<lparr>sv_links := (sv_links sv)\<lparr>wl_starting := []\<rparr>, sv_jobs := [], sv_queue := [], sv_running := False,
     sv_paused := False, sv_closed := False, sv_snapshot := [], sv_looked := None, sv_recovering := []\<rparr>"

definition links_next :: "watch_env \<Rightarrow> (string \<Rightarrow> bool) \<Rightarrow> watch_service \<Rightarrow> watch_service" where
  "links_next env readable sv =
     (case sv_snapshot sv of
        [] \<Rightarrow> sv
      | (d, r) # rest \<Rightarrow>
          let sv1 = sv\<lparr>sv_snapshot := rest\<rparr>
          in if sv_looked sv \<noteq> None then sv
             else if wr_pending r \<noteq> []
             then with_links (reconcile_pending env (wd_id d) (ask_manager (sv_manager sv) readable) (sv_links sv)) sv1
             else if wr_active r = [] then sv1
             else sv1\<lparr>sv_looked := Some (d, r, ask_manager (sv_manager sv) readable (wr_active r))\<rparr>)"

definition links_save :: "watch_env \<Rightarrow> watch_service \<Rightarrow> watch_service" where
  "links_save env sv =
     (case sv_looked sv of
        None \<Rightarrow> sv
      | Some (d, r, answer) \<Rightarrow>
          with_links (reconcile_one env (en_now env) (wd_id d) d r answer (sv_links sv)) (sv\<lparr>sv_looked := None\<rparr>))"

definition recover_next ::
    "(string \<Rightarrow> string) \<Rightarrow> (nat \<Rightarrow> watch_env) \<Rightarrow> instant \<Rightarrow> (string \<Rightarrow> bool) \<Rightarrow> watch_service \<Rightarrow> watch_service" where
  "recover_next sha256 envs t readable sv =
     (case sv_recovering sv of
        [] \<Rightarrow> sv
      | (d, r) # rest \<Rightarrow>
          with_links (recover_one envs sha256 t (wd_id d) d r (ask_manager (sv_manager sv) readable) (sv_links sv))
            (sv\<lparr>sv_recovering := rest\<rparr>))"

definition live_in :: "(string, recording) gomap \<Rightarrow> string \<Rightarrow> bool" where
  "live_in recordings rid = (case map_of recordings rid of None \<Rightarrow> False | Some rec \<Rightarrow> rec_state rec = StateRecording)"

definition recording_in :: "watch_service \<Rightarrow> string \<Rightarrow> bool" where
  "recording_in sv rid = live_in (sv_manager sv) rid"

definition recording_started :: "recording \<Rightarrow> watch_service \<Rightarrow> watch_service" where
  "recording_started rec sv =
     (if has_key (sv_manager sv) (rec_id rec) then sv
      else sv\<lparr>sv_manager := AList.update (rec_id rec) rec (sv_manager sv), sv_ids := rec_id rec # sv_ids sv\<rparr>)"

definition recording_ended :: "string \<Rightarrow> recording_state \<Rightarrow> watch_service \<Rightarrow> watch_service" where
  "recording_ended rid state sv =
     (case map_of (sv_manager sv) rid of
        None \<Rightarrow> sv
      | Some rec \<Rightarrow>
          if state = StateRecording \<or> rec_state rec \<noteq> StateRecording then sv
          else sv\<lparr>sv_manager := AList.update rid (rec\<lparr>rec_state := state\<rparr>) (sv_manager sv)\<rparr>)"

fun service_step ::
    "(string \<Rightarrow> string) \<Rightarrow> (string \<Rightarrow> string option) \<Rightarrow> watch_service \<Rightarrow> service_event \<Rightarrow> watch_service" where
  "service_step sha256 canonical sv (Schedule_due now) = snd (schedule_due_at now sv)"
| "service_step sha256 canonical sv (Manual_check env wid) = snd (manual_check env wid sv)"
| "service_step sha256 canonical sv (Take cancelled) = take_job cancelled sv"
| "service_step sha256 canonical sv (Advance env w wid) =
     (case map_of (sv_jobs sv) wid of None \<Rightarrow> sv | Some j \<Rightarrow> advance_job env w sha256 wid j sv)"
| "service_step sha256 canonical sv (Create_watch env ad rq) = create_step sha256 canonical env ad rq sv"
| "service_step sha256 canonical sv (Update_watch env ad wid rq) =
     (if has_key (sv_jobs sv) wid then sv
      else with_links (snd (update_watch env sha256 canonical ad wid rq (sv_links sv))) sv)"
| "service_step sha256 canonical sv (Set_enabled env wid enabled) =
     (if gate_free sv wid then with_links (snd (set_enabled env sha256 wid enabled (sv_links sv))) sv else sv)"
| "service_step sha256 canonical sv (Delete_watch env wid) =
     (if gate_free sv wid then with_links (snd (delete_watch env wid (sv_links sv))) sv else sv)"
| "service_step sha256 canonical sv (Notify_stopped env wid rid) =
     (if recording_in sv rid then sv else with_links (notify_stopped env wid rid (sv_links sv)) sv)"
| "service_step sha256 canonical sv Pause_checks = snd (pause_checks sv)"
| "service_step sha256 canonical sv Resume_checks = snd (resume_checks sv)"
| "service_step sha256 canonical sv Links_snapshot =
     (if sv_snapshot sv = [] then sv\<lparr>sv_snapshot := snapshots (wl_store (sv_links sv))\<rparr> else sv)"
| "service_step sha256 canonical sv (Links_next env readable) = links_next env readable sv"
| "service_step sha256 canonical sv (Links_save env) = links_save env sv"
| "service_step sha256 canonical sv Crash = crash sv"
| "service_step sha256 canonical sv Run = snd (run_service sv)"
| "service_step sha256 canonical sv (Recover_next envs t readable) = recover_next sha256 envs t readable sv"
| "service_step sha256 canonical sv Close = sv\<lparr>sv_closed := True\<rparr>"
| "service_step sha256 canonical sv (Recording_started rec) = recording_started rec sv"
| "service_step sha256 canonical sv (Recording_ended rid state) = recording_ended rid state sv"
| "service_step sha256 canonical sv (Recording_removed rid) =
     (if recording_in sv rid then sv else sv\<lparr>sv_manager := AList.delete rid (sv_manager sv)\<rparr>)"

end
