(* ===== verification/Watch_Links.thy ===== *)
theory Watch_Links
  imports Watch_Service
begin

text \<open>
  What each handler of the watch service does to the links of a watch, its active recording and its pending
  start: only the watch it is called for changes, and how.  The invariant of \<open>Watch_Runs\<close> rests on these
  facts and does not look into a handler again.
\<close>

section \<open>What a handler writes\<close>

abbreviation rt :: "watch_links \<Rightarrow> string \<Rightarrow> watch_runtime" where
  "rt c w \<equiv> runtime_of (wl_store c) w"

definition has_def :: "watch_links \<Rightarrow> string \<Rightarrow> bool" where
  "has_def c w \<longleftrightarrow> has_key (ws_defs (wl_store c)) w"

abbreviation starting :: "watch_links \<Rightarrow> string \<Rightarrow> string option" where
  "starting c w \<equiv> map_of (wl_starting c) w"

definition saves :: "watch_env \<Rightarrow> string \<Rightarrow> watch_runtime \<Rightarrow> watch_links \<Rightarrow> bool" where
  "saves env wid r c \<longleftrightarrow> hex32 wid \<and> valid_runtime r \<and> has_def c wid \<and> en_runtime_ok env"

definition saved :: "string \<Rightarrow> watch_runtime \<Rightarrow> watch_links \<Rightarrow> watch_links" where
  "saved wid r c = c\<lparr>wl_store := (wl_store c)\<lparr>ws_runtimes := AList.update wid r (ws_runtimes (wl_store c))\<rparr>\<rparr>"

definition refusal :: "string \<Rightarrow> watch_runtime \<Rightarrow> watch_links \<Rightarrow> watch_error" where
  "refusal wid r c =
     (if \<not> hex32 wid \<or> \<not> valid_runtime r then ''invalid watch''
      else if \<not> has_def c wid then ''watch not found'' else ''write'')"

lemma put_runtime_eq:
  "put_runtime env wid r c = (if saves env wid r c then (None, saved wid r c) else (Some (refusal wid r c), c))"
  by (auto simp: put_runtime_def save_runtime_def saves_def saved_def refusal_def has_def_def)

lemma try_runtime_eq: "try_runtime env wid r c = (if saves env wid r c then saved wid r c else c)"
  by (simp add: try_runtime_def put_runtime_eq)

lemma saved_simps [simp]:
  "rt (saved wid r c) w = (if w = wid then r else rt c w)"
  "has_def (saved wid r c) w = has_def c w"
  "wl_starting (saved wid r c) = wl_starting c"
  "ws_defs (wl_store (saved wid r c)) = ws_defs (wl_store c)"
  by (simp_all add: saved_def runtime_of_def has_def_def)

lemma save_relation_quiet [simp]:
  "ws_runtimes (snd (save_relation io rel s)) = ws_runtimes s"
  "has_key (ws_defs (snd (save_relation io rel s))) w = has_key (ws_defs s) w"
  by (auto simp: save_relation_def put_relation_def mark_history_truncated_def map_of_update
      split: option.splits prod.splits if_splits)

lemma unlink_simps [simp]:
  "rt (unlink env rid c) w = rt c w" "has_def (unlink env rid c) w = has_def c w"
  "wl_starting (unlink env rid c) = wl_starting c"
  by (auto simp: unlink_def delete_relation_def runtime_of_def has_def_def)

lemma note_event_simps [simp]:
  "rt (note_event env wid kind rid code c) w = rt c w" "has_def (note_event env wid kind rid code c) w = has_def c w"
  "wl_starting (note_event env wid kind rid code c) = wl_starting c"
  by (auto simp: note_event_def add_event_def runtime_of_def has_def_def split: option.splits)

lemma end_start_simps [simp]:
  "wl_store (end_start wid c) = wl_store c" "has_def (end_start wid c) = has_def c" "starting (end_start wid c) w = (if w = wid then None else starting c w)"
  by (simp_all add: end_start_def has_def_def fun_eq_iff)

lemma pending_relation_simps:
  assumes "pending_relation env wid r rec s = (rel, s')"
  shows "runtime_of s' w = runtime_of s w" "has_key (ws_defs s') w = has_key (ws_defs s) w"
proof -
  have "ws_runtimes s' = ws_runtimes s \<and> has_key (ws_defs s') w = has_key (ws_defs s) w"
  proof (cases "relation_of (wr_pending r) s")
    case (Inl e)
    obtain e' s1 where save: "save_relation (en_relation_io env)
        (start_relation wid (wr_pending r) (wr_digest r) (rec_started_at rec) s) s = (e', s1)"
      by fastforce
    then have "s' = s1"
      using assms Inl by (auto simp: pending_relation_def Let_def split: option.splits)
    then show ?thesis
      using save_relation_quiet [where io = "en_relation_io env" and s = s] save by (metis snd_conv)
  next
    case (Inr rel')
    then show ?thesis
      using assms by (simp add: pending_relation_def)
  qed
  then show "runtime_of s' w = runtime_of s w" "has_key (ws_defs s') w = has_key (ws_defs s) w"
    by (simp_all add: runtime_of_def)
qed

lemma store_get_runtime: "store_get readable wid s = Inr (d, r, sec) \<Longrightarrow> r = runtime_of s wid"
  by (auto simp: store_get_def split: if_splits option.splits)

lemma store_get_def_of: "store_get readable wid s = Inr (d, r, sec) \<Longrightarrow> map_of (ws_defs s) wid = Some d"
  by (auto simp: store_get_def split: if_splits option.splits)

section \<open>Links\<close>

text \<open>A watch never has an active recording and a pending start; a handler keeps the links of \<open>wid\<close> to the
  recordings that are running, leaves the other watches alone, and a start in progress is its own.\<close>

definition exclusive :: "watch_runtime \<Rightarrow> bool" where
  "exclusive r \<longleftrightarrow> wr_active r = [] \<or> wr_pending r = []"

definition linked :: "watch_runtime \<Rightarrow> string \<Rightarrow> bool" where
  "linked r rid \<longleftrightarrow> rid \<noteq> [] \<and> (wr_active r = rid \<or> wr_pending r = rid)"

definition same_links :: "watch_runtime \<Rightarrow> watch_runtime \<Rightarrow> bool" where
  "same_links r r' \<longleftrightarrow> wr_active r' = wr_active r \<and> wr_pending r' = wr_pending r"

definition keeps_links :: "(string \<Rightarrow> bool) \<Rightarrow> watch_runtime \<Rightarrow> watch_runtime \<Rightarrow> bool" where
  "keeps_links running r r' \<longleftrightarrow> (exclusive r \<longrightarrow> exclusive r') \<and> (\<forall>rid. running rid \<and> linked r rid \<longrightarrow> linked r' rid)"

definition frame_links :: "string \<Rightarrow> watch_links \<Rightarrow> watch_links \<Rightarrow> bool" where
  "frame_links wid c c' \<longleftrightarrow> (\<forall>w. has_def c' w = has_def c w) \<and>
     (\<forall>w. w \<noteq> wid \<longrightarrow> rt c' w = rt c w \<and> starting c' w = starting c w)"

lemma keeps_links_refl [simp, intro]: "keeps_links running r r"
  by (simp add: keeps_links_def)

lemma same_links_refl [simp, intro]: "same_links r r"
  by (simp add: same_links_def)

lemma same_links_keeps: "same_links r r' \<Longrightarrow> keeps_links running r r'"
  by (simp add: same_links_def keeps_links_def exclusive_def linked_def)

lemmas link_simps = put_runtime_eq try_runtime_eq same_links_def

named_theorems handler_frames \<open>a handler touches only its watch\<close>

lemma begin_check_links [handler_frames]: "frame_links wid c (snd (begin_check env wid c))"
  by (auto simp: frame_links_def begin_check_def link_simps split: sum.splits prod.splits if_splits)

lemma begin_check_same:
  "same_links (rt c wid) (rt (snd (begin_check env wid c)) wid)" "wl_starting (snd (begin_check env wid c)) = wl_starting c"
  by (auto simp: begin_check_def link_simps dest: store_get_runtime split: sum.splits prod.splits if_splits)

lemma check_failed_links [handler_frames]: "frame_links wid c (snd (check_failed env wid code attention c))"
  by (auto simp: frame_links_def check_failed_def drop_pending_def link_simps Let_def split: sum.splits prod.splits if_splits)

lemma check_failed_pending:
  "same_links (rt c wid) (rt (snd (check_failed env wid code attention c)) wid) \<or>
   same_links ((rt c wid)\<lparr>wr_pending := []\<rparr>) (rt (snd (check_failed env wid code attention c)) wid)"
  by (auto simp: check_failed_def drop_pending_def failed_runtime_def link_simps Let_def dest: store_get_runtime
      split: sum.splits prod.splits if_splits)

lemma check_offline_links [handler_frames]: "frame_links wid c (snd (check_offline env wid t c))"
  by (auto simp: frame_links_def check_offline_def link_simps Let_def split: sum.splits prod.splits if_splits)

lemma check_offline_active:
  "same_links (rt c wid) (rt (snd (check_offline env wid t c)) wid) \<or>
   same_links ((rt c wid)\<lparr>wr_active := []\<rparr>) (rt (snd (check_offline env wid t c)) wid)"
  by (auto simp: check_offline_def offline_runtime_def link_simps Let_def dest: store_get_runtime
      split: sum.splits prod.splits if_splits)

lemma finish_with_eq [simp]: "finish_with p = (Finished (fst p), snd p)"
  by (simp add: finish_with_def)

lemma note_live_simps [simp]:
  "rt (note_live env wid digest r c) w = rt c w" "has_def (note_live env wid digest r c) w = has_def c w"
  "wl_starting (note_live env wid digest r c) = wl_starting c"
  by (simp_all add: note_live_def)

lemma observe_live_links [simp]:
  "wr_active (observe_live digest r) = wr_active r" "wr_pending (observe_live digest r) = wr_pending r"
  by (simp_all add: observe_live_def lift_suppression_def Let_def)

lemma lift_suppression_links [simp]:
  "wr_active (lift_suppression r) = wr_active r" "wr_pending (lift_suppression r) = wr_pending r"
  by (simp_all add: lift_suppression_def)

lemma suppressed_runtime_links [simp]:
  "wr_active (suppressed_runtime env d r) = wr_active r" "wr_pending (suppressed_runtime env d r) = wr_pending r"
  by (simp_all add: suppressed_runtime_def)

lemma decide_start_frame:
  "frame_links wid c (snd (decide_start env media can_resolve wid same d r c))"
  "wl_starting (snd (decide_start env media can_resolve wid same d r c)) = wl_starting c"
  by (auto simp: frame_links_def decide_start_def link_simps Let_def split: if_splits)

lemma decide_start_same:
  assumes "same_links (rt c wid) r"
  shows "same_links (rt c wid) (rt (snd (decide_start env media can_resolve wid same d r c)) wid)"
  using assms by (auto simp: decide_start_def link_simps Let_def split: if_splits)

lemma decide_start_idle:
  "decide_start env media can_resolve wid same d r c = (Resolve r', c') \<Longrightarrow> r' = r \<and> wr_active r = []"
  "decide_start env media can_resolve wid same d r c = (Claim r', c') \<Longrightarrow> r' = r \<and> wr_active r = []"
  by (auto simp: decide_start_def link_simps Let_def split: if_splits)

lemma live_decide_links [handler_frames]: "frame_links wid c (snd (live_decide env digest media can_resolve wid c))"
proof (cases "store_get (en_readable env) wid (wl_store c)")
  case (Inr p)
  obtain d r sec where p: "p = (d, r, sec)"
    by (cases p)
  have "frame_links wid (note_live env wid digest r c)
      (snd (decide_start env media can_resolve wid same d r' (note_live env wid digest r c)))" for same r'
    by (rule decide_start_frame)
  then show ?thesis
    by (simp add: live_decide_def Inr p Let_def frame_links_def link_simps)
qed (simp add: live_decide_def frame_links_def)

lemma live_decide_same:
  "same_links (rt c wid) (rt (snd (live_decide env digest media can_resolve wid c)) wid)"
  "wl_starting (snd (live_decide env digest media can_resolve wid c)) = wl_starting c"
proof -
  have "same_links (rt c wid) (rt (snd (live_decide env digest media can_resolve wid c)) wid) \<and>
    wl_starting (snd (live_decide env digest media can_resolve wid c)) = wl_starting c"
  proof (cases "store_get (en_readable env) wid (wl_store c)")
    case (Inr p)
    obtain d r sec where p: "p = (d, r, sec)"
      by (cases p)
    have r: "r = rt c wid"
      using Inr p by (simp add: store_get_runtime)
    have "same_links (rt c wid) (rt (snd (decide_start env media can_resolve wid same d r' (note_live env wid digest r c))) wid)"
      if "same_links (rt c wid) r'" for same r'
      using decide_start_same [where c = "note_live env wid digest r c" and wid = wid and r = r'] that by simp
    then show ?thesis
      by (simp add: live_decide_def Inr p Let_def link_simps r decide_start_frame)
  qed (simp add: live_decide_def)
  then show "same_links (rt c wid) (rt (snd (live_decide env digest media can_resolve wid c)) wid)"
    "wl_starting (snd (live_decide env digest media can_resolve wid c)) = wl_starting c"
    by blast+
qed

lemma live_decide_idle:
  assumes "live_decide env digest media can_resolve wid c = (decision, c')" "decision = Resolve r \<or> decision = Claim r"
  shows "wr_active r = []"
proof -
  obtain d r0 sec where get: "store_get (en_readable env) wid (wl_store c) = Inr (d, r0, sec)" "wd_enabled d"
    using assms by (auto simp: live_decide_def split: sum.splits if_splits)
  define r1 where "r1 = observe_live digest r0"
  define r2 where "r2 = (if wr_suppressed r1 then lift_suppression r1 else r1)"
  have "live_decide env digest media can_resolve wid c =
      (if wr_suppressed r1 \<and> (wr_suppressed_digest r1 = [] \<or> digest = [] \<or> wr_suppressed_digest r1 = digest)
       then finish_with (put_runtime env wid (suppressed_runtime env d r1) (note_live env wid digest r0 c))
       else decide_start env media can_resolve wid (same_session digest r0) d r2 (note_live env wid digest r0 c))"
    by (simp only: live_decide_def get Let_def r1_def r2_def sum.case prod.case not_True_eq_False if_False)
  then have "decide_start env media can_resolve wid (same_session digest r0) d r2 (note_live env wid digest r0 c) = (decision, c')"
    using assms by (auto split: if_splits)
  then show ?thesis
    using assms(2) by (auto dest!: decide_start_idle)
qed

text \<open>Claims and starts.\<close>

lemma claim_starting_cases:
  assumes "claim_starting env wid r t c = (res, c')"
  obtains (refused) e where "res = Inl e" "c' = c"
  | (claimed) pid where "res = Inr pid" "en_fresh env = Some pid" "has_def c wid" "wr_active (rt c wid) = []" "wr_pending (rt c wid) = []"
      "c' = (saved wid (claimed_runtime t pid r) c)\<lparr>wl_starting := AList.update wid pid (wl_starting c)\<rparr>"
proof -
  have "(\<exists>e. res = Inl e \<and> c' = c) \<or> (\<exists>pid. res = Inr pid \<and> en_fresh env = Some pid \<and> has_def c wid \<and>
      wr_active (rt c wid) = [] \<and> wr_pending (rt c wid) = [] \<and>
      c' = (saved wid (claimed_runtime t pid r) c)\<lparr>wl_starting := AList.update wid pid (wl_starting c)\<rparr>)"
    using assms by (auto simp: claim_starting_def link_simps saves_def dest: store_get_runtime
        split: option.splits sum.splits prod.splits if_splits)
  then show ?thesis
    using refused claimed by blast
qed

lemma idle_runtime_links [simp]:
  "wr_active (idle_runtime d next r) = wr_active r" "wr_pending (idle_runtime d next r) = wr_pending r"
  by (simp_all add: idle_runtime_def)

lemma unclaimed_runtime_links [simp]:
  "wr_active (unclaimed_runtime env t d r) = wr_active r" "wr_pending (unclaimed_runtime env t d r) = []"
  by (simp_all add: unclaimed_runtime_def)

lemma attention_runtime_links [simp]:
  "wr_active (attention_runtime r) = wr_active r" "wr_pending (attention_runtime r) = wr_pending r"
  by (simp_all add: attention_runtime_def)

lemma active_runtime_links [simp]:
  "wr_active (active_runtime rid r) = rid" "wr_pending (active_runtime rid r) = []"
  by (simp_all add: active_runtime_def)

lemma clear_pending_start_links [handler_frames]: "frame_links wid c (clear_pending_start env wid pid c)"
  by (auto simp: frame_links_def clear_pending_start_def link_simps Let_def split: sum.splits prod.splits if_splits)

lemma clear_pending_start_pending:
  "same_links (rt c wid) (rt (clear_pending_start env wid pid c) wid) \<or>
   (wr_pending (rt c wid) = pid \<and> same_links ((rt c wid)\<lparr>wr_pending := []\<rparr>) (rt (clear_pending_start env wid pid c) wid))"
  by (auto simp: clear_pending_start_def link_simps Let_def dest!: store_get_runtime split: sum.splits prod.splits if_splits)

lemma save_relation_links:
  assumes "save_relation io rel (wl_store c) = (e, s)"
  shows "runtime_of s w = rt c w" "has_def (c\<lparr>wl_store := s\<rparr>) w = has_def c w"
  using save_relation_quiet [of io rel "wl_store c"] assms
  by (simp_all add: runtime_of_def has_def_def del: not_None_eq)

lemma admit_start_spec:
  assumes "admit_start env wid pid digest t c = (a, c')"
  shows "frame_links wid c c'"
    "same_links (rt c wid) (rt c' wid) \<or> (wr_pending (rt c wid) = pid \<and> same_links ((rt c wid)\<lparr>wr_pending := []\<rparr>) (rt c' wid))"
    "a = Admitted d r \<Longrightarrow> r = rt c wid \<and> wr_pending r = pid \<and> wr_active r = [] \<and> has_def c wid \<and>
       rt c' wid = rt c wid \<and> wl_starting c' = wl_starting c"
proof -
  have "frame_links wid c c' \<and>
    (same_links (rt c wid) (rt c' wid) \<or> (wr_pending (rt c wid) = pid \<and> same_links ((rt c wid)\<lparr>wr_pending := []\<rparr>) (rt c' wid))) \<and>
    (a = Admitted d r \<longrightarrow> r = rt c wid \<and> wr_pending r = pid \<and> wr_active r = [] \<and> has_def c wid \<and>
       rt c' wid = rt c wid \<and> wl_starting c' = wl_starting c)"
  proof (cases "store_get (en_readable env) wid (wl_store c)")
    case (Inl e)
    then show ?thesis
      using assms by (auto simp: admit_start_def frame_links_def)
  next
    case (Inr p)
    obtain d0 r0 sec where p: "p = (d0, r0, sec)"
      by (cases p)
    have r0: "r0 = rt c wid" and d0: "has_def c wid"
      using Inr p by (simp_all add: store_get_runtime store_get_def_of has_def_def)
    obtain e s where save: "save_relation (en_relation_io env) (start_relation wid pid digest t (wl_store c)) (wl_store c) = (e, s)"
      by fastforce
    note quiet = save_relation_links [OF save]
    show ?thesis
    proof (cases "wr_pending r0 = pid \<and> wd_enabled d0 \<and> wr_active r0 = []")
      case True
      then show ?thesis
        using assms quiet r0 d0
        by (cases e) (auto simp: admit_start_def Inr p save frame_links_def link_simps split: if_splits)
    next
      case False
      then show ?thesis
        using assms r0
        by (cases "wr_pending r0 = pid")
           (auto simp: admit_start_def Inr p frame_links_def link_simps abandon_start_def split: if_splits)
    qed
  qed
  then show "frame_links wid c c'"
    "same_links (rt c wid) (rt c' wid) \<or> (wr_pending (rt c wid) = pid \<and> same_links ((rt c wid)\<lparr>wr_pending := []\<rparr>) (rt c' wid))"
    "a = Admitted d r \<Longrightarrow> r = rt c wid \<and> wr_pending r = pid \<and> wr_active r = [] \<and> has_def c wid \<and>
       rt c' wid = rt c wid \<and> wl_starting c' = wl_starting c"
    by blast+
qed

lemma start_refused_links [handler_frames]: "frame_links wid c (start_refused env wid pid t d r c)"
  by (auto simp: frame_links_def start_refused_def abandon_start_def link_simps)

lemma start_refused_pending:
  "same_links (rt c wid) (rt (start_refused env wid pid t d r c) wid) \<or>
   same_links (r\<lparr>wr_pending := []\<rparr>) (rt (start_refused env wid pid t d r c) wid)"
  by (auto simp: start_refused_def abandon_start_def link_simps)

lemma commit_start_links [handler_frames]: "frame_links wid c (commit_start env wid pid rec c)"
  by (auto simp: frame_links_def commit_start_def link_simps Let_def split: sum.splits prod.splits if_splits)

lemma commit_start_active:
  "same_links (rt c wid) (rt (commit_start env wid pid rec c) wid) \<or>
   (wr_pending (rt c wid) = pid \<and> wr_active (rt (commit_start env wid pid rec c) wid) = rec_id rec \<and>
    wr_pending (rt (commit_start env wid pid rec c) wid) = [])"
  by (auto simp: commit_start_def link_simps Let_def dest!: store_get_runtime split: sum.splits prod.splits if_splits)

text \<open>Reconciliation.\<close>

lemma mark_terminal_simps [simp]:
  "fst (mark_terminal env t wid d rec r c) = terminal_runtime env t d rec r"
  "rt (snd (mark_terminal env t wid d rec r c)) w =
     (if w = wid \<and> saves env wid (terminal_runtime env t d rec r) c then terminal_runtime env t d rec r else rt c w)"
  "has_def (snd (mark_terminal env t wid d rec r c)) w = has_def c w"
  "wl_starting (snd (mark_terminal env t wid d rec r c)) = wl_starting c"
  by (simp_all add: mark_terminal_def Let_def try_runtime_eq)

lemma terminal_runtime_links [simp]:
  "wr_active (terminal_runtime env t d rec r) = []" "wr_pending (terminal_runtime env t d rec r) = wr_pending r"
  by (simp_all add: terminal_runtime_def Let_def)

definition gone :: "manager_answer \<Rightarrow> bool" where
  "gone answer \<longleftrightarrow> (case answer of Found rec \<Rightarrow> rec_state rec \<noteq> StateRecording | Missing \<Rightarrow> True | Unreadable \<Rightarrow> False)"

lemma reconcile_one_links [handler_frames]: "frame_links wid c (reconcile_one env t wid d r answer c)"
  by (auto simp: frame_links_def reconcile_one_def link_simps split: manager_answer.splits)

lemma reconcile_one_starting [simp]: "wl_starting (reconcile_one env t wid d r answer c) = wl_starting c"
  by (auto simp: reconcile_one_def link_simps split: manager_answer.splits)

lemma reconcile_one_active:
  "rt (reconcile_one env t wid d r answer c) wid = rt c wid \<or>
   same_links r (rt (reconcile_one env t wid d r answer c) wid) \<or>
   (gone answer \<and> same_links (r\<lparr>wr_active := []\<rparr>) (rt (reconcile_one env t wid d r answer c) wid))"
  by (auto simp: reconcile_one_def gone_def link_simps split: manager_answer.splits)

lemma pending_relation_links:
  assumes "pending_relation env wid r rec (wl_store c) = (rel, s)"
  shows "runtime_of s w = rt c w" "has_def (c\<lparr>wl_store := s\<rparr>) w = has_def c w"
  using pending_relation_simps [OF assms] by (simp_all add: has_def_def del: not_None_eq)

text \<open>What may become of a start that was left behind.\<close>

definition settles :: "manager_answer \<Rightarrow> watch_runtime \<Rightarrow> watch_runtime \<Rightarrow> bool" where
  "settles answer r r' \<longleftrightarrow> same_links r r' \<or>
     (wr_pending r' = [] \<and> (wr_active r' = wr_pending r \<or> (gone answer \<and> wr_active r' \<in> {wr_active r, []})))"

lemma reconcile_pending_spec:
  assumes "reconcile_pending env wid manager c = c'"
  shows "frame_links wid c c' \<and> wl_starting c' = wl_starting c \<and>
    (rt c' wid = rt c wid \<or>
     (wr_pending (rt c wid) \<noteq> [] \<and> starting c wid \<noteq> Some (wr_pending (rt c wid)) \<and>
      settles (manager (wr_pending (rt c wid))) (rt c wid) (rt c' wid)))"
proof (cases "store_get (en_readable env) wid (wl_store c)")
  case (Inr p)
  then obtain d sec where get: "store_get (en_readable env) wid (wl_store c) = Inr (d, rt c wid, sec)"
    using store_get_runtime by (cases p) blast
  show ?thesis
  proof (cases "wr_pending (rt c wid) = [] \<or> starting c wid = Some (wr_pending (rt c wid))")
    case True
    then show ?thesis
      using assms by (auto simp: reconcile_pending_def get frame_links_def)
  next
    case False
    show ?thesis
    proof (cases "manager (wr_pending (rt c wid))")
      case (Found rec)
      obtain rel s where rel: "pending_relation env wid (rt c wid) rec (wl_store c) = (rel, s)"
        by fastforce
      show ?thesis
        using False pending_relation_links [OF rel] assms
        by (auto simp: reconcile_pending_def get Found rel frame_links_def link_simps gone_def settles_def
            Let_def split: if_splits option.splits)
    qed (use False assms in \<open>auto simp: reconcile_pending_def get frame_links_def link_simps gone_def settles_def
           split: if_splits\<close>)
  qed
qed (use assms in \<open>auto simp: reconcile_pending_def frame_links_def\<close>)

lemma notify_stopped_links [handler_frames]: "frame_links wid c (notify_stopped env wid rid c)"
  by (auto simp: frame_links_def notify_stopped_def link_simps split: sum.splits prod.splits if_splits)

lemma notify_stopped_spec:
  "wl_starting (notify_stopped env wid rid c) = wl_starting c"
  "rt (notify_stopped env wid rid c) wid = rt c wid \<or>
   (rid \<noteq> [] \<and> wr_active (rt c wid) = rid \<and>
    wr_active (rt (notify_stopped env wid rid c) wid) = [] \<and> wr_pending (rt (notify_stopped env wid rid c) wid) = [])"
  by (auto simp: notify_stopped_def stopped_runtime_def link_simps dest!: store_get_runtime
      split: sum.splits prod.splits if_splits)

section \<open>Recovery and requests\<close>

definition truthful :: "(string \<Rightarrow> bool) \<Rightarrow> (string \<Rightarrow> manager_answer) \<Rightarrow> bool" where
  "truthful running manager \<longleftrightarrow> (\<forall>rid. running rid \<longrightarrow> \<not> gone (manager rid))"

lemma keeps_links_trans: "keeps_links running a b \<Longrightarrow> keeps_links running b c \<Longrightarrow> keeps_links running a c"
  by (simp add: keeps_links_def)

lemma keeps_links_clear:
  "\<not> running (wr_active r) \<Longrightarrow> wr_active r' = [] \<Longrightarrow> wr_pending r' = wr_pending r \<Longrightarrow> keeps_links running r r'"
  by (auto simp: keeps_links_def exclusive_def linked_def)

lemma keeps_links_drop:
  "\<not> running (wr_pending r) \<Longrightarrow> wr_active r' = wr_active r \<Longrightarrow> wr_pending r' = [] \<Longrightarrow> keeps_links running r r'"
  by (auto simp: keeps_links_def exclusive_def linked_def)

lemma keeps_links_attach:
  "wr_active r = [] \<Longrightarrow> wr_active r' = wr_pending r \<Longrightarrow> wr_pending r' = [] \<Longrightarrow> keeps_links running r r'"
  by (auto simp: keeps_links_def exclusive_def linked_def)

lemma keeps_links_end:
  "\<not> running (wr_active r) \<Longrightarrow> \<not> running (wr_pending r) \<Longrightarrow> wr_active r' = [] \<Longrightarrow> wr_pending r' = [] \<Longrightarrow> keeps_links running r r'"
  by (auto simp: keeps_links_def exclusive_def linked_def)

lemma settles_keeps:
  assumes "settles (manager (wr_pending r)) r r'" "exclusive r" "wr_pending r \<noteq> []" "truthful running manager"
  shows "keeps_links running r r'"
  using assms by (auto simp: settles_def same_links_def truthful_def keeps_links_def exclusive_def linked_def)

definition recovers :: "(string \<Rightarrow> bool) \<Rightarrow> string \<Rightarrow> watch_runtime \<times> watch_links \<Rightarrow> watch_runtime \<times> watch_links \<Rightarrow> bool" where
  "recovers running wid rc rc' \<longleftrightarrow> keeps_links running (fst rc) (fst rc') \<and> frame_links wid (snd rc) (snd rc') \<and>
     wl_starting (snd rc') = wl_starting (snd rc) \<and>
     (rt (snd rc') wid = rt (snd rc) wid \<or> keeps_links running (fst rc) (rt (snd rc') wid))"

lemma recover_active_spec:
  assumes "recover_active env t wid d manager (r, c) = (stop, r', c')" "truthful running manager"
  shows "recovers running wid (r, c) (r', c') \<and> (\<not> stop \<longrightarrow> wr_active r' = [])"
proof -
  have dead: "gone (manager (wr_active r)) \<Longrightarrow> \<not> running (wr_active r)"
    using assms(2) by (auto simp: truthful_def)
  show ?thesis
  proof (cases "manager (wr_active r)")
    case (Found rec)
    show ?thesis
    proof (cases "wr_active r = [] \<or> rec_state rec = StateRecording")
      case True
      then show ?thesis
        using assms(1)
        by (auto simp: recover_active_def Found recovers_def frame_links_def link_simps Let_def
            intro: same_links_keeps split: if_splits)
    next
      case False
      then have "mark_terminal env t wid d rec r c = (r', c')" "\<not> stop" "\<not> running (wr_active r)"
        using assms(1) dead by (auto simp: recover_active_def Found gone_def)
      moreover have "keeps_links running r (terminal_runtime env t d rec r)"
        using calculation(3) by (rule keeps_links_clear) simp_all
      ultimately show ?thesis
        using mark_terminal_simps [of env t wid d rec r c]
        by (simp add: recovers_def frame_links_def)
    qed
  next
    case Missing
    have "keeps_links running r (idle_runtime d t (r\<lparr>wr_active := []\<rparr>))"
      by (rule keeps_links_clear) (use dead Missing in \<open>simp_all add: gone_def\<close>)
    then show ?thesis
      using assms(1) by (auto simp: recover_active_def Missing recovers_def frame_links_def split: if_splits)
  next
    case Unreadable
    then show ?thesis
      using assms(1)
      by (auto simp: recover_active_def recovers_def frame_links_def link_simps intro: same_links_keeps split: if_splits)
  qed
qed

lemma recover_pending_spec:
  assumes "recover_pending env t wid d manager (r, c) = (stop, r', c')" "truthful running manager" "wr_active r = []"
  shows "recovers running wid (r, c) (r', c')"
proof -
  have dead: "gone (manager (wr_pending r)) \<Longrightarrow> \<not> running (wr_pending r)"
    using assms(2) by (auto simp: truthful_def)
  consider "wr_pending r = []" | "wr_pending r \<noteq> []" "\<nexists>rec. manager (wr_pending r) = Found rec"
    | rec where "wr_pending r \<noteq> []" "manager (wr_pending r) = Found rec"
    by blast
  then show ?thesis
  proof cases
    case 1
    then show ?thesis
      using assms(1)
      by (auto simp: recover_pending_def recovers_def frame_links_def same_links_def intro: same_links_keeps split: if_splits)
  next
    case 2
    have "manager (wr_pending r) = Missing \<Longrightarrow> keeps_links running r (idle_runtime d t (r\<lparr>wr_pending := [], wr_starting_at := None\<rparr>))"
      by (rule keeps_links_drop) (use dead in \<open>simp_all add: gone_def\<close>)
    with 2 show ?thesis
      using assms(1)
      by (cases "manager (wr_pending r)")
         (auto simp: recover_pending_def recovers_def frame_links_def link_simps intro: same_links_keeps split: if_splits)
  next
    case 3
    obtain rel s where rel: "pending_relation env wid r rec (wl_store c) = (rel, s)"
      by fastforce
    note quiet = pending_relation_links [OF rel]
    define c1 where "c1 = c\<lparr>wl_store := s\<rparr>"
    have c1: "rt c1 w = rt c w" "has_def c1 w = has_def c w" "wl_starting c1 = wl_starting c" for w
      using quiet by (simp_all add: c1_def)
    define other where "other = (case rel of None \<Rightarrow> False | Some x \<Rightarrow> rl_watch x \<noteq> wid)"
    have eq: "recover_pending env t wid d manager (r, c) =
        (if other then (True, attention_runtime r, try_runtime env wid (attention_runtime r) c1)
         else if rec_state rec = StateRecording then (False, active_runtime (wr_pending r) r, c1)
         else (False, mark_terminal env t wid d rec (r\<lparr>wr_active := wr_pending r, wr_pending := []\<rparr>) c1))"
      using 3 by (simp add: recover_pending_def rel Let_def c1_def other_def)
    consider (other) "other" | (live) "\<not> other" "rec_state rec = StateRecording" | (dead) "\<not> other" "rec_state rec \<noteq> StateRecording"
      by blast
    then show ?thesis
    proof cases
      case other
      then have "r' = attention_runtime r" "c' = try_runtime env wid (attention_runtime r) c1"
        using assms(1) unfolding eq by auto
      moreover have "keeps_links running r (attention_runtime r)"
        by (rule same_links_keeps) (simp add: same_links_def)
      ultimately show ?thesis
        by (simp add: recovers_def frame_links_def try_runtime_eq c1)
    next
      case live
      have "keeps_links running r (active_runtime (wr_pending r) r)"
        by (rule keeps_links_attach) (simp_all add: assms(3))
      moreover have "r' = active_runtime (wr_pending r) r" "c' = c1"
        using live assms(1) unfolding eq by auto
      ultimately show ?thesis
        by (simp add: recovers_def frame_links_def c1)
    next
      case dead
      define r1 where "r1 = r\<lparr>wr_active := wr_pending r, wr_pending := []\<rparr>"
      have "\<not> running (wr_pending r)"
        using assms(2) dead(2) 3 by (auto simp: truthful_def gone_def)
      then have "keeps_links running r (terminal_runtime env t d rec r1)"
        by (intro keeps_links_drop) (simp_all add: assms(3) r1_def)
      moreover have "mark_terminal env t wid d rec r1 c1 = (r', c')"
        using dead assms(1) unfolding eq r1_def [symmetric] by auto
      ultimately show ?thesis
        using mark_terminal_simps [of env t wid d rec r1 c1] by (simp add: recovers_def frame_links_def c1)
    qed
  qed
qed

lemma rescheduled_runtime_links [simp]:
  "wr_active (rescheduled_runtime sha256 t wid d r) = wr_active r"
  "wr_pending (rescheduled_runtime sha256 t wid d r) = wr_pending r"
  by (simp_all add: rescheduled_runtime_def)

lemma recover_one_spec:
  assumes "truthful running manager" "rt c wid = r"
  shows "frame_links wid c (recover_one envs sha256 t wid d r manager c)"
    "wl_starting (recover_one envs sha256 t wid d r manager c) = wl_starting c"
    "keeps_links running r (rt (recover_one envs sha256 t wid d r manager c) wid)"
proof -
  obtain stop r1 c1 where first: "recover_active (envs 0) t wid d manager (r, c) = (stop, r1, c1)"
    by (metis prod_cases3)
  obtain stop2 r2 c2 where pend: "recover_pending (envs 1) t wid d manager (r1, c1) = (stop2, r2, c2)"
    by (metis prod_cases3)
  note one = recover_active_spec [OF first assms(1)]
  have rc1: "keeps_links running r (rt c1 wid)"
    using one assms(2) by (auto simp: recovers_def)
  have "frame_links wid c (recover_one envs sha256 t wid d r manager c) \<and>
    wl_starting (recover_one envs sha256 t wid d r manager c) = wl_starting c \<and>
    keeps_links running r (rt (recover_one envs sha256 t wid d r manager c) wid)"
  proof (cases stop)
    case True
    then show ?thesis
      using one rc1 by (simp add: recover_one_def first recovers_def)
  next
    case False
    then have two: "recovers running wid (r1, c1) (r2, c2)"
      using one recover_pending_spec [OF pend assms(1)] by simp
    have step: "keeps_links running r r1" "keeps_links running r1 r2"
      using one two by (simp_all add: recovers_def)
    have rc2: "keeps_links running r (rt c2 wid)"
      using two rc1 step(1) by (auto simp: recovers_def intro: keeps_links_trans)
    have r2: "keeps_links running r (rescheduled_runtime sha256 t wid d r2)"
      using step by (intro keeps_links_trans [OF step(1)] keeps_links_trans [OF step(2)] same_links_keeps)
        (simp add: same_links_def)
    have "frame_links wid c c2" "wl_starting c2 = wl_starting c"
      using one two by (auto simp: recovers_def frame_links_def)
    moreover have "recover_one envs sha256 t wid d r manager c =
        (if stop2 then c2 else try_runtime (envs 2) wid (rescheduled_runtime sha256 t wid d r2) c2)"
      using False pend by (simp add: recover_one_def first split: bool.splits)
    ultimately show ?thesis
      using rc2 r2 by (auto simp: try_runtime_eq frame_links_def)
  qed
  then show "frame_links wid c (recover_one envs sha256 t wid d r manager c)"
    "wl_starting (recover_one envs sha256 t wid d r manager c) = wl_starting c"
    "keeps_links running r (rt (recover_one envs sha256 t wid d r manager c) wid)"
    by blast+
qed

lemma store_update_quiet [simp]:
  "ws_runtimes (snd (store_update readable io d sec replace s)) = ws_runtimes s"
  "has_key (ws_defs (snd (store_update readable io d sec replace s))) w = has_key (ws_defs s) w"
  by (auto simp: store_update_def Let_def)

lemma store_update_links:
  assumes "store_update readable io d sec replace (wl_store c) = (e, s)"
  shows "runtime_of s w = rt c w" "has_def (c\<lparr>wl_store := s\<rparr>) w = has_def c w"
  using store_update_quiet [of readable io d sec replace "wl_store c"] assms
  by (simp_all add: runtime_of_def has_def_def del: not_None_eq)

lemma requested_links [simp]:
  "same_links r (enabled_runtime sha256 now wid enabled d r)" "same_links r (updated_runtime sha256 now wid changed d r)"
  by (simp_all add: enabled_runtime_def updated_runtime_def same_links_def Let_def)

text \<open>A request that rewritten the definition of a watch and saves its runtime.\<close>

definition rewritten :: "string \<Rightarrow> watch_links \<Rightarrow> watch_links \<Rightarrow> bool" where
  "rewritten wid c c' \<longleftrightarrow> frame_links wid c c' \<and> wl_starting c' = wl_starting c \<and> same_links (rt c wid) (rt c' wid)"

lemma rewrites_refl [simp, intro]: "rewritten wid c c"
  by (simp add: rewritten_def frame_links_def)

lemma rewrites_update:
  assumes "store_update readable io d sec replace (wl_store c) = (e, s)"
  shows "rewritten wid c (c\<lparr>wl_store := s\<rparr>)"
  using store_update_links [OF assms] by (simp add: rewritten_def frame_links_def)

lemma rewrites_save:
  assumes "rewritten wid c c1" "same_links (rt c wid) r"
  shows "rewritten wid c (snd (put_runtime env wid r c1))" "rewritten wid c (note_event env' wid kind rid code c1)"
  using assms by (simp_all add: rewritten_def frame_links_def put_runtime_eq)

lemma rewrites_put:
  assumes "rewritten wid c c1" "same_links (rt c wid) r"
  shows "rewritten wid c (snd (case put_runtime env wid r c1 of (Some e, c2) \<Rightarrow> (Some e, c2)
           | (None, c2) \<Rightarrow> (None, note_event env' wid kind rid code c2)))"
proof -
  have "rewritten wid c (saved wid r c1)"
    using rewrites_save(1) [OF assms, of env] assms by (auto simp: put_runtime_eq rewritten_def frame_links_def split: if_splits)
  then show ?thesis
    using assms by (simp add: put_runtime_eq rewrites_save(2))
qed

lemma set_enabled_rewrites: "rewritten wid c (snd (set_enabled env sha256 wid enabled c))"
proof (cases "store_get (en_readable env) wid (wl_store c)")
  case (Inr p)
  then obtain d sec where get: "store_get (en_readable env) wid (wl_store c) = Inr (d, rt c wid, sec)"
    using store_get_runtime by (cases p) blast
  obtain e s where up: "store_update (en_readable env) (en_store_io env)
      (d\<lparr>wd_enabled := enabled, wd_updated_at := en_now env\<rparr>) [] False (wl_store c) = (e, s)"
    by fastforce
  show ?thesis
    using rewrites_update [OF up, of wid]
    by (cases e) (simp_all add: set_enabled_def get up rewrites_put)
qed (simp add: set_enabled_def)

text \<open>Guards and failing steps before the write.\<close>

lemma rewritten_guards:
  "rewritten wid c (snd x) \<Longrightarrow> rewritten wid c (snd (if refused then (e, c) else x))"
  "rewritten wid c (snd x) \<Longrightarrow> rewritten wid c (snd (case err of None \<Rightarrow> x | Some e' \<Rightarrow> (Some e', c)))"
  "(\<And>v. rewritten wid c (snd (f v))) \<Longrightarrow> rewritten wid c (snd (case res of None \<Rightarrow> (e, c) | Some v \<Rightarrow> f v))"
  by (simp_all split: option.splits)

lemma update_watch_rewrites: "rewritten wid c (snd (update_watch env sha256 canonical ad wid rq c))"
proof (cases "store_get (en_readable env) wid (wl_store c)")
  case (Inr p)
  then obtain d old where get: "store_get (en_readable env) wid (wl_store c) = Inr (d, rt c wid, old)"
    using store_get_runtime by (cases p) blast
  have save: "rewritten wid c (snd (case store_update (en_readable env) (en_store_io env) d1 sec replace (wl_store c) of
      (Some e, s) \<Rightarrow> (Some e, c\<lparr>wl_store := s\<rparr>)
    | (None, s) \<Rightarrow> (case put_runtime env wid (updated_runtime sha256 (en_now env) wid changed d1 (rt c wid)) (c\<lparr>wl_store := s\<rparr>) of
          (Some e, c1) \<Rightarrow> (Some e, c1)
        | (None, c1) \<Rightarrow> (None, note_event env wid ''watch_updated'' [] [] c1))))" for d1 sec replace changed
  proof -
    obtain e s where up: "store_update (en_readable env) (en_store_io env) d1 sec replace (wl_store c) = (e, s)"
      by fastforce
    show ?thesis
      using rewrites_update [OF up, of wid] by (cases e) (simp_all add: up rewrites_put)
  qed
  obtain replace sec where up: "updated_secrets rq old = (replace, sec)"
    by fastforce
  show ?thesis
    unfolding update_watch_def get sum.case prod.case Let_def up by (intro rewritten_guards save)
qed (simp add: update_watch_def)

lemma delete_watch_spec:
  defines "c' \<equiv> \<lambda>env wid c. snd (delete_watch env wid c)"
  shows "wl_starting (c' env wid c) = wl_starting c"
    "w \<noteq> wid \<Longrightarrow> rt (c' env wid c) w = rt c w" "w \<noteq> wid \<Longrightarrow> has_def (c' env wid c) w = has_def c w"
    "c' env wid c = c \<or> (\<not> has_def (c' env wid c) wid \<and> rt (c' env wid c) wid = empty_runtime)"
  by (auto simp: c'_def delete_watch_def store_delete_def Let_def runtime_of_def has_def_def split: sum.splits)

lemma checking_runtime_links [simp]: "same_links empty_runtime (checking_runtime nxt)"
  by (simp add: checking_runtime_def same_links_def)

lemma store_create_links:
  assumes "store_create io d sec r (wl_store c) = (e, s)"
  shows "(runtime_of s w = rt c w \<and> has_def (c\<lparr>wl_store := s\<rparr>) w = has_def c w) \<or>
    (e = None \<and> w = wd_id d \<and> \<not> has_def c w \<and> runtime_of s w = r \<and> has_def (c\<lparr>wl_store := s\<rparr>) w)"
  using assms
  by (auto simp: store_create_def create_cleanup_def runtime_of_def has_def_def Let_def split: if_splits)

lemma create_watch_spec:
  defines "c' \<equiv> \<lambda>env sha256 canonical ad rq c. snd (create_watch env sha256 canonical ad rq c)"
  shows "wl_starting (c' env sha256 canonical ad rq c) = wl_starting c"
    "(rt (c' env sha256 canonical ad rq c) w = rt c w \<and> has_def (c' env sha256 canonical ad rq c) w = has_def c w) \<or>
     (en_fresh env = Some w \<and> \<not> has_def c w \<and> has_def (c' env sha256 canonical ad rq c) w \<and>
      same_links empty_runtime (rt (c' env sha256 canonical ad rq c) w))"
proof -
  have "wl_starting (c' env sha256 canonical ad rq c) = wl_starting c \<and>
    ((rt (c' env sha256 canonical ad rq c) w = rt c w \<and> has_def (c' env sha256 canonical ad rq c) w = has_def c w) \<or>
     (en_fresh env = Some w \<and> \<not> has_def c w \<and> has_def (c' env sha256 canonical ad rq c) w \<and>
      same_links empty_runtime (rt (c' env sha256 canonical ad rq c) w)))"
  proof (cases "en_fresh env")
    case None
    then show ?thesis
      by (auto simp: c'_def create_watch_def Let_def split: option.splits)
  next
    case (Some wid)
    have save: "wl_starting x = wl_starting c \<and> ((rt x w = rt c w \<and> has_def x w = has_def c w) \<or>
        (wid = w \<and> \<not> has_def c w \<and> has_def x w \<and> same_links empty_runtime (rt x w)))"
      if x: "x = snd (case store_create (en_store_io env) d sec (checking_runtime nxt) (wl_store c) of
          (Some e, s) \<Rightarrow> (Some e, c\<lparr>wl_store := s\<rparr>)
        | (None, s) \<Rightarrow> (None, note_event env wid ''watch_created'' [] [] (c\<lparr>wl_store := s\<rparr>)))"
        and d: "wd_id d = wid" for x d sec nxt
    proof -
      obtain e s where cr: "store_create (en_store_io env) d sec (checking_runtime nxt) (wl_store c) = (e, s)"
        by fastforce
      show ?thesis
        using store_create_links [OF cr, of w] x d by (cases e) (auto simp: cr)
    qed
    have id: "wd_id (new_definition now wid aid input mode rq) = wid" for now aid input mode
      by (simp add: new_definition_def)
    show ?thesis
      unfolding c'_def create_watch_def Some Let_def option.case
      using save [OF refl id] by (auto split: option.splits)
  qed
  then show "wl_starting (c' env sha256 canonical ad rq c) = wl_starting c"
    "(rt (c' env sha256 canonical ad rq c) w = rt c w \<and> has_def (c' env sha256 canonical ad rq c) w = has_def c w) \<or>
     (en_fresh env = Some w \<and> \<not> has_def c w \<and> has_def (c' env sha256 canonical ad rq c) w \<and>
      same_links empty_runtime (rt (c' env sha256 canonical ad rq c) w))"
    by blast+
qed

end
