(* ===== verification/Watch_Runs.thy ===== *)
theory Watch_Runs
  imports Watch_Links
begin

text \<open>
  Whole runs of the watch service: which recordings it has started for a watch and how the links of the watch
  account for them.  Any transition may follow any other.  A run is orderly when its new ids are new and
  when the writes that nothing in the code protects find the state they were computed from: the write of
  reconcileOne, from a copy read before; the writes of recoverLinks for a watch, from the copies of its snapshot;
  and the end of a failed or offline check, which drops whatever start is pending.
\<close>

section \<open>Orderly runs\<close>

definition undisturbed :: "watch_service \<Rightarrow> string \<Rightarrow> watch_runtime \<Rightarrow> manager_answer \<Rightarrow> bool" where
  "undisturbed sv wid r answer \<longleftrightarrow> rt (sv_links sv) wid = r \<and> (gone answer \<longrightarrow> \<not> recording_in sv (wr_active r))"

definition settled :: "watch_service \<Rightarrow> string \<Rightarrow> string \<Rightarrow> bool" where
  "settled sv wid own \<longleftrightarrow> wr_active (rt (sv_links sv) wid) = [] \<and>
     (wr_pending (rt (sv_links sv) wid) = [] \<or> wr_pending (rt (sv_links sv) wid) = own)"

definition fresh_id :: "watch_service \<Rightarrow> watch_env \<Rightarrow> bool" where
  "fresh_id sv env \<longleftrightarrow> (case en_fresh env of None \<Rightarrow> True | Some x \<Rightarrow> hex32 x \<and> x \<notin> set (sv_ids sv))"

fun orderly_job :: "watch_service \<Rightarrow> watch_env \<Rightarrow> string \<Rightarrow> job \<Rightarrow> bool" where
  "orderly_job sv env wid (Linked d r answer) \<longleftrightarrow> undisturbed sv wid r answer"
| "orderly_job sv env wid (Failing code attention) \<longleftrightarrow> settled sv wid []"
| "orderly_job sv env wid (Going_offline t) \<longleftrightarrow> settled sv wid []"
| "orderly_job sv env wid (Ending gated own code) \<longleftrightarrow> settled sv wid own"
| "orderly_job sv env wid (Claiming r digest t) \<longleftrightarrow> fresh_id sv env"
| "orderly_job sv env wid _ \<longleftrightarrow> True"

fun orderly :: "watch_service \<Rightarrow> service_event \<Rightarrow> bool" where
  "orderly sv (Advance env w wid) \<longleftrightarrow> (case map_of (sv_jobs sv) wid of None \<Rightarrow> True | Some j \<Rightarrow> orderly_job sv env wid j)"
| "orderly sv (Links_save env) \<longleftrightarrow>
     (case sv_looked sv of None \<Rightarrow> True | Some (d, r, answer) \<Rightarrow> undisturbed sv (wd_id d) r answer)"
| "orderly sv (Recover_next envs t readable) \<longleftrightarrow>
     (case sv_recovering sv of [] \<Rightarrow> True | (d, r) # _ \<Rightarrow> rt (sv_links sv) (wd_id d) = r)"
| "orderly sv (Create_watch env ad rq) \<longleftrightarrow> fresh_id sv env"
| "orderly sv (Recording_started rec) \<longleftrightarrow> rec_id rec \<notin> set (sv_ids sv)"
| "orderly sv _ \<longleftrightarrow> True"

definition orderly_run ::
    "(string \<Rightarrow> string) \<Rightarrow> (string \<Rightarrow> string option) \<Rightarrow> watch_service \<Rightarrow> service_event list \<Rightarrow> bool" where
  "orderly_run sha256 canonical = guarded_run (service_step sha256 canonical) orderly"

section \<open>The invariant\<close>

text \<open>The id a check has claimed for a recording that does not exist yet, and what each point of a check relies on.\<close>

fun claim_of :: "job \<Rightarrow> string" where
  "claim_of (Claimed pid _ _) = pid"
| "claim_of (Gated pid _ _) = pid"
| "claim_of (Starting_recording pid _ _ _) = pid"
| "claim_of (Refused pid _ _ _) = pid"
| "claim_of (Ending _ own _) = own"
| "claim_of _ = []"

definition owned_start :: "watch_links \<Rightarrow> string \<Rightarrow> string \<Rightarrow> bool" where
  "owned_start c wid pid \<longleftrightarrow> starting c wid = Some pid \<and> pid \<noteq> [] \<and> wr_active (rt c wid) = [] \<and>
     wr_pending (rt c wid) = pid \<and> has_def c wid"

fun job_ok :: "watch_links \<Rightarrow> string \<Rightarrow> job \<Rightarrow> bool" where
  "job_ok c wid (Resolving r _ _) \<longleftrightarrow> wr_active r = []"
| "job_ok c wid (Claiming r _ _) \<longleftrightarrow> wr_active r = []"
| "job_ok c wid (Claimed pid _ _) \<longleftrightarrow> starting c wid = Some pid \<and> pid \<noteq> []"
| "job_ok c wid (Gated pid _ _) \<longleftrightarrow> starting c wid = Some pid \<and> pid \<noteq> []"
| "job_ok c wid (Starting_recording pid _ _ r) \<longleftrightarrow> owned_start c wid pid \<and> wr_active r = []"
| "job_ok c wid (Refused pid _ _ r) \<longleftrightarrow> owned_start c wid pid \<and> wr_active r = []"
| "job_ok c wid (Committing pid rec) \<longleftrightarrow> owned_start c wid pid \<and> rec_id rec = pid"
| "job_ok c wid _ \<longleftrightarrow> True"

definition links_ok :: "watch_links \<Rightarrow> (string, recording) gomap \<Rightarrow> (string \<times> string) list \<Rightarrow> bool" where
  "links_ok c m lg \<longleftrightarrow> (\<forall>w. exclusive (rt c w)) \<and>
     (\<forall>w rid. (w, rid) \<in> set lg \<longrightarrow> has_def c w \<longrightarrow> live_in m rid \<longrightarrow> linked (rt c w) rid)"

definition ids_ok :: "watch_links \<Rightarrow> (string, recording) gomap \<Rightarrow> (string \<times> string) list \<Rightarrow> string list \<Rightarrow> bool" where
  "ids_ok c m lg ids \<longleftrightarrow> (\<forall>rid. has_key m rid \<longrightarrow> rid \<in> set ids) \<and> (\<forall>w rid. (w, rid) \<in> set lg \<longrightarrow> w \<in> set ids \<and> rid \<in> set ids) \<and>
     (\<forall>w. has_def c w \<longrightarrow> w \<in> set ids)"

definition unborn :: "(string, recording) gomap \<Rightarrow> (string \<times> string) list \<Rightarrow> string list \<Rightarrow> string \<Rightarrow> bool" where
  "unborn m lg ids pid \<longleftrightarrow> map_of m pid = None \<and> pid \<in> set ids \<and> pid \<notin> snd ` set lg"

definition jobs_ok ::
    "watch_links \<Rightarrow> (string, job) gomap \<Rightarrow> (string, recording) gomap \<Rightarrow> (string \<times> string) list \<Rightarrow> string list \<Rightarrow> bool" where
  "jobs_ok c js m lg ids \<longleftrightarrow>
     (\<forall>w j. map_of js w = Some j \<longrightarrow> job_ok c w j \<and> (claim_of j \<noteq> [] \<longrightarrow> unborn m lg ids (claim_of j))) \<and>
     (\<forall>w w' j j'. map_of js w = Some j \<longrightarrow> map_of js w' = Some j' \<longrightarrow> claim_of j \<noteq> [] \<longrightarrow> claim_of j = claim_of j' \<longrightarrow> w = w')"

definition inv_parts ::
    "watch_links \<Rightarrow> (string, job) gomap \<Rightarrow> (string, recording) gomap \<Rightarrow> (string \<times> string) list \<Rightarrow> string list \<Rightarrow> bool" where
  "inv_parts c js m lg ids \<longleftrightarrow> links_ok c m lg \<and> ids_ok c m lg ids \<and> jobs_ok c js m lg ids"

definition waiting_only :: "watch_service \<Rightarrow> bool" where
  "waiting_only sv \<longleftrightarrow> (\<forall>w j. map_of (sv_jobs sv) w = Some j \<longrightarrow> j = Queued)"

definition service_inv :: "watch_service \<Rightarrow> bool" where
  "service_inv sv \<longleftrightarrow> inv_parts (sv_links sv) (sv_jobs sv) (sv_manager sv) (sv_log sv) (sv_ids sv) \<and>
     (\<not> sv_running sv \<or> sv_recovering sv \<noteq> [] \<longrightarrow> waiting_only sv)"

lemmas inv_defs = inv_parts_def links_ok_def ids_ok_def jobs_ok_def

lemma live_unborn: "unborn m lg ids pid \<Longrightarrow> \<not> live_in m pid"
  by (simp add: unborn_def live_in_def)

lemma truthful_manager: "truthful (live_in m) (ask_manager m readable)"
  by (auto simp: truthful_def gone_def ask_manager_def live_in_def split: option.splits)

text \<open>A transition of the check of \<open>wid\<close>, or of anything else that only touches \<open>wid\<close>.\<close>

lemma inv_step:
  assumes "inv_parts c js m lg ids" "frame_links wid c c'" "keeps_links (live_in m) (rt c wid) (rt c' wid)"
    "\<And>w. w \<noteq> wid \<Longrightarrow> map_of js' w = map_of js w"
    "\<And>j'. map_of js' wid = Some j' \<Longrightarrow> job_ok c' wid j' \<and>
       (claim_of j' = [] \<or> (\<exists>j. map_of js wid = Some j \<and> claim_of j' = claim_of j))"
  shows "inv_parts c' js' m lg ids"
proof -
  have links: "links_ok c' m lg"
  proof -
    have "exclusive (rt c' w)" for w
      using assms(1-3) by (cases "w = wid") (auto simp: inv_defs frame_links_def keeps_links_def)
    moreover have "linked (rt c' w) rid" if "(w, rid) \<in> set lg" "has_def c' w" "live_in m rid" for w rid
    proof -
      have "linked (rt c w) rid"
        using that assms(1,2) by (simp add: inv_defs frame_links_def)
      then show ?thesis
        using assms(2,3) that by (cases "w = wid") (auto simp: frame_links_def keeps_links_def)
    qed
    ultimately show ?thesis
      by (simp add: links_ok_def)
  qed
  have ids: "ids_ok c' m lg ids"
    using assms(1,2) by (simp add: inv_defs frame_links_def)
  have others: "job_ok c' w j" if "w \<noteq> wid" "job_ok c w j" for w j
    using that assms(2) by (cases j) (simp_all add: frame_links_def owned_start_def)
  have claims: "\<exists>j. map_of js w = Some j \<and> claim_of j' = claim_of j" if "map_of js' w = Some j'" "claim_of j' \<noteq> []" for w j'
    using that assms(4) [of w] assms(5) [of j'] by (cases "w = wid") auto
  have "jobs_ok c' js' m lg ids"
    unfolding jobs_ok_def
  proof (intro conjI allI impI)
    fix w j' assume j': "map_of js' w = Some j'"
    show "job_ok c' w j'"
    proof (cases "w = wid")
      case False
      then show ?thesis
        using others j' assms(1,4) by (simp add: inv_defs)
    qed (use assms(5) j' in simp)
    show "unborn m lg ids (claim_of j')" if "claim_of j' \<noteq> []"
      using claims [OF j' that] that assms(1) unfolding inv_defs by force
  next
    fix w w' j j'
    assume "map_of js' w = Some j" "map_of js' w' = Some j'" "claim_of j \<noteq> []" "claim_of j = claim_of j'"
    then show "w = w'"
      using claims [of w j] claims [of w' j'] assms(1) unfolding inv_parts_def jobs_ok_def by metis
  qed
  with links ids show ?thesis
    by (simp add: inv_parts_def)
qed

lemma inv_finish:
  assumes "inv_parts c js m lg ids" "frame_links wid c c'" "keeps_links (live_in m) (rt c wid) (rt c' wid)"
  shows "inv_parts c' (AList.delete wid js) m lg ids"
  by (rule inv_step [OF assms]) simp_all

lemma inv_move:
  assumes "inv_parts c js m lg ids" "frame_links wid c c'" "keeps_links (live_in m) (rt c wid) (rt c' wid)"
    "map_of js wid = Some j" "job_ok c' wid j'" "claim_of j' = [] \<or> claim_of j' = claim_of j"
  shows "inv_parts c' (AList.update wid j' js) m lg ids"
  by (rule inv_step [OF assms(1-3)]) (use assms(4-6) in auto)

lemma frame_links_refl [simp, intro]: "frame_links wid c c"
  by (simp add: frame_links_def)

text \<open>A handler called from outside the check: it leaves the links alone wherever a start is in progress.\<close>

lemma inv_outside:
  assumes "inv_parts c js m lg ids" "frame_links wid c c'" "wl_starting c' = wl_starting c"
    "keeps_links (live_in m) (rt c wid) (rt c' wid)"
    "\<And>pid. owned_start c wid pid \<Longrightarrow> same_links (rt c wid) (rt c' wid)"
  shows "inv_parts c' js m lg ids"
proof (rule inv_step [OF assms(1,2,4)])
  fix j' assume j': "map_of js wid = Some j'"
  then have "job_ok c wid j'"
    using assms(1) by (simp add: inv_defs)
  moreover have "owned_start c' wid pid" if "owned_start c wid pid" for pid
    using that assms(2,3) assms(5) [OF that] by (simp add: owned_start_def frame_links_def same_links_def)
  ultimately have "job_ok c' wid j'"
    using assms(3) by (cases j') simp_all
  then show "job_ok c' wid j' \<and> (claim_of j' = [] \<or> (\<exists>j. map_of js wid = Some j \<and> claim_of j' = claim_of j))"
    using j' by blast
qed simp

lemma inv_exclusive: "inv_parts c js m lg ids \<Longrightarrow> exclusive (rt c w)"
  by (simp add: inv_defs)

lemma inv_job: "inv_parts c js m lg ids \<Longrightarrow> map_of js wid = Some j \<Longrightarrow> job_ok c wid j"
  by (simp add: inv_defs)

lemma inv_claim: "inv_parts c js m lg ids \<Longrightarrow> map_of js wid = Some j \<Longrightarrow> claim_of j \<noteq> [] \<Longrightarrow> unborn m lg ids (claim_of j)"
  by (simp add: inv_defs)

lemma keeps_pending_drop:
  assumes "same_links r r' \<or> same_links (r\<lparr>wr_pending := []\<rparr>) r'" "wr_pending r \<noteq> [] \<Longrightarrow> \<not> running (wr_pending r)"
  shows "keeps_links running r r'"
  using assms by (auto simp: keeps_links_def same_links_def exclusive_def linked_def)

lemma keeps_active_drop:
  assumes "r' = r \<or> same_links r r' \<or> same_links (r\<lparr>wr_active := []\<rparr>) r'" "wr_active r \<noteq> [] \<Longrightarrow> \<not> running (wr_active r)"
  shows "keeps_links running r r'"
  using assms by (auto simp: keeps_links_def same_links_def exclusive_def linked_def)

text \<open>The regions of a check.\<close>

lemma failed_keeps:
  assumes "settled sv wid own" "own \<noteq> [] \<Longrightarrow> \<not> running own" "c = sv_links sv"
  shows "keeps_links running (rt c wid) (rt (snd (check_failed env wid code attention c)) wid)"
  by (rule keeps_pending_drop [OF check_failed_pending]) (use assms in \<open>auto simp: settled_def\<close>)

lemma offline_keeps:
  assumes "settled sv wid own" "c = sv_links sv"
  shows "keeps_links running (rt c wid) (rt (snd (check_offline env wid t c)) wid)"
proof (rule keeps_active_drop)
  show "rt (snd (check_offline env wid t c)) wid = rt c wid \<or> same_links (rt c wid) (rt (snd (check_offline env wid t c)) wid) \<or>
      same_links ((rt c wid)\<lparr>wr_active := []\<rparr>) (rt (snd (check_offline env wid t c)) wid)"
    using check_offline_active by blast
qed (use assms in \<open>auto simp: settled_def\<close>)

lemma reconcile_one_keeps:
  assumes "undisturbed sv wid r answer" "c = sv_links sv"
  shows "keeps_links (live_in (sv_manager sv)) (rt c wid) (rt (reconcile_one env t wid d r answer c) wid)"
proof -
  have r: "rt c wid = r" "gone answer \<Longrightarrow> \<not> live_in (sv_manager sv) (wr_active r)"
    using assms by (simp_all add: undisturbed_def recording_in_def)
  consider (same) "rt (reconcile_one env t wid d r answer c) wid = rt c wid \<or> same_links r (rt (reconcile_one env t wid d r answer c) wid)"
    | (drop) "gone answer" "same_links (r\<lparr>wr_active := []\<rparr>) (rt (reconcile_one env t wid d r answer c) wid)"
    using reconcile_one_active by blast
  then show ?thesis
  proof cases
    case same
    then show ?thesis
      using r by (auto intro: same_links_keeps)
  next
    case drop
    then show ?thesis
      by (intro keeps_active_drop) (use r in auto)
  qed
qed

lemma clear_start_keeps:
  assumes "\<not> running pid"
  shows "keeps_links running (rt c wid) (rt (clear_pending_start env wid pid c) wid)"
  using clear_pending_start_pending [of c wid env pid] assms
  by (auto simp: keeps_links_def same_links_def exclusive_def linked_def)

lemma admit_keeps:
  assumes "admit_start env wid pid digest t c = (a, c')" "\<not> running pid"
  shows "keeps_links running (rt c wid) (rt c' wid)"
  using admit_start_spec(2) [OF assms(1)] assms(2)
  by (auto simp: keeps_links_def same_links_def exclusive_def linked_def)

lemma refused_keeps:
  assumes "owned_start c wid pid" "wr_active r = []" "\<not> running pid"
  shows "keeps_links running (rt c wid) (rt (start_refused env wid pid t d r c) wid)"
  using start_refused_pending [of c wid env pid t d r] assms
  by (auto simp: keeps_links_def same_links_def exclusive_def linked_def owned_start_def)

lemma commit_keeps:
  assumes "owned_start c wid pid" "rec_id rec = pid"
  shows "keeps_links running (rt c wid) (rt (commit_start env wid pid rec c) wid)"
  using commit_start_active [of c wid env pid rec] assms
  by (auto simp: keeps_links_def same_links_def exclusive_def linked_def owned_start_def)

text \<open>New ids, claims and recordings.\<close>

lemma inv_jobs_cong: "(\<And>w. map_of js' w = map_of js w) \<Longrightarrow> inv_parts c js' m lg ids = inv_parts c js m lg ids"
  by (simp add: inv_defs)

lemma inv_more_ids: "inv_parts c js m lg ids \<Longrightarrow> inv_parts c js m lg (x # ids)"
  by (auto simp: inv_defs unborn_def)

lemma inv_new_claim:
  assumes "inv_parts c js m lg ids" "map_of js wid = None" "pid \<notin> set ids" "pid \<noteq> []" "job_ok c wid j" "claim_of j = pid"
  shows "inv_parts c (AList.update wid j js) m lg (pid # ids)"
proof -
  have new: "unborn m lg (pid # ids) pid"
  proof -
    have "ids_ok c m lg ids"
      using assms(1) by (simp add: inv_parts_def)
    then have ids: "has_key m pid \<longrightarrow> pid \<in> set ids" "\<And>w. (w, pid) \<in> set lg \<Longrightarrow> pid \<in> set ids"
      unfolding ids_ok_def by blast+
    then show ?thesis
      using assms(3) by (auto simp: unborn_def)
  qed
  have old: "claim_of j' \<noteq> pid" if "map_of js w = Some j'" "claim_of j' \<noteq> []" for w j'
    using inv_claim [OF assms(1) that] assms(3) by (auto simp: unborn_def)
  have "jobs_ok c (AList.update wid j js) m lg (pid # ids)"
    unfolding jobs_ok_def
  proof (intro conjI allI impI)
    fix w j' assume j': "map_of (AList.update wid j js) w = Some j'"
    show "job_ok c w j'"
      using j' assms(5) inv_job [OF assms(1)] by (auto split: if_splits)
    show "unborn m lg (pid # ids) (claim_of j')" if "claim_of j' \<noteq> []"
      using j' that new assms(6) inv_claim [OF assms(1)] by (auto simp: unborn_def split: if_splits)
  next
    fix w w' i i'
    assume *: "map_of (AList.update wid j js) w = Some i" "map_of (AList.update wid j js) w' = Some i'" "claim_of i \<noteq> []"
      "claim_of i = claim_of i'"
    show "w = w'"
    proof (cases "w = wid \<or> w' = wid")
      case True
      then show ?thesis
        using * old [of w i] old [of w' i'] assms(6) by (auto split: if_splits)
    next
      case False
      then show ?thesis
        using * assms(1) unfolding inv_parts_def jobs_ok_def by (auto split: if_splits)
    qed
  qed
  then show ?thesis
    using inv_more_ids [OF assms(1), of pid] by (simp add: inv_parts_def)
qed

lemma inv_new_recording:
  assumes "inv_parts c js m lg ids" "map_of js wid = Some (Starting_recording pid t d r)" "rec_id rec = pid"
  shows "inv_parts c (AList.update wid (Committing pid rec) js) (AList.update pid rec m) ((wid, pid) # lg) ids"
proof -
  have own: "owned_start c wid pid" "unborn m lg ids pid"
    using inv_job [OF assms(1,2)] inv_claim [OF assms(1,2)] by (auto simp: owned_start_def)
  have live: "live_in (AList.update pid rec m) rid = live_in m rid" if "rid \<noteq> pid" for rid
    using that by (simp add: live_in_def)
  have others: "claim_of j \<noteq> pid" if "map_of js w = Some j" "w \<noteq> wid" for w j
    using that assms(1,2) own(1) unfolding inv_parts_def jobs_ok_def owned_start_def by (metis claim_of.simps(3))
  have "links_ok c (AList.update pid rec m) ((wid, pid) # lg)"
    unfolding links_ok_def
  proof (intro conjI allI impI)
    fix w rid assume *: "(w, rid) \<in> set ((wid, pid) # lg)" "has_def c w" "live_in (AList.update pid rec m) rid"
    show "linked (rt c w) rid"
    proof (cases "(w, rid) = (wid, pid)")
      case True
      then show ?thesis
        using own(1) by (auto simp: linked_def owned_start_def)
    next
      case False
      then have "(w, rid) \<in> set lg" "rid \<noteq> pid"
        using *(1) own(2) by (force simp: unborn_def)+
      then show ?thesis
        using * live assms(1) by (simp add: inv_defs)
    qed
  qed (use assms(1) in \<open>simp add: inv_defs\<close>)
  moreover have "ids_ok c (AList.update pid rec m) ((wid, pid) # lg) ids"
    using assms(1) own by (auto simp: inv_defs unborn_def owned_start_def)
  moreover have "jobs_ok c (AList.update wid (Committing pid rec) js) (AList.update pid rec m) ((wid, pid) # lg) ids"
    unfolding jobs_ok_def
  proof (intro conjI allI impI)
    fix w j assume j: "map_of (AList.update wid (Committing pid rec) js) w = Some j"
    show "job_ok c w j"
      using j own(1) assms(3) inv_job [OF assms(1)] by (auto split: if_splits)
    show "unborn (AList.update pid rec m) ((wid, pid) # lg) ids (claim_of j)" if "claim_of j \<noteq> []"
      using j that others [of w j] inv_claim [OF assms(1)] by (auto simp: unborn_def split: if_splits)
  next
    fix w w' j j'
    assume "map_of (AList.update wid (Committing pid rec) js) w = Some j"
      "map_of (AList.update wid (Committing pid rec) js) w' = Some j'" "claim_of j \<noteq> []" "claim_of j = claim_of j'"
    then show "w = w'"
      using assms(1) unfolding inv_parts_def jobs_ok_def by (auto split: if_splits)
  qed
  ultimately show ?thesis
    by (simp add: inv_parts_def)
qed

lemma claim_step_inv:
  assumes "inv_parts (sv_links sv) (sv_jobs sv) (sv_manager sv) (sv_log sv) (sv_ids sv)" "fresh_id sv env" "wr_active r = []"
    "claim_step env wid r digest t sv = sv'"
  shows "inv_parts (sv_links sv') (sv_jobs sv') (sv_manager sv') (sv_log sv') (sv_ids sv')"
proof -
  obtain res c' where claim: "claim_starting env wid r t (sv_links sv) = (res, c')"
    by fastforce
  from claim show ?thesis
  proof (cases rule: claim_starting_cases)
    case (refused e)
    have "inv_parts (sv_links sv) (AList.delete wid (sv_jobs sv)) (sv_manager sv) (sv_log sv) (sv_ids sv)"
      by (rule inv_finish [OF assms(1)]) auto
    then show ?thesis
      using assms(4) claim refused inv_more_ids
      by (auto simp: claim_step_def finish_job_def with_links_def Let_def split: option.splits)
  next
    case (claimed pid)
    have frame: "frame_links wid (sv_links sv) c'"
      unfolding claimed(6) by (simp add: frame_links_def has_def_def runtime_of_def saved_def)
    have keep: "keeps_links (live_in (sv_manager sv)) (rt (sv_links sv) wid) (rt c' wid)"
      unfolding claimed(6) using claimed(4,5) assms(3)
      by (auto simp: keeps_links_def linked_def exclusive_def runtime_of_def saved_def claimed_runtime_def)
    have fresh: "pid \<notin> set (sv_ids sv)" "pid \<noteq> []"
      using assms(2) claimed(2) by (auto simp: fresh_id_def)
    have "inv_parts c' (AList.update wid (Claimed pid digest t) (AList.delete wid (sv_jobs sv))) (sv_manager sv) (sv_log sv)
        (pid # sv_ids sv)"
      by (rule inv_new_claim [OF inv_finish [OF assms(1) frame keep]]) (use fresh claimed(6) in simp_all)
    then have "inv_parts c' (AList.update wid (Claimed pid digest t) (sv_jobs sv)) (sv_manager sv) (sv_log sv) (pid # sv_ids sv)"
      by (subst (asm) inv_jobs_cong [where js = "AList.update wid (Claimed pid digest t) (sv_jobs sv)"]) simp_all
    then show ?thesis
      using assms(4) claim claimed(1,2) by (auto simp: claim_step_def set_job_def with_links_def Let_def)
  qed
qed

section \<open>Every transition keeps the invariant\<close>

abbreviation parts :: "watch_service \<Rightarrow> bool" where
  "parts sv \<equiv> inv_parts (sv_links sv) (sv_jobs sv) (sv_manager sv) (sv_log sv) (sv_ids sv)"

lemma parts_finish:
  assumes "parts sv" "frame_links wid (sv_links sv) c'" "keeps_links (live_in (sv_manager sv)) (rt (sv_links sv) wid) (rt c' wid)"
  shows "parts (finish_job wid (with_links c' sv))"
  using inv_finish [OF assms] by (simp add: finish_job_def with_links_def)

lemma parts_move:
  assumes "parts sv" "frame_links wid (sv_links sv) c'" "keeps_links (live_in (sv_manager sv)) (rt (sv_links sv) wid) (rt c' wid)"
    "map_of (sv_jobs sv) wid = Some j" "job_ok c' wid j'" "claim_of j' = [] \<or> claim_of j' = claim_of j"
  shows "parts (set_job wid j' (with_links c' sv))"
  using inv_move [OF assms] by (simp add: set_job_def with_links_def)

lemma with_own_links [simp]: "with_links (sv_links sv) sv = sv"
  by (simp add: with_links_def)

lemma parts_end:
  assumes "parts sv"
  shows "parts (finish_job wid sv)"
  using parts_finish [OF assms, of wid "sv_links sv"] by simp

lemma parts_goto:
  assumes "parts sv" "map_of (sv_jobs sv) wid = Some j" "job_ok (sv_links sv) wid j'" "claim_of j' = [] \<or> claim_of j' = claim_of j"
  shows "parts (set_job wid j' sv)"
  using parts_move [OF assms(1) _ _ assms(2-4)] by simp

lemma start_step_parts:
  assumes "parts sv" "map_of (sv_jobs sv) wid = Some (Starting_recording pid t d r)"
  shows "parts (start_step wid pid t d r started sv)"
proof -
  have ok: "owned_start (sv_links sv) wid pid" "wr_active r = []"
    using inv_job [OF assms] by simp_all
  then have no: "map_of (sv_manager sv) pid = None"
    using inv_claim [OF assms] by (simp add: unborn_def owned_start_def)
  show ?thesis
  proof (cases started)
    case None
    have "parts (set_job wid (Refused pid t d r) sv)"
      by (rule parts_goto [OF assms]) (simp_all add: ok)
    with None show ?thesis
      by (simp add: start_step_def)
  next
    case (Some rec)
    then show ?thesis
      using inv_new_recording [OF assms, of "rec\<lparr>rec_id := pid, rec_state := StateRecording\<rparr>"] no
      by (simp add: start_step_def set_job_def Let_def)
  qed
qed

lemma begin_check_parts:
  assumes "parts sv" "map_of (sv_jobs sv) wid = Some Taken"
  shows "parts (advance_job env w sha256 wid Taken sv)"
proof -
  obtain b c1 where bc: "begin_check env wid (sv_links sv) = (b, c1)"
    by fastforce
  have step: "frame_links wid (sv_links sv) c1" "keeps_links running (rt (sv_links sv) wid) (rt c1 wid)" for running
    using begin_check_links [of wid "sv_links sv" env] begin_check_same(1) [of "sv_links sv" wid env] bc
    by (auto intro: same_links_keeps)
  show ?thesis
    by (cases b) (simp_all add: advance_job_def bc parts_finish [OF assms(1) step] parts_move [OF assms(1) step assms(2)])
qed

lemma deciding_parts:
  assumes "parts sv" "map_of (sv_jobs sv) wid = Some (Deciding digest media can_resolve)"
  shows "parts (advance_job env w sha256 wid (Deciding digest media can_resolve) sv)"
proof (cases "cw_cancelled w")
  case True
  then show ?thesis
    by (simp add: advance_job_def parts_end [OF assms(1)])
next
  case False
  obtain dec c1 where dec: "live_decide env digest media can_resolve wid (sv_links sv) = (dec, c1)"
    by fastforce
  have step: "frame_links wid (sv_links sv) c1" "keeps_links running (rt (sv_links sv) wid) (rt c1 wid)" for running
    using live_decide_links [of wid "sv_links sv" env digest media can_resolve]
      live_decide_same(1) [of "sv_links sv" wid env digest media can_resolve] dec
    by (auto intro: same_links_keeps)
  have idle: "dec = Resolve r \<or> dec = Claim r \<Longrightarrow> wr_active r = []" for r
    using live_decide_idle [OF dec] by blast
  show ?thesis
    using False idle
    by (cases dec) (simp_all add: advance_job_def dec after_decision_def parts_finish [OF assms(1) step]
        parts_move [OF assms(1) step assms(2)])
qed

lemma gated_parts:
  assumes "parts sv" "map_of (sv_jobs sv) wid = Some (Gated pid digest t)"
  shows "parts (advance_job env w sha256 wid (Gated pid digest t) sv)"
proof -
  obtain a c1 where adm: "admit_start env wid pid digest t (sv_links sv) = (a, c1)"
    by fastforce
  have pid: "starting (sv_links sv) wid = Some pid" "pid \<noteq> []"
    using inv_job [OF assms] by simp_all
  have dead: "\<not> live_in (sv_manager sv) pid"
    using inv_claim [OF assms] pid by (simp add: live_unborn)
  note step = admit_start_spec(1) [OF adm] admit_keeps [where running = "live_in (sv_manager sv)", OF adm dead]
  show ?thesis
  proof (cases a)
    case (Admitted d r)
    note spec = admit_start_spec(3) [OF adm Admitted]
    have "owned_start c1 wid pid"
      using spec step(1) pid by (auto simp: owned_start_def frame_links_def)
    then have "parts (set_job wid (Starting_recording pid t d r) (with_links c1 sv))"
      by (intro parts_move [OF assms(1) step assms(2)]) (use spec in auto)
    then show ?thesis
      by (simp add: advance_job_def adm Admitted)
  qed (simp_all add: advance_job_def adm parts_finish [OF assms(1) step] parts_move [OF assms(1) step assms(2)])
qed

lemma claimed_parts:
  assumes "parts sv" "map_of (sv_jobs sv) wid = Some (Claimed pid digest t)"
  shows "parts (advance_job env w sha256 wid (Claimed pid digest t) sv)"
proof -
  have pid: "starting (sv_links sv) wid = Some pid" "pid \<noteq> []"
    using inv_job [OF assms] by simp_all
  have dead: "\<not> live_in (sv_manager sv) pid"
    using inv_claim [OF assms] pid by (simp add: live_unborn)
  show ?thesis
    by (simp add: advance_job_def pid parts_goto [OF assms]
        parts_finish [OF assms(1) clear_pending_start_links clear_start_keeps [where running = "live_in (sv_manager sv)", OF dead]])
qed

lemma advance_parts:
  assumes "parts sv" "map_of (sv_jobs sv) wid = Some j" "orderly_job sv env wid j"
  shows "parts (advance_job env w sha256 wid j sv)"
proof (cases j)
  case Queued
  then show ?thesis
    using assms(1) by (simp add: advance_job_def)
next
  case Taken
  then show ?thesis
    using begin_check_parts assms by simp
next
  case (Linking d r)
  then show ?thesis
    by (simp add: advance_job_def parts_goto [OF assms(1,2)])
next
  case (Linked d r answer)
  then have "undisturbed sv wid r answer"
    using assms(3) by simp
  then show ?thesis
    using Linked by (simp add: advance_job_def parts_finish [OF assms(1) reconcile_one_links reconcile_one_keeps])
next
  case (Asking t)
  then show ?thesis
    by (simp add: advance_job_def parts_goto [OF assms(1,2)] parts_end [OF assms(1)] split: check_verdict.splits)
next
  case (Failing code attention)
  then have "settled sv wid []"
    using assms(3) by simp
  then show ?thesis
    using Failing by (simp add: advance_job_def parts_finish [OF assms(1) check_failed_links failed_keeps])
next
  case (Going_offline t)
  then have "settled sv wid []"
    using assms(3) by simp
  then show ?thesis
    using Going_offline by (simp add: advance_job_def parts_finish [OF assms(1) check_offline_links offline_keeps])
next
  case (Deciding digest media can_resolve)
  then show ?thesis
    using deciding_parts assms by simp
next
  case (Resolving r digest t)
  then show ?thesis
    using inv_job [OF assms(1,2)] by (simp add: advance_job_def parts_goto [OF assms(1,2)])
next
  case (Claiming r digest t)
  then show ?thesis
    using claim_step_inv [OF assms(1) _ _ refl] inv_job [OF assms(1,2)] assms(3) by (simp add: advance_job_def)
next
  case (Claimed pid digest t)
  then show ?thesis
    using claimed_parts assms by simp
next
  case (Gated pid digest t)
  then show ?thesis
    using gated_parts assms by simp
next
  case (Starting_recording pid t d r)
  then show ?thesis
    using start_step_parts assms(1,2) by (simp add: advance_job_def)
next
  case (Refused pid t d r)
  have own: "owned_start (sv_links sv) wid pid" "wr_active r = []"
    using inv_job [OF assms(1,2)] Refused by simp_all
  then have "\<not> live_in (sv_manager sv) pid"
    using inv_claim [OF assms(1,2)] Refused by (simp add: owned_start_def live_unborn)
  then show ?thesis
    using Refused own by (simp add: advance_job_def parts_move [OF assms(1) start_refused_links refused_keeps assms(2)])
next
  case (Committing pid rec)
  then show ?thesis
    using inv_job [OF assms(1,2)]
    by (simp add: advance_job_def parts_finish [OF assms(1) commit_start_links commit_keeps])
next
  case (Ending gated own code)
  then have "settled sv wid own" "own \<noteq> [] \<Longrightarrow> \<not> live_in (sv_manager sv) own"
    using assms(3) inv_claim [OF assms(1,2)] by (simp_all add: live_unborn)
  then show ?thesis
    using Ending by (simp add: advance_job_def parts_finish [OF assms(1) check_failed_links failed_keeps])
qed

lemma parts_outside:
  assumes "parts sv" "frame_links wid (sv_links sv) c'" "wl_starting c' = wl_starting (sv_links sv)"
    "keeps_links (live_in (sv_manager sv)) (rt (sv_links sv) wid) (rt c' wid)"
    "\<And>pid. owned_start (sv_links sv) wid pid \<Longrightarrow> same_links (rt (sv_links sv) wid) (rt c' wid)"
  shows "parts (with_links c' sv)"
  using inv_outside [OF assms] by (simp add: with_links_def)

lemma parts_rewritten: "parts sv \<Longrightarrow> rewritten wid (sv_links sv) c' \<Longrightarrow> parts (with_links c' sv)"
  by (rule parts_outside) (auto simp: rewritten_def intro: same_links_keeps)

lemma enqueue_inv:
  assumes "service_inv sv"
  shows "service_inv (snd (enqueue wid sv))"
proof -
  have "inv_parts c (AList.update wid Queued js) m lg ids" if "inv_parts c js m lg ids" for c js m lg ids
    by (rule inv_step [OF that, where wid = wid]) auto
  then show ?thesis
    using assms by (auto simp: enqueue_def service_inv_def waiting_only_def split: if_splits)
qed

lemma schedule_inv:
  assumes "service_inv sv"
  shows "service_inv (snd (schedule_due_at now sv))"
proof -
  have "service_inv (snd (fold (\<lambda>wid (queued, sv). case enqueue wid sv of (None, sv1) \<Rightarrow> (queued + 1, sv1)
      | (Some _, sv1) \<Rightarrow> (queued, sv1)) wids (n, sv)))" if "service_inv sv" for wids n sv
    using that
  proof (induction wids arbitrary: n sv)
    case (Cons wid wids)
    obtain e sv1 where e: "enqueue wid sv = (e, sv1)"
      by fastforce
    then have "service_inv sv1"
      using enqueue_inv [OF Cons.prems, of wid] by simp
    then show ?case
      using Cons.IH e by (cases e) simp_all
  qed simp
  then show ?thesis
    using assms by (simp add: schedule_due_at_def)
qed

lemma take_inv:
  assumes "service_inv sv"
  shows "service_inv (take_job cancelled sv)"
proof (cases "sv_queue sv")
  case (Cons wid rest)
  have parts: "parts sv"
    using assms by (simp add: service_inv_def)
  show ?thesis
  proof (cases "\<not> sv_running sv \<or> sv_recovering sv \<noteq> [] \<or> map_of (sv_jobs sv) wid \<noteq> Some Queued")
    case False
    then have queued: "map_of (sv_jobs sv) wid = Some Queued"
      by simp
    show ?thesis
      using False inv_move [OF parts _ _ queued, of "sv_links sv" Taken] inv_finish [OF parts, of wid "sv_links sv"]
      by (simp add: take_job_def Cons Let_def service_inv_def finish_job_def)
  qed (use assms Cons in \<open>auto simp: take_job_def Let_def\<close>)
qed (use assms in \<open>simp add: take_job_def\<close>)

lemma advance_frame:
  "sv_running (advance_job env w sha256 wid j sv) = sv_running sv"
  "sv_recovering (advance_job env w sha256 wid j sv) = sv_recovering sv"
  by (cases j; simp add: advance_job_def with_links_def set_job_def finish_job_def after_decision_def claim_step_def
      start_step_def Let_def split: prod.splits check_begin.splits check_verdict.splits live_decision.splits
      sum.splits option.splits admission.splits)+

lemma advance_inv:
  assumes "service_inv sv" "map_of (sv_jobs sv) wid = Some j" "orderly_job sv env wid j"
  shows "service_inv (advance_job env w sha256 wid j sv)"
proof (cases "\<not> sv_running sv \<or> sv_recovering sv \<noteq> []")
  case True
  then have "j = Queued"
    using assms(1,2) by (simp add: service_inv_def waiting_only_def)
  then show ?thesis
    using assms(1) by (simp add: advance_job_def)
next
  case False
  then show ?thesis
    using advance_parts [OF _ assms(2,3)] assms(1) by (simp add: service_inv_def advance_frame)
qed

lemma inv_create:
  assumes "inv_parts c js m lg ids" "x \<notin> set ids" "wl_starting c' = wl_starting c"
    "\<And>w. (rt c' w = rt c w \<and> has_def c' w = has_def c w) \<or> (w = x \<and> \<not> has_def c w \<and> has_def c' w \<and> same_links empty_runtime (rt c' w))"
  shows "inv_parts c' js m lg (x # ids)"
proof -
  have empty: "exclusive r" if "same_links empty_runtime r" for r
    using that by (simp add: same_links_def exclusive_def empty_runtime_def)
  have "links_ok c' m lg"
    unfolding links_ok_def
  proof (intro conjI allI impI)
    show "exclusive (rt c' w)" for w
      using assms(4) [of w] inv_exclusive [OF assms(1), of w] empty by metis
    fix w rid assume *: "(w, rid) \<in> set lg" "has_def c' w" "live_in m rid"
    then have "w \<noteq> x"
      using assms(1,2) by (auto simp: inv_defs)
    then show "linked (rt c' w) rid"
      using * assms(1) assms(4) [of w] by (simp add: inv_defs)
  qed
  moreover have "ids_ok c' m lg (x # ids)"
  proof -
    have "w \<in> set (x # ids)" if "has_def c' w" for w
      using that assms(1) assms(4) [of w] by (auto simp: inv_defs)
    then show ?thesis
      using assms(1) by (simp add: inv_defs)
  qed
  moreover have "jobs_ok c' js m lg (x # ids)"
  proof -
    have "owned_start c' w pid" if "owned_start c w pid" for w pid
      using that assms(3) assms(4) [of w] by (auto simp: owned_start_def)
    then have "job_ok c' w j" if "job_ok c w j" for w j
      using that assms(3) by (cases j) simp_all
    moreover have "unborn m lg (x # ids) pid" if "unborn m lg ids pid" for pid
      using that by (simp add: unborn_def)
    ultimately show ?thesis
      using assms(1) unfolding inv_parts_def jobs_ok_def by blast
  qed
  ultimately show ?thesis
    by (simp add: inv_parts_def)
qed

lemma create_inv:
  assumes "service_inv sv" "fresh_id sv env"
  shows "service_inv (create_step sha256 canonical env ad rq sv)"
proof -
  define c' where "c' = snd (create_watch env sha256 canonical ad rq (sv_links sv))"
  note spec = create_watch_spec [where env = env and ?sha256.0 = sha256 and canonical = canonical and ad = ad and rq = rq and c = "sv_links sv", folded c'_def]
  show ?thesis
  proof (cases "en_fresh env")
    case None
    have "rewritten w (sv_links sv) c'" for w
      using spec None by (simp add: rewritten_def frame_links_def)
    then have "parts (with_links c' sv)"
      using assms(1) parts_rewritten by (auto simp: service_inv_def)
    then show ?thesis
      using assms(1) None by (simp add: create_step_def service_inv_def waiting_only_def with_links_def c'_def)
  next
    case (Some x)
    then have "x \<notin> set (sv_ids sv)"
      using assms(2) by (simp add: fresh_id_def)
    then have "inv_parts c' (sv_jobs sv) (sv_manager sv) (sv_log sv) (x # sv_ids sv)"
      by (rule inv_create [rotated]) (use assms(1) spec Some in \<open>auto simp: service_inv_def\<close>)
    then show ?thesis
      using assms(1) Some by (simp add: create_step_def service_inv_def waiting_only_def with_links_def c'_def)
  qed
qed

lemma delete_parts:
  assumes "parts sv" "gate_free sv wid"
  shows "parts (with_links (snd (delete_watch env wid (sv_links sv))) sv)"
proof -
  define c where "c = sv_links sv"
  define c' where "c' = snd (delete_watch env wid c)"
  note spec = delete_watch_spec [where env = env and wid = wid and c = c, folded c'_def]
  show ?thesis
  proof (cases "c' = c")
    case True
    then show ?thesis
      using assms(1) by (simp add: c'_def c_def)
  next
    case False
    then have gone: "\<not> has_def c' wid" "rt c' wid = empty_runtime"
      using spec(4) by blast+
    have "links_ok c' (sv_manager sv) (sv_log sv)"
      unfolding links_ok_def
    proof (intro conjI allI impI)
      show "exclusive (rt c' w)" for w
        using spec(2) [of w] gone inv_exclusive [OF assms(1), of w]
        by (cases "w = wid") (simp_all add: exclusive_def empty_runtime_def c_def)
      fix w rid assume "(w, rid) \<in> set (sv_log sv)" "has_def c' w" "live_in (sv_manager sv) rid"
      then show "linked (rt c' w) rid"
        using spec(2,3) [of w] gone assms(1) by (cases "w = wid") (simp_all add: inv_defs c_def)
    qed
    moreover have "ids_ok c' (sv_manager sv) (sv_log sv) (sv_ids sv)"
    proof -
      have "has_def c' w \<Longrightarrow> has_def c w" for w
        using spec(3) [of w] gone by (cases "w = wid") simp_all
      then show ?thesis
        using assms(1) by (simp add: inv_defs c_def)
    qed
    moreover have "jobs_ok c' (sv_jobs sv) (sv_manager sv) (sv_log sv) (sv_ids sv)"
    proof -
      have "job_ok c' w j" if "map_of (sv_jobs sv) w = Some j" for w j
      proof (cases "w = wid")
        case True
        then have "\<not> holds_gate j"
          using assms(2) that by (simp add: gate_free_def)
        then show ?thesis
          using inv_job [OF assms(1) that] spec(1) by (cases j) (simp_all add: c_def)
      next
        case False
        then have "owned_start c' w pid = owned_start c w pid" for pid
          using spec(1-3) by (simp add: owned_start_def)
        then show ?thesis
          using inv_job [OF assms(1) that] spec(1) by (cases j) (simp_all add: c_def)
      qed
      then show ?thesis
        using assms(1) unfolding inv_parts_def jobs_ok_def by blast
    qed
    ultimately show ?thesis
      by (simp add: inv_parts_def with_links_def c'_def c_def)
  qed
qed

lemma crash_inv: "service_inv sv \<Longrightarrow> service_inv (crash sv)"
  by (auto simp: service_inv_def crash_def waiting_only_def inv_defs has_def_def)

lemma run_inv_step: "service_inv sv \<Longrightarrow> service_inv (snd (run_service sv))"
  by (auto simp: service_inv_def run_service_def waiting_only_def)

lemma recover_inv:
  assumes "service_inv sv" "orderly sv (Recover_next envs t readable)"
  shows "service_inv (recover_next sha256 envs t readable sv)"
proof (cases "sv_recovering sv")
  case (Cons p rest)
  obtain d r where p: "p = (d, r)"
    by (cases p)
  define c' where "c' = recover_one envs sha256 t (wd_id d) d r (ask_manager (sv_manager sv) readable) (sv_links sv)"
  have r: "rt (sv_links sv) (wd_id d) = r"
    using assms(2) Cons p by simp
  have wait: "waiting_only sv" "parts sv"
    using assms(1) Cons by (simp_all add: service_inv_def)
  have "inv_parts c' (sv_jobs sv) (sv_manager sv) (sv_log sv) (sv_ids sv)"
  proof (rule inv_step [OF wait(2)])
    show "frame_links (wd_id d) (sv_links sv) c'"
      unfolding c'_def by (rule recover_one_spec(1) [OF truthful_manager r])
    show "keeps_links (live_in (sv_manager sv)) (rt (sv_links sv) (wd_id d)) (rt c' (wd_id d))"
      unfolding c'_def r by (rule recover_one_spec(3) [OF truthful_manager r])
    show "job_ok c' (wd_id d) j' \<and> (claim_of j' = [] \<or> (\<exists>j. map_of (sv_jobs sv) (wd_id d) = Some j \<and> claim_of j' = claim_of j))"
      if "map_of (sv_jobs sv) (wd_id d) = Some j'" for j'
    proof -
      have "j' = Queued"
        using wait(1) that by (simp add: waiting_only_def)
      then show ?thesis
        by simp
    qed
  qed simp
  then show ?thesis
    using assms(1) wait(1) by (simp add: recover_next_def Cons p service_inv_def with_links_def waiting_only_def c'_def)
qed (use assms in \<open>simp add: recover_next_def\<close>)

lemma notify_parts:
  assumes "parts sv" "\<not> recording_in sv rid"
  shows "parts (with_links (notify_stopped env wid rid (sv_links sv)) sv)"
proof (rule parts_outside [OF assms(1) notify_stopped_links notify_stopped_spec(1)])
  note spec = notify_stopped_spec(2) [of env wid rid "sv_links sv"]
  show "keeps_links (live_in (sv_manager sv)) (rt (sv_links sv) wid) (rt (notify_stopped env wid rid (sv_links sv)) wid)"
    using spec inv_exclusive [OF assms(1), of wid] assms(2)
    by (auto simp: keeps_links_def exclusive_def linked_def recording_in_def)
  show "same_links (rt (sv_links sv) wid) (rt (notify_stopped env wid rid (sv_links sv)) wid)"
    if "owned_start (sv_links sv) wid pid" for pid
    using spec that by (auto simp: owned_start_def)
qed

lemma reconcile_pending_parts:
  assumes "parts sv"
  shows "parts (with_links (reconcile_pending env wid (ask_manager (sv_manager sv) readable) (sv_links sv)) sv)"
proof -
  define c' where "c' = reconcile_pending env wid (ask_manager (sv_manager sv) readable) (sv_links sv)"
  note spec = reconcile_pending_spec [OF c'_def [symmetric]]
  have "keeps_links (live_in (sv_manager sv)) (rt (sv_links sv) wid) (rt c' wid)"
    using spec settles_keeps [OF _ inv_exclusive [OF assms] _ truthful_manager] by (metis keeps_links_refl)
  moreover have "same_links (rt (sv_links sv) wid) (rt c' wid)" if "owned_start (sv_links sv) wid pid" for pid
    using spec that by (auto simp: owned_start_def)
  ultimately show ?thesis
    unfolding c'_def [symmetric] using spec by (intro parts_outside [OF assms]) auto
qed

lemma links_next_inv:
  assumes "service_inv sv"
  shows "service_inv (links_next env readable sv)"
proof (cases "sv_snapshot sv")
  case (Cons p rest)
  obtain d r where p: "p = (d, r)"
    by (cases p)
  have "parts sv"
    using assms by (simp add: service_inv_def)
  note this reconcile_pending_parts [OF this, of env "wd_id d" readable]
  then show ?thesis
    using assms by (auto simp: links_next_def Cons p service_inv_def with_links_def waiting_only_def Let_def)
qed (use assms in \<open>simp add: links_next_def\<close>)

lemma links_save_inv:
  assumes "service_inv sv" "orderly sv (Links_save env)"
  shows "service_inv (links_save env sv)"
proof (cases "sv_looked sv")
  case (Some p)
  obtain d r answer where p: "p = (d, r, answer)"
    by (cases p)
  have parts: "parts sv" and calm: "undisturbed sv (wd_id d) r answer"
    using assms Some p by (simp_all add: service_inv_def)
  define c' where "c' = reconcile_one env (en_now env) (wd_id d) d r answer (sv_links sv)"
  have same: "same_links (rt (sv_links sv) (wd_id d)) (rt c' (wd_id d))" if "owned_start (sv_links sv) (wd_id d) pid" for pid
  proof -
    have "same_links r (r\<lparr>wr_active := []\<rparr>)"
      using that calm by (simp add: same_links_def owned_start_def undisturbed_def)
    then show ?thesis
      using reconcile_one_active [of env "en_now env" "wd_id d" d r answer "sv_links sv"] calm
      by (auto simp: undisturbed_def c'_def same_links_def)
  qed
  have "parts (with_links c' sv)"
    by (rule parts_outside [OF parts _ _ _ same])
       (simp_all add: c'_def reconcile_one_links reconcile_one_keeps [OF calm])
  then show ?thesis
    using assms(1) by (simp add: links_save_def Some p service_inv_def with_links_def waiting_only_def c'_def)
qed (use assms in \<open>simp add: links_save_def\<close>)

text \<open>The recording manager's own transitions.\<close>

lemma manager_inv:
  assumes "inv_parts c js m lg ids" "\<And>w rid. (w, rid) \<in> set lg \<Longrightarrow> live_in m' rid \<Longrightarrow> live_in m rid"
    "\<And>pid. unborn m lg ids pid \<Longrightarrow> unborn m' lg ids' pid" "\<And>rid. has_key m' rid \<Longrightarrow> rid \<in> set ids'"
    "set ids \<subseteq> set ids'"
  shows "inv_parts c js m' lg ids'"
proof -
  have "links_ok c m' lg"
    using assms(1,2) unfolding inv_parts_def links_ok_def by blast
  moreover have "ids_ok c m' lg ids'"
    using assms(1,4,5) unfolding inv_parts_def ids_ok_def by blast
  moreover have "jobs_ok c js m' lg ids'"
    using assms(1,3) unfolding inv_parts_def jobs_ok_def by blast
  ultimately show ?thesis
    by (simp add: inv_parts_def)
qed

lemma manager_ids: "inv_parts c js m lg ids \<Longrightarrow> has_key m rid \<Longrightarrow> rid \<in> set ids"
  by (auto simp: inv_defs)

lemma recording_started_parts:
  assumes "parts sv" "rec_id rec \<notin> set (sv_ids sv)"
  shows "parts (recording_started rec sv)"
proof -
  have "inv_parts (sv_links sv) (sv_jobs sv) (AList.update (rec_id rec) rec (sv_manager sv)) (sv_log sv) (rec_id rec # sv_ids sv)"
  proof (rule manager_inv [OF assms(1)])
    show "live_in (sv_manager sv) rid"
      if "(w, rid) \<in> set (sv_log sv)" "live_in (AList.update (rec_id rec) rec (sv_manager sv)) rid" for w rid
    proof -
      have "rid \<noteq> rec_id rec"
        using that(1) assms by (auto simp: inv_defs)
      then show ?thesis
        using that(2) by (simp add: live_in_def)
    qed
    show "unborn (AList.update (rec_id rec) rec (sv_manager sv)) (sv_log sv) (rec_id rec # sv_ids sv) pid"
      if "unborn (sv_manager sv) (sv_log sv) (sv_ids sv) pid" for pid
      using that assms(2) by (auto simp: unborn_def)
    show "rid \<in> set (rec_id rec # sv_ids sv)" if "has_key (AList.update (rec_id rec) rec (sv_manager sv)) rid" for rid
      using that manager_ids [OF assms(1)] by (cases "rid = rec_id rec") auto
  qed auto
  then show ?thesis
    using assms(1) by (simp add: recording_started_def)
qed

lemma recording_ended_parts:
  assumes "parts sv"
  shows "parts (recording_ended rid state sv)"
proof (cases "map_of (sv_manager sv) rid")
  case (Some rec)
  have "inv_parts (sv_links sv) (sv_jobs sv) (AList.update rid (rec\<lparr>rec_state := state\<rparr>) (sv_manager sv)) (sv_log sv) (sv_ids sv)"
    if "state \<noteq> StateRecording"
    by (rule manager_inv [OF assms])
       (use that Some manager_ids [OF assms] in \<open>auto simp: live_in_def unborn_def split: if_splits\<close>)
  then show ?thesis
    using assms Some by (simp add: recording_ended_def)
qed (use assms in \<open>simp add: recording_ended_def\<close>)

lemma recording_removed_parts:
  assumes "parts sv"
  shows "parts (sv\<lparr>sv_manager := AList.delete rid (sv_manager sv)\<rparr>)"
proof -
  have "inv_parts (sv_links sv) (sv_jobs sv) (AList.delete rid (sv_manager sv)) (sv_log sv) (sv_ids sv)"
    by (rule manager_inv [OF assms])
       (use manager_ids [OF assms] in \<open>auto simp: live_in_def unborn_def split: if_splits\<close>)
  then show ?thesis
    by simp
qed

lemma service_step_inv:
  assumes "service_inv sv" "orderly sv ev"
  shows "service_inv (service_step sha256 canonical sv ev)"
proof -
  have parts: "parts sv"
    using assms(1) by (simp add: service_inv_def)
  have via: "service_inv sv'" if "parts sv'" "sv_jobs sv' = sv_jobs sv" "sv_running sv' = sv_running sv"
    "sv_recovering sv' = sv_recovering sv" for sv'
    using that assms(1) by (simp add: service_inv_def waiting_only_def)
  show ?thesis
  proof (cases ev)
    case (Manual_check env wid)
    then show ?thesis
      using assms(1) enqueue_inv [OF assms(1), of wid] by (simp add: manual_check_def split: sum.splits prod.splits)
  next
    case (Advance env w wid)
    then show ?thesis
      using assms advance_inv [OF assms(1)] by (simp split: option.splits)
  next
    case (Update_watch env ad wid rq)
    have "service_inv (with_links (snd (update_watch env sha256 canonical ad wid rq (sv_links sv))) sv)"
      by (rule via [OF parts_rewritten [OF parts update_watch_rewrites]]) (simp_all add: with_links_def)
    then show ?thesis
      using assms(1) Update_watch by simp
  next
    case (Set_enabled env wid enabled)
    have "service_inv (with_links (snd (set_enabled env sha256 wid enabled (sv_links sv))) sv)"
      by (rule via [OF parts_rewritten [OF parts set_enabled_rewrites]]) (simp_all add: with_links_def)
    then show ?thesis
      using assms(1) Set_enabled by simp
  next
    case (Delete_watch env wid)
    have "service_inv (with_links (snd (delete_watch env wid (sv_links sv))) sv)" if "gate_free sv wid"
      by (rule via [OF delete_parts [OF parts that]]) (simp_all add: with_links_def)
    then show ?thesis
      using assms(1) Delete_watch by simp
  next
    case (Notify_stopped env wid rid)
    have "service_inv (with_links (notify_stopped env wid rid (sv_links sv)) sv)" if "\<not> recording_in sv rid"
      by (rule via [OF notify_parts [OF parts that]]) (simp_all add: with_links_def)
    then show ?thesis
      using assms(1) Notify_stopped by simp
  next
    case (Recording_started rec)
    have "service_inv (recording_started rec sv)"
      by (rule via [OF recording_started_parts [OF parts]])
         (use assms(2) Recording_started in \<open>simp_all add: recording_started_def\<close>)
    then show ?thesis
      using Recording_started by simp
  next
    case (Recording_ended rid state)
    have "service_inv (recording_ended rid state sv)"
      by (rule via [OF recording_ended_parts [OF parts]]) (simp_all add: recording_ended_def split: option.splits)
    then show ?thesis
      using Recording_ended by simp
  next
    case (Recording_removed rid)
    have "service_inv (sv\<lparr>sv_manager := AList.delete rid (sv_manager sv)\<rparr>)"
      by (rule via [OF recording_removed_parts [OF parts]]) simp_all
    then show ?thesis
      using assms(1) Recording_removed by simp
  next
    case Pause_checks
    have "service_inv (snd (pause_checks sv))"
      by (rule via) (use parts in \<open>simp_all add: pause_checks_def\<close>)
    then show ?thesis
      using Pause_checks by simp
  next
    case Resume_checks
    have "service_inv (snd (resume_checks sv))"
      by (rule via) (use parts in \<open>simp_all add: resume_checks_def\<close>)
    then show ?thesis
      using Resume_checks by simp
  next
    case Links_snapshot
    have "service_inv (sv\<lparr>sv_snapshot := snapshots (wl_store (sv_links sv))\<rparr>)"
      by (rule via) (use parts in simp_all)
    then show ?thesis
      using assms(1) Links_snapshot by simp
  next
    case Close
    have "service_inv (sv\<lparr>sv_closed := True\<rparr>)"
      by (rule via) (use parts in simp_all)
    then show ?thesis
      using Close by simp
  qed (use assms in \<open>simp_all add: schedule_inv take_inv create_inv links_next_inv links_save_inv crash_inv run_inv_step recover_inv
         del: orderly.simps(3)\<close>)
qed

interpretation watch_runs: guarded_system "service_step sha256 canonical" service_inv orderly for sha256 canonical
  by unfold_locales (rule service_step_inv)

lemma empty_service_inv: "service_inv empty_service"
  by (simp add: service_inv_def empty_service_def inv_defs waiting_only_def has_def_def empty_store_def runtime_of_def
      exclusive_def empty_runtime_def)

section \<open>One recording per watch\<close>


end
