(* ===== verification/Watch_Races.thy ===== *)
theory Watch_Races
  imports Watch_Runs
begin

text \<open>
  Concrete runs of the watch service on one watch: a recording that is started and accounted for, and the two
  races that an orderly run excludes, each of which ends with two recordings of the same watch.
\<close>

section \<open>One watch\<close>

definition demo_wid :: string where "demo_wid = replicate 32 (CHR ''a'')"
definition demo_pid :: "nat \<Rightarrow> string" where
  "demo_pid n = (if n = 0 then replicate 32 (CHR ''b'') else if n = 1 then replicate 32 (CHR ''c'') else replicate 32 (CHR ''d''))"

lemma demo_ids [simp]:
  "hex32 demo_wid" "hex32 (demo_pid n)" "demo_pid n \<noteq> []" "demo_wid \<noteq> demo_pid n" "demo_pid n \<noteq> demo_wid"
  "demo_pid 0 \<noteq> demo_pid (Suc 0)" "demo_pid 0 \<noteq> demo_pid 2" "demo_pid (Suc 0) \<noteq> demo_pid 2"
  "demo_pid (Suc 0) \<noteq> demo_pid 0" "demo_pid 2 \<noteq> demo_pid 0" "demo_pid 2 \<noteq> demo_pid (Suc 0)"
  by (simp_all add: demo_wid_def demo_pid_def hex32_def list_all_iff is_hex_lower_def)

definition demo_sha :: "string \<Rightarrow> string" where "demo_sha _ = replicate 32 (char_of (0 :: nat))"

definition demo_env :: "instant \<Rightarrow> string option \<Rightarrow> bool \<Rightarrow> watch_env" where
  "demo_env t fresh ok = \<lparr>en_now = t, en_jitter = (\<lambda>_. 0), en_fresh = fresh, en_readable = True, en_runtime_ok = ok,
     en_relation_io = (\<lambda>_. True), en_unlink_ok = True, en_store_io = (\<lambda>_. Done), en_removed = (\<lambda>_. True),
     en_event_id = None, en_event_ok = True\<rparr>"

definition demo_def :: watch_def where
  "demo_def = \<lparr>wd_id = demo_wid, wd_adapter = ''x'', wd_resource = None, wd_input = ''{}'', wd_enabled = True, wd_title = [],
     wd_preview_mode = ''disabled'', wd_interval = 10, wd_truncated = False, wd_created_at = 0, wd_updated_at = 0\<rparr>"

definition demo_links :: "watch_runtime \<Rightarrow> (string, watch_relation) gomap \<Rightarrow> (string, string) gomap \<Rightarrow> watch_links" where
  "demo_links r rels st = \<lparr>wl_store = \<lparr>ws_defs = [(demo_wid, demo_def)], ws_runtimes = [(demo_wid, r)],
     ws_events = [(demo_wid, [])], ws_relations = rels, ws_secret_files = [(demo_wid, [])], ws_secret_bytes = 0,
     ws_secret_set = [(demo_wid, [])]\<rparr>, wl_starting = st\<rparr>"

lemma env_simps [simp]:
  "en_now (demo_env t f ok) = t" "en_jitter (demo_env t f ok) = (\<lambda>_. 0)" "en_fresh (demo_env t f ok) = f"
  "en_readable (demo_env t f ok) = True" "en_runtime_ok (demo_env t f ok) = ok" "en_relation_io (demo_env t f ok) = (\<lambda>_. True)"
  "en_unlink_ok (demo_env t f ok) = True" "en_store_io (demo_env t f ok) = (\<lambda>_. Done)" "en_event_id (demo_env t f ok) = None"
  by (simp_all add: demo_env_def)

lemma def_simps [simp]: "wd_id demo_def = demo_wid" "wd_enabled demo_def" "wd_created_at demo_def = 0" "wd_interval demo_def = 10"
  by (simp_all add: demo_def_def)

lemma links_simps [simp]:
  "store_get True demo_wid (wl_store (demo_links r rels st)) = Inr (demo_def, r, [])"
  "runtime_of (wl_store (demo_links r rels st)) demo_wid = r"
  "wl_starting (demo_links r rels st) = st"
  "snapshots (wl_store (demo_links r rels st)) = [(demo_def, r)]"
  "ws_defs (wl_store (demo_links r rels st)) = [(demo_wid, demo_def)]"
  by (simp_all add: demo_links_def store_get_def runtime_of_def secret_file_def snapshots_def)

lemma links_put [simp]:
  "valid_runtime r \<Longrightarrow> put_runtime (demo_env t f True) demo_wid r (demo_links r0 rels st) = (None, demo_links r rels st)"
  "valid_runtime r \<Longrightarrow> try_runtime (demo_env t f True) demo_wid r (demo_links r0 rels st) = demo_links r rels st"
  "\<exists>e. put_runtime (demo_env t f False) demo_wid r (demo_links r0 rels st) = (Some e, demo_links r0 rels st)"
  by (simp_all add: put_runtime_def try_runtime_def save_runtime_def demo_links_def)

lemma no_event [simp]: "note_event (demo_env t f ok) wid kind rid code c = c"
  by (simp add: note_event_def add_event_def split: option.splits)

lemma no_event_at [simp]: "note_event ((demo_env t f ok)\<lparr>en_now := t'\<rparr>) wid kind rid code c = c"
  by (simp add: note_event_def add_event_def split: option.splits)

lemma links_unlink [simp]:
  "unlink (demo_env t f ok) (demo_pid n) (demo_links r rels st) = demo_links r (AList.delete (demo_pid n) rels) st"
  by (auto simp: unlink_def delete_relation_def demo_links_def delete_absent)

lemma links_end [simp]: "end_start demo_wid (demo_links r rels st) = demo_links r rels (AList.delete demo_wid st)"
  by (simp add: end_start_def demo_links_def)

lemma links_relation [simp]:
  "length rels < 10000 \<Longrightarrow> rl_recording rel = demo_pid n \<Longrightarrow> rl_watch rel = demo_wid \<Longrightarrow> 1 \<le> rl_part rel \<Longrightarrow>
   save_relation (\<lambda>_. True) rel (wl_store (demo_links r rels st)) = (None, wl_store (demo_links r (AList.update (demo_pid n) rel rels) st))"
  by (simp add: save_relation_def put_relation_def demo_links_def max_relations_def)

lemma with_store [simp]: "(demo_links r rels st)\<lparr>wl_store := wl_store (demo_links r' rels' st')\<rparr> = demo_links r' rels' st"
  by (simp add: demo_links_def)

lemma with_starting [simp]: "(demo_links r rels st)\<lparr>wl_starting := st'\<rparr> = demo_links r rels st'"
  by (simp add: demo_links_def)

section \<open>A start\<close>

definition demo_sv ::
    "watch_links \<Rightarrow> (string, job) gomap \<Rightarrow> (watch_def \<times> watch_runtime \<times> manager_answer) option \<Rightarrow> (string, recording) gomap \<Rightarrow>
     (string \<times> string) list \<Rightarrow> string list \<Rightarrow> watch_service" where
  "demo_sv c js looked m lg ids = \<lparr>sv_links = c, sv_jobs = js, sv_queue = [], sv_running = True, sv_paused = False,
     sv_closed = False, sv_snapshot = [], sv_looked = looked, sv_recovering = [], sv_manager = m, sv_log = lg, sv_ids = ids\<rparr>"

lemma sv_simps [simp]:
  "sv_links (demo_sv c js l m lg ids) = c" "sv_jobs (demo_sv c js l m lg ids) = js" "sv_queue (demo_sv c js l m lg ids) = []"
  "sv_running (demo_sv c js l m lg ids)" "\<not> sv_paused (demo_sv c js l m lg ids)" "\<not> sv_closed (demo_sv c js l m lg ids)"
  "sv_looked (demo_sv c js l m lg ids) = l" "sv_recovering (demo_sv c js l m lg ids) = []" "sv_snapshot (demo_sv c js l m lg ids) = []"
  "sv_manager (demo_sv c js l m lg ids) = m" "sv_log (demo_sv c js l m lg ids) = lg" "sv_ids (demo_sv c js l m lg ids) = ids"
  "with_links c' (demo_sv c js l m lg ids) = demo_sv c' js l m lg ids"
  "set_job wid j (demo_sv c js l m lg ids) = demo_sv c (AList.update wid j js) l m lg ids"
  "finish_job wid (demo_sv c js l m lg ids) = demo_sv c (AList.delete wid js) l m lg ids"
  "(demo_sv c js l m lg ids)\<lparr>sv_looked := l'\<rparr> = demo_sv c js l' m lg ids"
  "(demo_sv c js l m lg ids)\<lparr>sv_manager := m'\<rparr> = demo_sv c js l m' lg ids"
  "(demo_sv c js l m lg ids)\<lparr>sv_log := lg'\<rparr> = demo_sv c js l m lg' ids"
  "(demo_sv c js l m lg ids)\<lparr>sv_ids := ids'\<rparr> = demo_sv c js l m lg ids'"
  by (simp_all add: demo_sv_def with_links_def set_job_def finish_job_def)

definition demo_recording :: recording where
  "demo_recording = \<lparr>rec_format_version = 1, rec_id = [], rec_title = [], rec_adapter_id = [], rec_adapter = None, rec_resource = None,
     rec_source_uri_classification = [], rec_source_url = [], rec_state = StateRecording, rec_created_at = 0, rec_started_at = 0,
     rec_stopped_at = None, rec_tracks = [], rec_gaps = [], rec_snapshots = [], rec_last_error = [], rec_metadata_timeline = [],
     rec_metadata_timeline_truncated = False\<rparr>"

text \<open>A world in which the stream is live, with its media, and a recording can be started; and one in which the
  adapter is missing.\<close>

definition live_world :: check_world where
  "live_world = \<lparr>cw_adapter = Some \<lparr>av_name = ''x'', av_state = ''ready'', av_capabilities = Some [''watch'']\<rparr>,
     cw_result = Live [] True, cw_cancelled = False, cw_resolved = True, cw_provenance = True,
     cw_started = Some demo_recording, cw_readable = (\<lambda>_. True)\<rparr>"

definition dead_world :: check_world where
  "dead_world = live_world\<lparr>cw_adapter := None\<rparr>"

definition enqueued :: "instant \<Rightarrow> service_event list" where
  "enqueued t = [Manual_check (demo_env t None True) demo_wid, Take False]"

definition check_steps :: "nat \<Rightarrow> instant \<Rightarrow> nat \<Rightarrow> service_event list" where
  "check_steps n t pid = replicate n (Advance (demo_env t (Some (demo_pid pid)) True) live_world demo_wid)"

abbreviation run_demo :: "watch_service \<Rightarrow> service_event list \<Rightarrow> watch_service" where
  "run_demo \<equiv> foldl (service_step demo_sha Some)"

lemma enqueued_run [simp]:
  "run_demo (demo_sv (demo_links r rels st) [] l m lg ids) (enqueued t)
     = demo_sv (demo_links r rels st) [(demo_wid, Taken)] l m lg ids"
  by (simp add: enqueued_def manual_check_def enqueue_def take_job_def queue_capacity_def demo_sv_def)

text \<open>The runtime through a check that starts a recording; a watch is ready when nothing holds its start back.\<close>

definition ready :: "watch_runtime \<Rightarrow> bool" where
  "ready r \<longleftrightarrow> wr_active r = [] \<and> wr_pending r = [] \<and> \<not> wr_suppressed r \<and> wr_outcome r \<notin> {''completed'', ''stopped''} \<and>
     wr_digest r = [] \<and> wr_suppressed_digest r = [] \<and> 0 \<le> wr_failures r \<and> wr_failures r \<le> 16"

definition asked_rt :: "instant \<Rightarrow> watch_runtime \<Rightarrow> watch_runtime" where
  "asked_rt t r = r\<lparr>wr_phase := Checking, wr_last_check := Some t\<rparr>"

definition seen_rt :: "instant \<Rightarrow> watch_runtime \<Rightarrow> watch_runtime" where
  "seen_rt t r = (asked_rt t r)\<lparr>wr_observed_live := True, wr_failures := 0, wr_error_code := []\<rparr>"

definition claimed_rt :: "instant \<Rightarrow> nat \<Rightarrow> watch_runtime \<Rightarrow> watch_runtime" where
  "claimed_rt t n r = claimed_runtime t (demo_pid n) (seen_rt t r)"

definition demo_rec :: "nat \<Rightarrow> recording" where
  "demo_rec n = demo_recording\<lparr>rec_id := demo_pid n\<rparr>"

definition demo_rel :: "instant \<Rightarrow> nat \<Rightarrow> watch_links \<Rightarrow> watch_relation" where
  "demo_rel t n c = start_relation demo_wid (demo_pid n) [] t (wl_store c)"

lemma demo_rec_simps [simp]:
  "rec_id (demo_rec n) = demo_pid n" "rec_state (demo_rec n) = StateRecording" "rec_started_at (demo_rec n) = 0"
  "demo_recording\<lparr>rec_id := demo_pid n, rec_state := StateRecording\<rparr> = demo_rec n"
  by (simp_all add: demo_rec_def demo_recording_def)

lemma demo_rel_simps [simp]:
  "rl_recording (demo_rel t n c) = demo_pid n" "rl_watch (demo_rel t n c) = demo_wid" "1 \<le> rl_part (demo_rel t n c)"
  by (simp_all add: demo_rel_def start_relation_def part_count_def)

lemma ready_valid:
  assumes "ready r"
  shows "valid_runtime (asked_rt t r)" "valid_runtime (claimed_rt t n r)" "valid_runtime ((active_runtime (demo_pid n) (claimed_rt t n r))\<lparr>wr_outcome := []\<rparr>)"
  using assms by (simp_all add: ready_def valid_runtime_def valid_digest_def asked_rt_def claimed_rt_def claimed_runtime_def
      seen_rt_def active_runtime_def)

lemma world_simps [simp]:
  "judge_check (cw_adapter live_world) (cw_result live_world) = Is_live [] True False"
  "\<not> cw_cancelled live_world" "cw_provenance live_world" "cw_started live_world = Some demo_recording" "cw_readable live_world rid"
  "judge_check (cw_adapter dead_world) (cw_result dead_world) = Failed_check ''adapter_unavailable'' False"
  by (simp_all add: live_world_def dead_world_def judge_check_def contains_capability_def)

abbreviation advance_demo :: "instant \<Rightarrow> nat \<Rightarrow> watch_service \<Rightarrow> watch_service" where
  "advance_demo t n sv \<equiv> service_step demo_sha Some sv (Advance (demo_env t (Some (demo_pid n)) True) live_world demo_wid)"

lemma start_1:
  "ready r \<Longrightarrow> advance_demo t n (demo_sv (demo_links r rels st) [(demo_wid, Taken)] l m lg ids)
     = demo_sv (demo_links (asked_rt t r) rels st) [(demo_wid, Asking t)] l m lg ids"
  using ready_valid(1) [of r t] by (simp add: advance_job_def begin_check_def ready_def asked_rt_def)

lemma start_2:
  "advance_demo t n (demo_sv (demo_links r rels st) [(demo_wid, Asking t')] l m lg ids)
     = demo_sv (demo_links r rels st) [(demo_wid, Deciding [] True False)] l m lg ids"
  by (simp add: advance_job_def session_digest_def)

lemma start_3:
  assumes "ready r"
  shows "advance_demo t n (demo_sv (demo_links (asked_rt t r) rels st) [(demo_wid, Deciding [] True False)] l m lg ids)
     = demo_sv (demo_links (asked_rt t r) rels st) [(demo_wid, Claiming (seen_rt t r) [] t)] l m lg ids"
proof -
  have seen: "observe_live [] (asked_rt t r) = seen_rt t r"
    by (simp add: observe_live_def seen_rt_def)
  have flags: "\<not> wr_suppressed (seen_rt t r)" "wr_active (seen_rt t r) = []" "wr_outcome (seen_rt t r) \<notin> {''completed'', ''stopped''}"
    using assms by (simp_all add: ready_def seen_rt_def asked_rt_def)
  have "live_decide (demo_env t (Some (demo_pid n)) True) [] True False demo_wid (demo_links (asked_rt t r) rels st)
      = (Claim (seen_rt t r), demo_links (asked_rt t r) rels st)"
    using flags by (simp add: live_decide_def decide_start_def note_live_def seen)
  then show ?thesis
    by (simp add: advance_job_def after_decision_def)
qed

lemma start_4:
  assumes "ready r"
  shows "advance_demo t n (demo_sv (demo_links (asked_rt t r) rels st) [(demo_wid, Claiming (seen_rt t r) [] t)] l m lg ids)
     = demo_sv (demo_links (claimed_rt t n r) rels (AList.update demo_wid (demo_pid n) st)) [(demo_wid, Claimed (demo_pid n) [] t)]
         l m lg (demo_pid n # ids)"
proof -
  have "wr_active (asked_rt t r) = []" "wr_pending (asked_rt t r) = []" "wr_phase (asked_rt t r) = Checking"
    using assms by (simp_all add: ready_def asked_rt_def)
  then show ?thesis
    using ready_valid(2) [OF assms, of t n]
    by (simp add: advance_job_def claim_step_def claim_starting_def claimed_rt_def [symmetric])
qed

lemma start_5:
  "advance_demo t n (demo_sv c [(demo_wid, Claimed (demo_pid n) [] t)] l m lg ids) = demo_sv c [(demo_wid, Gated (demo_pid n) [] t)] l m lg ids"
  by (simp add: advance_job_def)

lemma start_6:
  assumes "ready r" "length rels < 10000"
  shows "advance_demo t n (demo_sv (demo_links (claimed_rt t n r) rels st) [(demo_wid, Gated (demo_pid n) [] t)] l m lg ids)
     = demo_sv (demo_links (claimed_rt t n r) (AList.update (demo_pid n) (demo_rel t n (demo_links (claimed_rt t n r) rels st)) rels) st)
         [(demo_wid, Starting_recording (demo_pid n) t demo_def (claimed_rt t n r))] l m lg ids"
proof -
  have "wr_active (claimed_rt t n r) = []" "wr_pending (claimed_rt t n r) = demo_pid n"
    using assms(1) by (simp_all add: ready_def claimed_rt_def claimed_runtime_def seen_rt_def asked_rt_def)
  then show ?thesis
    using assms(2) by (simp add: advance_job_def admit_start_def demo_rel_def [symmetric])
qed

lemma start_7:
  "map_of m (demo_pid n) = None \<Longrightarrow>
   advance_demo t n (demo_sv c [(demo_wid, Starting_recording (demo_pid n) t demo_def r)] l m lg ids)
     = demo_sv c [(demo_wid, Committing (demo_pid n) (demo_rec n))] l (AList.update (demo_pid n) (demo_rec n) m) ((demo_wid, demo_pid n) # lg) ids"
  by (simp add: advance_job_def start_step_def Let_def)

lemma start_8:
  assumes "ready r"
  shows "advance_demo t n (demo_sv (demo_links (claimed_rt t n r) rels st) [(demo_wid, Committing (demo_pid n) (demo_rec n))] l m lg ids)
     = demo_sv (demo_links ((active_runtime (demo_pid n) (claimed_rt t n r))\<lparr>wr_outcome := []\<rparr>) rels (AList.delete demo_wid st)) [] l m lg ids"
  using ready_valid(3) [OF assms, of n t]
  by (simp add: advance_job_def commit_start_def claimed_rt_def claimed_runtime_def)

lemma check_steps_relation:
  assumes "ready r" "length rels < 10000" "map_of m (demo_pid n) = None"
  shows "\<exists>rel. rl_watch rel = demo_wid \<and>
    run_demo (demo_sv (demo_links r rels []) [(demo_wid, Taken)] l m lg ids) (check_steps 7 t n)
      = demo_sv (demo_links (claimed_rt t n r) (AList.update (demo_pid n) rel rels) [(demo_wid, demo_pid n)])
          [(demo_wid, Committing (demo_pid n) (demo_rec n))] l
          (AList.update (demo_pid n) (demo_rec n) m) ((demo_wid, demo_pid n) # lg) (demo_pid n # ids)"
  using assms demo_rel_simps(2)
  by (simp add: check_steps_def eval_nat_numeral start_1 start_2 start_3 start_4 start_5 start_6 start_7
      del: service_step.simps demo_rel_simps) blast

lemma check_steps_7:
  assumes "ready r" "length rels < 10000" "map_of m (demo_pid n) = None"
  shows "\<exists>rels'. length rels' \<le> Suc (length rels) \<and>
    run_demo (demo_sv (demo_links r rels []) [(demo_wid, Taken)] l m lg ids) (check_steps 7 t n)
      = demo_sv (demo_links (claimed_rt t n r) rels' [(demo_wid, demo_pid n)]) [(demo_wid, Committing (demo_pid n) (demo_rec n))] l
          (AList.update (demo_pid n) (demo_rec n) m) ((demo_wid, demo_pid n) # lg) (demo_pid n # ids)"
proof -
  have "length (AList.update k v rels) \<le> Suc (length rels)" for k and v :: watch_relation
    by (simp add: length_update)
  with check_steps_relation [OF assms, of l lg ids t] show ?thesis
    by blast
qed

definition recording_rt :: "instant \<Rightarrow> nat \<Rightarrow> watch_runtime \<Rightarrow> watch_runtime" where
  "recording_rt t n r = (active_runtime (demo_pid n) (claimed_rt t n r))\<lparr>wr_outcome := []\<rparr>"

definition start_events :: "instant \<Rightarrow> nat \<Rightarrow> service_event list" where
  "start_events t n = enqueued t @ check_steps 7 t n @ check_steps 1 t n"

lemma start_run:
  assumes "ready r" "length rels < 10000" "map_of m (demo_pid n) = None"
  shows "\<exists>rels'. length rels' \<le> Suc (length rels) \<and>
    run_demo (demo_sv (demo_links r rels []) [] l m lg ids) (start_events t n)
      = demo_sv (demo_links (recording_rt t n r) rels' []) [] l (AList.update (demo_pid n) (demo_rec n) m)
          ((demo_wid, demo_pid n) # lg) (demo_pid n # ids)"
proof -
  from check_steps_7 [OF assms, of l lg ids t] obtain rels' where seven: "length rels' \<le> Suc (length rels) \<and>
      run_demo (demo_sv (demo_links r rels []) [(demo_wid, Taken)] l m lg ids) (check_steps 7 t n)
        = demo_sv (demo_links (claimed_rt t n r) rels' [(demo_wid, demo_pid n)]) [(demo_wid, Committing (demo_pid n) (demo_rec n))] l
            (AList.update (demo_pid n) (demo_rec n) m) ((demo_wid, demo_pid n) # lg) (demo_pid n # ids)" ..
  then have "run_demo (demo_sv (demo_links r rels []) [] l m lg ids) (start_events t n)
      = demo_sv (demo_links (recording_rt t n r) rels' []) [] l (AList.update (demo_pid n) (demo_rec n) m)
          ((demo_wid, demo_pid n) # lg) (demo_pid n # ids)"
    by (simp add: start_events_def check_steps_def recording_rt_def start_8 [OF assms(1)] del: service_step.simps)
  with seven show ?thesis
    by blast
qed

lemma check_steps_orderly:
  assumes "ready r" "length rels < 10000" "map_of m (demo_pid n) = None" "demo_pid n \<notin> set ids"
  shows "orderly_run demo_sha Some (demo_sv (demo_links r rels []) [(demo_wid, Taken)] l m lg ids) (check_steps 7 t n @ check_steps 1 t n)"
  using assms
  by (simp add: orderly_run_def check_steps_def eval_nat_numeral fresh_id_def start_1 start_2 start_3 start_4 start_5 start_6 start_7
      del: service_step.simps)

text \<open>The first watch.\<close>

definition demo_adapters :: adapters where
  "demo_adapters = \<lparr>ad_get = (\<lambda>_. Some \<lparr>av_name = ''x'', av_state = ''ready'', av_capabilities = Some [''watch'']\<rparr>),
     ad_resource_ok = (\<lambda>_ _. True), ad_input_ok = (\<lambda>_ _ _ _. True)\<rparr>"

definition demo_request :: watch_request where
  "demo_request = \<lparr>rq_adapter = ''x'', rq_resource = None, rq_clear_resource = False, rq_input = ''{}'', rq_secrets = None,
     rq_clear_secrets = [], rq_title = None, rq_preview_mode = [], rq_interval = None, rq_enabled = None\<rparr>"

definition demo_begin :: "service_event list" where
  "demo_begin = [Run, Create_watch (demo_env 0 (Some demo_wid) True) demo_adapters demo_request]"

lemma stagger_zero: "startup_stagger demo_sha wid interval = 0"
  by (simp add: startup_stagger_def demo_sha_def Let_def)

lemma trim_x: "trim_space ''x'' = ''x''"
  by (rule trim_space_graphic) (simp_all add: graphic_def)

lemma create_demo:
  "create_watch (demo_env 0 (Some demo_wid) True) demo_sha Some demo_adapters demo_request \<lparr>wl_store = empty_store, wl_starting = []\<rparr>
     = (None, demo_links (checking_runtime 0) [] [])"
proof -
  have d: "new_definition 0 demo_wid ''x'' ''{}'' ''disabled'' demo_request = demo_def"
    by (simp add: new_definition_def demo_request_def demo_def_def requested_title_def default_interval_def)
  have ok: "store_create (\<lambda>_. Done) demo_def [] (checking_runtime 0) empty_store
      = (None, wl_store (demo_links (checking_runtime 0) [] []))"
    by (simp add: store_create_def empty_store_def max_watches_def def_ok_def demo_def_def max_input_bytes_def valid_secrets_def
        secret_size_def max_aggregate_secret_bytes_def demo_links_def configured_flags_def valid_runtime_def valid_digest_def
        checking_runtime_def empty_runtime_def Let_def)
  show ?thesis
    using d ok
    by (simp add: create_watch_def demo_request_def demo_adapters_def trim_x requested_title_def requested_mode_def valid_mode_def
        valid_title_def valid_interval_def default_interval_def min_interval_def max_interval_def max_input_bytes_def
        validate_adapter_for_watch_def contains_capability_def valid_secrets_def normalize_object_def stagger_zero Let_def)
qed

lemma begin_run: "run_demo empty_service demo_begin = demo_sv (demo_links (checking_runtime 0) [] []) [] None [] [] [demo_wid]"
proof -
  have "service_step demo_sha Some empty_service Run
      = demo_sv \<lparr>wl_store = empty_store, wl_starting = []\<rparr> [] None [] [] []"
    by (simp add: run_service_def empty_service_def demo_sv_def snapshots_def empty_store_def)
  then show ?thesis
    by (simp add: demo_begin_def create_step_def create_demo)
qed

lemma begin_orderly: "orderly_run demo_sha Some empty_service demo_begin"
  by (simp add: orderly_run_def demo_begin_def fresh_id_def run_service_def empty_service_def)

lemma first_ready: "ready (checking_runtime 0)"
  by (simp add: ready_def checking_runtime_def empty_runtime_def)

lemma started_run:
  "\<exists>rels. length rels \<le> 1 \<and> run_demo empty_service (demo_begin @ start_events 1 0)
     = demo_sv (demo_links (recording_rt 1 0 (checking_runtime 0)) rels []) [] None [(demo_pid 0, demo_rec 0)] [(demo_wid, demo_pid 0)]
         [demo_pid 0, demo_wid]"
  using start_run [OF first_ready, of "[]" "[]" 0 None "[]" "[demo_wid]" 1] by (simp add: begin_run)

lemma started_orderly: "orderly_run demo_sha Some empty_service (demo_begin @ start_events 1 0)"
proof -
  have "orderly_run demo_sha Some empty_service (demo_begin @ enqueued 1)"
    using begin_orderly by (simp add: orderly_run_def begin_run enqueued_def)
  then show ?thesis
    using check_steps_orderly [OF first_ready, of "[]" "[]" 0 "[demo_wid]" None "[]" 1]
    by (simp add: start_events_def orderly_run_def begin_run)
qed


section \<open>Two recordings of one watch\<close>

abbreviation advance_in :: "check_world \<Rightarrow> instant \<Rightarrow> bool \<Rightarrow> service_event" where
  "advance_in w t ok \<equiv> Advance (demo_env t None ok) w demo_wid"

text \<open>The recording ends; the reconciliation reads the link and is delayed until a check has noticed the end as well
  and is starting the next part.\<close>

definition stale_reconcile_events :: "service_event list" where
  "stale_reconcile_events =
     demo_begin @ start_events 1 0 @
     [Recording_ended (demo_pid 0) StateInterrupted, Links_snapshot, Links_next (demo_env 2 None True) (\<lambda>_. True)] @
     enqueued 3 @ replicate 3 (advance_in live_world 3 True) @
     enqueued 60 @ check_steps 7 60 1 @ [Links_save (demo_env 61 None True)] @ check_steps 1 60 1 @
     start_events 120 2"

text \<open>The recording is started but its link cannot be saved; before the next reconciliation a manual check fails.\<close>

definition failed_check_events :: "service_event list" where
  "failed_check_events =
     demo_begin @ enqueued 1 @ check_steps 7 1 0 @ [advance_in live_world 1 False] @
     enqueued 2 @ [advance_in live_world 2 True, advance_in dead_world 2 True, advance_in dead_world 2 True] @
     start_events 60 1"

definition two_recordings :: "watch_service \<Rightarrow> bool" where
  "two_recordings sv \<longleftrightarrow> list_ex (\<lambda>(w, rid). list_ex (\<lambda>(w', rid'). w = w' \<and> rid \<noteq> rid' \<and>
     has_key (ws_defs (wl_store (sv_links sv))) w \<and> recording_in sv rid \<and> recording_in sv rid') (sv_log sv)) (sv_log sv)"

lemma failed_check_run: "two_recordings (run_demo empty_service failed_check_events)"
proof -
  define r where "r = claimed_rt 1 0 (checking_runtime 0)"
  have ok: "valid_runtime (asked_rt 2 r)" "wr_active r = []" "wr_pending r = demo_pid 0"
    by (simp_all add: r_def valid_runtime_def valid_digest_def asked_rt_def claimed_rt_def claimed_runtime_def seen_rt_def
        checking_runtime_def empty_runtime_def)
  have "\<exists>rels'. length rels' \<le> Suc (length []) \<and>
    run_demo (demo_sv (demo_links (checking_runtime 0) [] []) [(demo_wid, Taken)] None [] [] [demo_wid]) (check_steps 7 1 0)
      = demo_sv (demo_links r rels' [(demo_wid, demo_pid 0)]) [(demo_wid, Committing (demo_pid 0) (demo_rec 0))] None
          [(demo_pid 0, demo_rec 0)] [(demo_wid, demo_pid 0)] [demo_pid 0, demo_wid]"
    unfolding r_def using check_steps_7 [OF first_ready, of "[]" "[]" 0 None "[]" "[demo_wid]" 1] by simp
  then obtain rels where rels: "length rels \<le> 1" and seven:
    "run_demo (demo_sv (demo_links (checking_runtime 0) [] []) [(demo_wid, Taken)] None [] [] [demo_wid]) (check_steps 7 1 0)
      = demo_sv (demo_links r rels [(demo_wid, demo_pid 0)]) [(demo_wid, Committing (demo_pid 0) (demo_rec 0))] None
          [(demo_pid 0, demo_rec 0)] [(demo_wid, demo_pid 0)] [demo_pid 0, demo_wid]"
    by auto
  obtain e where unsaved: "put_runtime (demo_env 1 None False) demo_wid ((active_runtime (demo_pid 0) r)\<lparr>wr_outcome := []\<rparr>)
      (demo_links r rels []) = (Some e, demo_links r rels [])"
    using links_put(3) by blast
  define r3 where "r3 = failed_runtime (demo_env 2 None True) ''adapter_unavailable'' False (asked_rt 2 r)"
  have r3: "ready r3" "valid_runtime r3"
    by (simp_all add: ready_def r3_def valid_runtime_def valid_digest_def failed_runtime_def asked_rt_def r_def claimed_rt_def
        claimed_runtime_def seen_rt_def checking_runtime_def empty_runtime_def)
  define rels3 where "rels3 = AList.delete (demo_pid 0) rels"
  have rels3: "length rels3 < 10000"
    using rels length_delete_le [of "demo_pid 0" rels] by (simp add: rels3_def)
  have middle: "run_demo (demo_sv (demo_links r rels [(demo_wid, demo_pid 0)]) [(demo_wid, Committing (demo_pid 0) (demo_rec 0))] None m lg ids)
      ([advance_in live_world 1 False] @ enqueued 2 @
       [advance_in live_world 2 True, advance_in dead_world 2 True, advance_in dead_world 2 True])
      = demo_sv (demo_links r3 rels3 []) [] None m lg ids" for m lg ids
  proof -
    have "service_step demo_sha Some (demo_sv (demo_links r rels [(demo_wid, demo_pid 0)])
        [(demo_wid, Committing (demo_pid 0) (demo_rec 0))] None m lg ids) (advance_in live_world 1 False)
      = demo_sv (demo_links r rels []) [] None m lg ids"
      using unsaved by (simp add: advance_job_def commit_start_def ok)
    moreover have "run_demo (demo_sv (demo_links r rels []) [(demo_wid, Taken)] None m lg ids)
        [advance_in live_world 2 True, advance_in dead_world 2 True, advance_in dead_world 2 True]
      = demo_sv (demo_links r3 rels3 []) [] None m lg ids"
      using ok r3(2) unfolding r3_def rels3_def
      by (simp add: advance_job_def begin_check_def check_failed_def drop_pending_def asked_rt_def)
    ultimately show ?thesis
      by (simp del: service_step.simps)
  qed
  from start_run [OF r3(1) rels3, of "[(demo_pid 0, demo_rec 0)]" 1 None "[(demo_wid, demo_pid 0)]" "[demo_pid 0, demo_wid]" 60]
  obtain rels4 where final: "run_demo (demo_sv (demo_links r3 rels3 []) [] None [(demo_pid 0, demo_rec 0)] [(demo_wid, demo_pid 0)]
        [demo_pid 0, demo_wid]) (start_events 60 1)
      = demo_sv (demo_links (recording_rt 60 1 r3) rels4 []) [] None [(demo_pid 0, demo_rec 0), (demo_pid 1, demo_rec 1)]
          [(demo_wid, demo_pid 1), (demo_wid, demo_pid 0)] [demo_pid 1, demo_pid 0, demo_wid]"
    by auto
  have "run_demo empty_service failed_check_events
      = demo_sv (demo_links (recording_rt 60 1 r3) rels4 []) [] None [(demo_pid 0, demo_rec 0), (demo_pid 1, demo_rec 1)]
          [(demo_wid, demo_pid 1), (demo_wid, demo_pid 0)] [demo_pid 1, demo_pid 0, demo_wid]"
    using middle by (simp add: failed_check_events_def begin_run seven final del: service_step.simps One_nat_def)
  then show ?thesis
    by (simp add: two_recordings_def recording_in_def live_in_def)
qed

text \<open>The stale write.\<close>

abbreviation ended_rec :: recording where
  "ended_rec \<equiv> (demo_rec 0)\<lparr>rec_state := StateInterrupted\<rparr>"

definition ended_rt :: "instant \<Rightarrow> watch_runtime \<Rightarrow> watch_runtime" where
  "ended_rt t r = terminal_runtime (demo_env t None True) t demo_def ended_rec r"

lemma ended_ready: "ready (ended_rt t (recording_rt t' n (checking_runtime 0)))"
  by (simp add: ready_def ended_rt_def terminal_runtime_def idle_runtime_def recording_rt_def claimed_rt_def claimed_runtime_def
      active_runtime_def seen_rt_def asked_rt_def checking_runtime_def empty_runtime_def Let_def)

lemma ended_valid: "valid_runtime (ended_rt t (recording_rt t' n (checking_runtime 0)))"
  using ended_ready [of t t' n]
  by (simp add: ready_def valid_runtime_def valid_digest_def)

lemma reconcile_ended:
  assumes "r = recording_rt t' n (checking_runtime 0)"
  shows "reconcile_one (demo_env t None True) t demo_wid demo_def r (Found ended_rec) (demo_links r0 rels st)
     = demo_links (ended_rt t r) rels st"
  using ended_valid [of t t' n] assms by (simp add: reconcile_one_def mark_terminal_def Let_def ended_rt_def)

lemma stale_reconcile_run: "two_recordings (run_demo empty_service stale_reconcile_events)"
proof -
  define r where "r = recording_rt 1 0 (checking_runtime 0)"
  have active: "wr_active r = demo_pid 0" "wr_pending r = []"
    by (simp_all add: r_def recording_rt_def)
  obtain rels where rels: "length rels \<le> 1" and first: "run_demo empty_service (demo_begin @ start_events 1 0)
      = demo_sv (demo_links r rels []) [] None [(demo_pid 0, demo_rec 0)] [(demo_wid, demo_pid 0)] [demo_pid 0, demo_wid]"
    using started_run unfolding r_def by blast
  define looked where "looked = (demo_def, r, Found ended_rec)"
  have look: "run_demo (demo_sv (demo_links r rels []) [] None [(demo_pid 0, demo_rec 0)] lg ids)
      [Recording_ended (demo_pid 0) StateInterrupted, Links_snapshot, Links_next (demo_env 2 None True) (\<lambda>_. True)]
    = demo_sv (demo_links r rels []) [] (Some looked) [(demo_pid 0, ended_rec)] lg ids" for lg ids
    using active by (simp add: recording_ended_def links_next_def ask_manager_def looked_def)
  have notice: "run_demo (demo_sv (demo_links r rels []) [(demo_wid, Taken)] (Some looked) [(demo_pid 0, ended_rec)] lg ids)
      (replicate 3 (advance_in live_world 3 True))
    = demo_sv (demo_links (ended_rt 3 r) rels []) [] (Some looked) [(demo_pid 0, ended_rec)] lg ids" for lg ids
    using active reconcile_ended [OF r_def]
    by (simp add: eval_nat_numeral advance_job_def begin_check_def ask_manager_def)
  have ready3: "ready (ended_rt 3 r)" "ready (ended_rt 61 r)"
    by (simp_all add: r_def ended_ready)
  have bound: "length rels < 10000"
    using rels by simp
  from check_steps_7 [OF ready3(1) bound, of "[(demo_pid 0, ended_rec)]" 1 "Some looked" "[(demo_wid, demo_pid 0)]" "[demo_pid 0, demo_wid]" 60]
  obtain rels2 where rels2: "length rels2 \<le> Suc (length rels)" and second:
    "run_demo (demo_sv (demo_links (ended_rt 3 r) rels []) [(demo_wid, Taken)] (Some looked) [(demo_pid 0, ended_rec)]
        [(demo_wid, demo_pid 0)] [demo_pid 0, demo_wid]) (check_steps 7 60 1)
      = demo_sv (demo_links (claimed_rt 60 1 (ended_rt 3 r)) rels2 [(demo_wid, demo_pid 1)]) [(demo_wid, Committing (demo_pid 1) (demo_rec 1))]
          (Some looked) [(demo_pid 0, ended_rec), (demo_pid 1, demo_rec 1)] [(demo_wid, demo_pid 1), (demo_wid, demo_pid 0)]
          [demo_pid 1, demo_pid 0, demo_wid]"
    by auto
  have idle: "wr_pending (ended_rt 61 r) \<noteq> demo_pid 1"
    using ready3(2) demo_ids(3) [of 1] unfolding ready_def by metis
  have overwrite: "run_demo (demo_sv (demo_links r' rels2 [(demo_wid, demo_pid 1)]) [(demo_wid, Committing (demo_pid 1) (demo_rec 1))]
      (Some looked) m lg ids) ([Links_save (demo_env 61 None True)] @ check_steps 1 60 1)
    = demo_sv (demo_links (ended_rt 61 r) rels2 []) [] None m lg ids" for r' m lg ids
    using idle reconcile_ended [OF r_def]
    by (simp add: links_save_def looked_def check_steps_def advance_job_def commit_start_def)
  have bound2: "length rels2 < 10000"
    using rels rels2 by simp
  from start_run [OF ready3(2) bound2, of "[(demo_pid 0, ended_rec), (demo_pid 1, demo_rec 1)]" 2 None
      "[(demo_wid, demo_pid 1), (demo_wid, demo_pid 0)]" "[demo_pid 1, demo_pid 0, demo_wid]" 120]
  obtain rels3 where third: "run_demo (demo_sv (demo_links (ended_rt 61 r) rels2 []) [] None
        [(demo_pid 0, ended_rec), (demo_pid 1, demo_rec 1)] [(demo_wid, demo_pid 1), (demo_wid, demo_pid 0)]
        [demo_pid 1, demo_pid 0, demo_wid]) (start_events 120 2)
      = demo_sv (demo_links (recording_rt 120 2 (ended_rt 61 r)) rels3 []) [] None
          [(demo_pid 0, ended_rec), (demo_pid 1, demo_rec 1), (demo_pid 2, demo_rec 2)]
          [(demo_wid, demo_pid 2), (demo_wid, demo_pid 1), (demo_wid, demo_pid 0)]
          [demo_pid 2, demo_pid 1, demo_pid 0, demo_wid]"
    by auto
  have "run_demo empty_service stale_reconcile_events
      = demo_sv (demo_links (recording_rt 120 2 (ended_rt 61 r)) rels3 []) [] None
          [(demo_pid 0, ended_rec), (demo_pid 1, demo_rec 1), (demo_pid 2, demo_rec 2)]
          [(demo_wid, demo_pid 2), (demo_wid, demo_pid 1), (demo_wid, demo_pid 0)]
          [demo_pid 2, demo_pid 1, demo_pid 0, demo_wid]"
    unfolding stale_reconcile_events_def
    by (simp only: foldl_append first [unfolded foldl_append] look notice enqueued_run second
        overwrite [unfolded foldl_append] third)
  then show ?thesis
    by (simp add: two_recordings_def recording_in_def live_in_def)
qed

text \<open>C5: A reconciliation may overwrite a start: reconcileOne saves a runtime computed from a copy that
  reconcileLinks or runCheck read earlier, without the lock and without reading it again.  In the concrete
  run \<open>stale_reconcile_events\<close> its write falls between the start of the next part and its commit; the pending
  start is lost, the commit finds nothing to attach, and the next check starts another recording of the
  same watch while the first one is still recording.\<close>
theorem stale_reconcile_starts_second_recording:
  "two_recordings (foldl (service_step demo_sha Some) empty_service stale_reconcile_events)"
  by (rule stale_reconcile_run)

text \<open>C6: A failed check may drop a start that is not its own: when the commit of a start could not save the
  runtime, the pending id is kept so that the next reconciliation attaches the recording; but a manual check that
  fails before that deletes the relation and the pending id, and the next live check starts a second recording
  of the watch, in the concrete run \<open>failed_check_events\<close>.\<close>
theorem failed_check_starts_second_recording:
  "two_recordings (foldl (service_step demo_sha Some) empty_service failed_check_events)"
  by (rule failed_check_run)

end
