(* ===== verification/Watch_Recovery.thy ===== *)
theory Watch_Recovery
  imports Watch_Runs
begin

text \<open>
  Time and recovery in the watch service: the bounds of the backoff, the runtimes that the service saves, and
  why no link is lost or kept forever: a recording that was started is found again after a restart, and a
  recording that has ended is released with the next check in sight.
\<close>

section \<open>Delays\<close>

lemma clamp_jitter_bounds:
  assumes "0 \<le> base"
  shows "second \<le> clamp_jitter jitter base" "second \<le> base \<Longrightarrow> 9 * base \<le> 10 * clamp_jitter jitter base"
    "second \<le> base \<Longrightarrow> 10 * clamp_jitter jitter base \<le> 11 * base"
  using assms by (auto simp: clamp_jitter_def Let_def)

lemma backoff_seconds_eq: "10 \<le> s \<Longrightarrow> s \<le> 300 \<Longrightarrow> backoff_seconds n s = min (s * 2 ^ n) 300"
proof (induction n arbitrary: s)
  case (Suc n)
  have grow: "x \<le> x * 2 ^ n" if "0 \<le> x" for x :: int
    using mult_left_mono [of 1 "2 ^ n" x] that by simp
  consider "s = 300" | "s < 300" "300 < s * 2" | "s < 300" "s * 2 \<le> 300"
    using Suc.prems by linarith
  then show ?case
  proof cases
    case 1
    have "300 \<le> 600 * (2 :: int) ^ n"
      using grow [of 600] by linarith
    with 1 show ?thesis
      by (simp add: mult.assoc min_absorb2)
  next
    case 2
    then have "300 \<le> s * 2 * 2 ^ n"
      using grow [of "s * 2"] by linarith
    moreover have "300 \<le> 300 * (2 :: int) ^ n"
      using grow [of 300] by linarith
    ultimately show ?thesis
      using 2 Suc.IH [of 300] by (simp add: mult.assoc min_absorb2)
  next
    case 3
    then show ?thesis
      using Suc.IH [of "s * 2"] Suc.prems by (simp add: mult.assoc)
  qed
qed simp

lemma backoff_delay_spec:
  defines "base \<equiv> \<lambda>failures. min (10 * 2 ^ nat (failures - 1)) 300 * second"
  shows "second \<le> backoff_delay jitter failures" "backoff_delay jitter failures \<le> 300 * second"
    "9 * base failures \<le> 10 * backoff_delay jitter failures" "10 * backoff_delay jitter failures \<le> 11 * base failures"
proof -
  have base: "backoff_seconds (nat (failures - 1)) 10 * second = base failures"
    by (simp add: backoff_seconds_eq base_def)
  have "10 * second \<le> base failures" "base failures \<le> 300 * second"
    unfolding base_def by (rule mult_right_mono; simp add: second_def)+
  moreover have "0 < second"
    by (simp add: second_def)
  ultimately show "second \<le> backoff_delay jitter failures" "backoff_delay jitter failures \<le> 300 * second"
    "9 * base failures \<le> 10 * backoff_delay jitter failures" "10 * backoff_delay jitter failures \<le> 11 * base failures"
    using clamp_jitter_bounds [of "base failures" jitter] by (simp_all add: backoff_delay_def base Let_def)
qed

text \<open>C39: The delay after the n-th failure in a row doubles from ten seconds up to five minutes, with at most a tenth of
  jitter whatever the jitter function returns, and is never below one second nor above five minutes.\<close>
theorem backoff_is_exponential_and_bounded:
  "let base = min (10 * 2 ^ nat (failures - 1)) 300 * second; delay = backoff_delay jitter failures
   in second \<le> delay \<and> delay \<le> 300 * second \<and> 9 * base \<le> 10 * delay \<and> 10 * delay \<le> 11 * base"
  using backoff_delay_spec [where jitter = jitter and failures = failures] by (simp add: Let_def)

lemma backoff_delay_range: "0 \<le> backoff_delay jitter n" "backoff_delay jitter n \<le> 300 * second"
  using backoff_delay_spec(1,2) [where jitter = jitter and failures = n] by (auto simp: second_def)

section \<open>Saved runtimes\<close>

text \<open>A watch with a recording, active or about to be attached, has no failures counted against it, so the
  increment in markTerminal, which has no limit of its own, never makes a runtime that SaveRuntime refuses.\<close>

definition calm :: "watch_runtime \<Rightarrow> bool" where
  "calm r \<longleftrightarrow> (wr_active r = [] \<and> wr_pending r = []) \<or> wr_failures r = 0"

definition fine :: "watch_links \<Rightarrow> bool" where
  "fine c \<longleftrightarrow> (\<forall>w. valid_runtime (rt c w) \<and> calm (rt c w)) \<and> (\<forall>w. has_def c w \<longrightarrow> hex32 w)"

fun job_calm :: "job \<Rightarrow> bool" where
  "job_calm (Resolving r _ _) \<longleftrightarrow> wr_failures r = 0"
| "job_calm (Claiming r _ _) \<longleftrightarrow> wr_failures r = 0"
| "job_calm (Linking d r) \<longleftrightarrow> wr_active r \<noteq> []"
| "job_calm (Linked d r _) \<longleftrightarrow> wr_active r \<noteq> []"
| "job_calm _ \<longleftrightarrow> True"

lemma fine_rt: "fine c \<Longrightarrow> valid_runtime (rt c w)" "fine c \<Longrightarrow> calm (rt c w)" "fine c \<Longrightarrow> has_def c w \<Longrightarrow> hex32 w"
  by (simp_all add: fine_def)

lemma fine_put: "fine c \<Longrightarrow> calm r \<Longrightarrow> fine (snd (put_runtime env wid r c))"
  by (simp add: put_runtime_eq fine_def saves_def)

lemma fine_try: "fine c \<Longrightarrow> calm r \<Longrightarrow> fine (try_runtime env wid r c)"
  by (simp add: try_runtime_def fine_put)

lemma fine_quiet [simp]:
  "fine (unlink env rid c) = fine c" "fine (note_event env wid kind rid code c) = fine c" "fine (end_start wid c) = fine c"
  "fine (c\<lparr>wl_starting := st\<rparr>) = fine c" "fine (note_live env wid digest r c) = fine c"
  by (simp_all add: fine_def has_def_def [where c = "c\<lparr>wl_starting := st\<rparr>"] has_def_def [where c = c] del: not_None_eq)

text \<open>\<open>case put_runtime \<dots> of (Some e, c') \<dots> | (None, c') \<dots>\<close> with a continuation that keeps the runtimes.\<close>

lemma fine_put_case:
  assumes "fine c" "calm r" "\<And>c'. fine c' \<Longrightarrow> fine (snd (f c'))"
  shows "fine (snd (case put_runtime env wid r c of (Some e, c1) \<Rightarrow> (g e, c1) | (None, c1) \<Rightarrow> f c1))"
  using fine_put [OF assms(1,2), of env wid] assms by (auto simp: put_runtime_eq split: if_splits)

lemma begin_check_fine: "fine c \<Longrightarrow> fine (snd (begin_check env wid c))"
proof (cases "store_get (en_readable env) wid (wl_store c)")
  case (Inr p)
  assume c: "fine c"
  obtain d sec where get: "store_get (en_readable env) wid (wl_store c) = Inr (d, rt c wid, sec)"
    using Inr store_get_runtime by (cases p) blast
  have "calm ((rt c wid)\<lparr>wr_phase := Checking, wr_last_check := Some (en_now env)\<rparr>)"
    using fine_rt(2) [OF c, of wid] by (simp add: calm_def)
  then show ?thesis
    using c by (simp add: begin_check_def get fine_put_case)
qed (simp add: begin_check_def)

lemma drop_pending_fine [simp]: "fine (drop_pending env wid r c) = fine c"
  by (simp add: drop_pending_def)

lemma check_failed_fine:
  assumes "fine c" "wr_active (rt c wid) = []"
  shows "fine (snd (check_failed env wid code attention c))"
proof (cases "store_get (en_readable env) wid (wl_store c)")
  case (Inr p)
  obtain d sec where get: "store_get (en_readable env) wid (wl_store c) = Inr (d, rt c wid, sec)"
    using Inr store_get_runtime by (cases p) blast
  have "calm (failed_runtime env code attention (rt c wid))"
    "calm ((rt c wid)\<lparr>wr_phase := Disabled, wr_next_check := None, wr_starting_at := None, wr_pending := []\<rparr>)"
    using assms(2) by (simp_all add: calm_def failed_runtime_def Let_def)
  then show ?thesis
    using assms(1) by (simp add: check_failed_def get fine_put fine_put_case Let_def)
qed (simp add: check_failed_def assms)

lemma check_offline_fine: "fine c \<Longrightarrow> fine (snd (check_offline env wid t c))"
proof (cases "store_get (en_readable env) wid (wl_store c)")
  case (Inr p)
  assume c: "fine c"
  obtain d sec where get: "store_get (en_readable env) wid (wl_store c) = Inr (d, rt c wid, sec)"
    using Inr store_get_runtime by (cases p) blast
  have "calm (offline_runtime env t d (rt c wid))"
    by (simp add: calm_def offline_runtime_def)
  then show ?thesis
    using c by (simp add: check_offline_def get fine_put_case)
qed (simp add: check_offline_def)

lemma seen_calm:
  "wr_failures (observe_live digest r) = 0" "wr_failures (lift_suppression r) = wr_failures r"
  "wr_failures (suppressed_runtime env d r) = wr_failures r"
  by (simp_all add: observe_live_def lift_suppression_def suppressed_runtime_def Let_def)

lemma decide_start_fine:
  assumes "fine c" "wr_failures r = 0"
  shows "fine (snd (decide_start env media can_resolve wid same d r c))"
    "decide_start env media can_resolve wid same d r c = (Resolve r', c') \<Longrightarrow> wr_failures r' = 0"
    "decide_start env media can_resolve wid same d r c = (Claim r', c') \<Longrightarrow> wr_failures r' = 0"
  using assms by (auto simp: decide_start_def Let_def calm_def seen_calm intro!: fine_put fine_try split: if_splits)

lemma live_decide_fine:
  assumes "fine c"
  shows "fine (snd (live_decide env digest media can_resolve wid c)) \<and>
    (\<forall>r c'. live_decide env digest media can_resolve wid c = (Resolve r, c') \<or>
            live_decide env digest media can_resolve wid c = (Claim r, c') \<longrightarrow> wr_failures r = 0)"
proof (cases "store_get (en_readable env) wid (wl_store c)")
  case (Inr p)
  obtain d r0 sec where p: "p = (d, r0, sec)"
    by (cases p)
  define r1 where "r1 = observe_live digest r0"
  define r2 where "r2 = (if wr_suppressed r1 then lift_suppression r1 else r1)"
  define c1 where "c1 = note_live env wid digest r0 c"
  define silent where "silent = (wr_suppressed r1 \<and> (wr_suppressed_digest r1 = [] \<or> digest = [] \<or> wr_suppressed_digest r1 = digest))"
  have calm: "wr_failures r2 = 0" "calm (suppressed_runtime env d r1)"
    by (simp_all add: r2_def r1_def calm_def seen_calm)
  have c1: "fine c1"
    using assms by (simp add: c1_def)
  have eq: "live_decide env digest media can_resolve wid c =
      (if \<not> wd_enabled d then (Finished None, c)
       else if silent then finish_with (put_runtime env wid (suppressed_runtime env d r1) c1)
       else decide_start env media can_resolve wid (same_session digest r0) d r2 c1)"
    by (simp only: live_decide_def Inr p Let_def r1_def r2_def c1_def silent_def sum.case prod.case)
  show ?thesis
  proof (cases "\<not> wd_enabled d \<or> silent")
    case True
    then show ?thesis
      using assms fine_put [OF c1 calm(2), of env wid] unfolding eq by auto
  next
    case False
    then have "live_decide env digest media can_resolve wid c = decide_start env media can_resolve wid (same_session digest r0) d r2 c1"
      unfolding eq by simp
    then show ?thesis
      using decide_start_fine [OF c1 calm(1)] by metis
  qed
qed (use assms in \<open>simp add: live_decide_def\<close>)

lemma claim_fine:
  assumes "fine c" "wr_failures r = 0" "claim_starting env wid r t c = (res, c')"
  shows "fine c'"
  using assms(3)
proof (cases rule: claim_starting_cases)
  case (claimed pid)
  have "calm (claimed_runtime t pid r)"
    using assms(2) by (simp add: calm_def claimed_runtime_def)
  moreover have "fine (snd (put_runtime env wid (claimed_runtime t pid r) c))"
    using assms(1) calculation(1) by (rule fine_put)
  moreover have "saves env wid (claimed_runtime t pid r) c"
    using assms(3) claimed by (auto simp: claim_starting_def put_runtime_eq split: sum.splits prod.splits if_splits)
  ultimately show ?thesis
    using claimed(6) by (simp add: put_runtime_eq)
qed (use assms in simp)

lemma failures_kept [simp]:
  "wr_failures (idle_runtime d t r) = wr_failures r" "wr_failures (unclaimed_runtime env t d r) = wr_failures r"
  "wr_failures (attention_runtime r) = wr_failures r" "wr_failures (active_runtime rid r) = wr_failures r"
  by (simp_all add: idle_runtime_def unclaimed_runtime_def attention_runtime_def active_runtime_def)

lemma calm_dropped: "calm r \<Longrightarrow> calm (r\<lparr>wr_pending := []\<rparr>)" "calm r \<Longrightarrow> calm (r\<lparr>wr_active := []\<rparr>)"
  "calm r \<Longrightarrow> calm (r\<lparr>wr_pending := [], wr_starting_at := None\<rparr>)" "calm r \<Longrightarrow> calm (idle_runtime d t r)"
  "calm r \<Longrightarrow> calm (unclaimed_runtime env t d r)" "calm r \<Longrightarrow> calm (attention_runtime r)"
  by (auto simp: calm_def)

lemma clear_pending_start_fine: "fine c \<Longrightarrow> fine (clear_pending_start env wid pid c)"
proof (cases "store_get (en_readable env) wid (wl_store (unlink env pid c))")
  case (Inr p)
  assume c: "fine c"
  obtain d r sec where p: "p = (d, r, sec)"
    by (cases p)
  have "r = rt c wid"
    using store_get_runtime [OF Inr [unfolded p]] by simp
  then have "calm (unclaimed_runtime env (en_now env) d r)"
    using fine_rt(2) [OF c] by (simp add: calm_dropped)
  then show ?thesis
    using c by (simp add: clear_pending_start_def Inr p Let_def fine_try)
qed (simp add: clear_pending_start_def Let_def)

lemma fine_cong:
  assumes "\<And>w. rt c' w = rt c w" "\<And>w. has_def c' w = has_def c w"
  shows "fine c' = fine c"
  using assms by (simp add: fine_def)

lemma abandon_fine: "fine c \<Longrightarrow> calm r \<Longrightarrow> fine (abandon_start env t wid pid d r c)"
  by (simp add: abandon_start_def fine_try calm_dropped)

lemma admit_start_fine: "fine c \<Longrightarrow> fine (snd (admit_start env wid pid digest t c))"
proof (cases "store_get (en_readable env) wid (wl_store c)")
  case (Inr p)
  assume c: "fine c"
  obtain d sec where get: "store_get (en_readable env) wid (wl_store c) = Inr (d, rt c wid, sec)"
    using Inr store_get_runtime by (cases p) blast
  obtain e s where save: "save_relation (en_relation_io env) (start_relation wid pid digest t (wl_store c)) (wl_store c) = (e, s)"
    by fastforce
  have s: "fine (c\<lparr>wl_store := s\<rparr>)"
    using c save_relation_links [OF save] by (subst fine_cong) simp_all
  have calm: "calm (rt c wid)"
    using c by (rule fine_rt)
  show ?thesis
    using c calm s
    by (cases e) (auto simp: admit_start_def get save abandon_fine intro!: fine_try calm_dropped)
qed (simp add: admit_start_def)

lemma commit_start_fine:
  assumes "fine c" "owned_start c wid pid"
  shows "fine (commit_start env wid pid rec c)"
proof (cases "store_get (en_readable env) wid (wl_store c)")
  case (Inr p)
  obtain d sec where get: "store_get (en_readable env) wid (wl_store c) = Inr (d, rt c wid, sec)"
    using Inr store_get_runtime by (cases p) blast
  have "calm ((active_runtime (rec_id rec) (rt c wid))\<lparr>wr_outcome := []\<rparr>)"
    using fine_rt(2) [OF assms(1), of wid] assms(2) by (simp add: calm_def owned_start_def)
  then have "fine (snd (put_runtime env wid ((active_runtime (rec_id rec) (rt c wid))\<lparr>wr_outcome := []\<rparr>) (end_start wid c)))"
    using assms(1) by (simp add: fine_put)
  then show ?thesis
    using assms(1) by (auto simp: commit_start_def get Let_def put_runtime_eq split: if_splits)
qed (use assms in \<open>simp add: commit_start_def Let_def\<close>)

lemma terminal_calm: "wr_pending r = [] \<Longrightarrow> calm (terminal_runtime env t d rec r)"
  by (simp add: calm_def)

lemma mark_terminal_fine: "fine c \<Longrightarrow> wr_pending r = [] \<Longrightarrow> fine (snd (mark_terminal env t wid d rec r c))"
  by (simp add: mark_terminal_def Let_def fine_try terminal_calm)

lemma reconcile_one_fine:
  assumes "fine c" "rt c wid = r" "wr_pending r = []"
  shows "fine (reconcile_one env t wid d r answer c)"
proof -
  have "calm r"
    using assms(1,2) fine_rt(2) by blast
  moreover have "calm (r\<lparr>wr_phase := Recording_now, wr_next_check := None\<rparr>)"
    using calculation by (simp add: calm_def)
  ultimately show ?thesis
    using assms by (simp add: reconcile_one_def fine_try calm_dropped mark_terminal_fine split: manager_answer.splits)
qed

lemma pending_relation_fine:
  "pending_relation env wid r rec (wl_store c) = (rel, s) \<Longrightarrow> fine (c\<lparr>wl_store := s\<rparr>) = fine c"
  using pending_relation_links by (intro fine_cong) auto

lemma reconcile_pending_fine: "fine c \<Longrightarrow> fine (reconcile_pending env wid manager c)"
proof (cases "store_get (en_readable env) wid (wl_store c)")
  case (Inr p)
  assume c: "fine c"
  obtain d sec where get: "store_get (en_readable env) wid (wl_store c) = Inr (d, rt c wid, sec)"
    using Inr store_get_runtime by (cases p) blast
  have calm: "calm (rt c wid)"
    using c by (rule fine_rt)
  show ?thesis
  proof (cases "wr_pending (rt c wid) = [] \<or> starting c wid = Some (wr_pending (rt c wid))")
    case False
    show ?thesis
    proof (cases "manager (wr_pending (rt c wid))")
      case (Found rec)
      obtain rel s where rel: "pending_relation env wid (rt c wid) rec (wl_store c) = (rel, s)"
        by fastforce
      have "calm (active_runtime (wr_pending (rt c wid)) (rt c wid))"
        using calm False by (simp add: calm_def)
      then show ?thesis
        using False c calm pending_relation_fine [OF rel]
        by (simp add: reconcile_pending_def get Found rel Let_def fine_try calm_dropped mark_terminal_fine)
    qed (use False c calm in \<open>simp_all add: reconcile_pending_def get fine_try calm_dropped\<close>)
  qed (use c in \<open>auto simp: reconcile_pending_def get\<close>)
qed (simp add: reconcile_pending_def)

lemma notify_stopped_fine: "fine c \<Longrightarrow> fine (notify_stopped env wid rid c)"
proof -
  assume c: "fine c"
  have "calm (stopped_runtime env d r)" for d r
    by (simp add: calm_def stopped_runtime_def)
  then show ?thesis
    using c by (auto simp: notify_stopped_def fine_try split: sum.splits)
qed

lemma recover_active_fine:
  assumes "recover_active env t wid d manager (r, c) = (stop, r', c')" "fine c" "calm r" "exclusive r"
  shows "fine c' \<and> calm r'"
proof -
  have "calm (r\<lparr>wr_phase := Recording_now, wr_next_check := None\<rparr>)"
    using assms(3) by (simp add: calm_def)
  then show ?thesis
    using assms mark_terminal_fine [of c r env t wid d] terminal_calm [of r env t d]
    by (auto simp: recover_active_def mark_terminal_def Let_def exclusive_def fine_try calm_dropped
        split: manager_answer.splits if_splits)
qed

lemma recover_pending_fine:
  assumes "recover_pending env t wid d manager (r, c) = (stop, r', c')" "fine c" "calm r"
  shows "fine c' \<and> calm r'"
proof (cases "wr_pending r \<noteq> [] \<and> (\<exists>rec. manager (wr_pending r) = Found rec)")
  case True
  then obtain rec where rec: "wr_pending r \<noteq> []" "manager (wr_pending r) = Found rec"
    by blast
  obtain rel s where rel: "pending_relation env wid r rec (wl_store c) = (rel, s)"
    by fastforce
  have c1: "fine (c\<lparr>wl_store := s\<rparr>)"
    using assms(2) pending_relation_fine [OF rel] by simp
  have active: "calm (active_runtime (wr_pending r) r)"
    using assms(3) rec(1) by (simp add: calm_def)
  have eq: "recover_pending env t wid d manager (r, c) =
      (if case rel of None \<Rightarrow> False | Some x \<Rightarrow> rl_watch x \<noteq> wid
       then (True, attention_runtime r, try_runtime env wid (attention_runtime r) (c\<lparr>wl_store := s\<rparr>))
       else if rec_state rec = StateRecording then (False, active_runtime (wr_pending r) r, c\<lparr>wl_store := s\<rparr>)
       else (False, mark_terminal env t wid d rec (r\<lparr>wr_active := wr_pending r, wr_pending := []\<rparr>) (c\<lparr>wl_store := s\<rparr>)))"
    using rec by (simp add: recover_pending_def rel Let_def)
  show ?thesis
    using assms(1,3) active c1 unfolding eq
    by (auto simp: mark_terminal_def Let_def fine_try calm_dropped terminal_calm split: if_splits)
next
  case False
  have "calm (r\<lparr>wr_phase := p, wr_error_code := x, wr_starting_at := None, wr_next_check := None\<rparr>)" for p x
    using assms(3) by (simp add: calm_def)
  then show ?thesis
    using assms False
    by (auto simp: recover_pending_def fine_try calm_dropped split: manager_answer.splits if_splits)
qed

lemma recover_one_fine:
  assumes "fine c" "rt c wid = r" "exclusive r"
  shows "fine (recover_one envs sha256 t wid d r manager c)"
proof -
  obtain stop r1 c1 where first: "recover_active (envs 0) t wid d manager (r, c) = (stop, r1, c1)"
    by (metis prod_cases3)
  obtain stop2 r2 c2 where pend: "recover_pending (envs 1) t wid d manager (r1, c1) = (stop2, r2, c2)"
    by (metis prod_cases3)
  have one: "fine c1 \<and> calm r1"
    using recover_active_fine [OF first assms(1) _ assms(3)] assms(1,2) fine_rt(2) by blast
  then have two: "fine c2 \<and> calm r2"
    using recover_pending_fine [OF pend] by blast
  then have "calm (rescheduled_runtime sha256 t wid d r2)"
    by (auto simp: calm_def rescheduled_runtime_def)
  then show ?thesis
    using one two pend by (cases stop; cases stop2) (simp_all add: recover_one_def first fine_try)
qed

lemma start_refused_fine: "fine c \<Longrightarrow> wr_active r = [] \<Longrightarrow> fine (start_refused env wid pid t d r c)"
  by (simp add: start_refused_def abandon_start_def fine_try calm_def)

section \<open>Requests\<close>

lemma fine_update:
  assumes "store_update readable io d sec replace (wl_store c) = (e, s)"
  shows "fine (c\<lparr>wl_store := s\<rparr>) = fine c"
  using store_update_links [OF assms] by (intro fine_cong) simp_all

lemma requested_calm: "calm r \<Longrightarrow> calm (enabled_runtime sha256 now wid enabled d r)"
  "calm r \<Longrightarrow> calm (updated_runtime sha256 now wid changed d r)"
  by (auto simp: calm_def enabled_runtime_def updated_runtime_def Let_def)

lemma set_enabled_fine: "fine c \<Longrightarrow> fine (snd (set_enabled env sha256 wid enabled c))"
proof (cases "store_get (en_readable env) wid (wl_store c)")
  case (Inr p)
  assume c: "fine c"
  obtain d sec where get: "store_get (en_readable env) wid (wl_store c) = Inr (d, rt c wid, sec)"
    using Inr store_get_runtime by (cases p) blast
  obtain e s where up: "store_update (en_readable env) (en_store_io env)
      (d\<lparr>wd_enabled := enabled, wd_updated_at := en_now env\<rparr>) [] False (wl_store c) = (e, s)"
    by fastforce
  show ?thesis
    using c fine_update [OF up] requested_calm(1) [OF fine_rt(2) [OF c]]
    by (cases e) (simp_all add: set_enabled_def get up fine_put_case)
qed (simp add: set_enabled_def)

lemma fine_guards:
  "fine c \<Longrightarrow> fine (snd x) \<Longrightarrow> fine (snd (if refused then (e, c) else x))"
  "fine c \<Longrightarrow> fine (snd x) \<Longrightarrow> fine (snd (case err of None \<Rightarrow> x | Some e' \<Rightarrow> (Some e', c)))"
  "fine c \<Longrightarrow> (\<And>v. fine (snd (f v))) \<Longrightarrow> fine (snd (case res of None \<Rightarrow> (e, c) | Some v \<Rightarrow> f v))"
  by (simp_all split: option.splits)

lemma update_watch_fine: "fine c \<Longrightarrow> fine (snd (update_watch env sha256 canonical ad wid rq c))"
proof (cases "store_get (en_readable env) wid (wl_store c)")
  case (Inr p)
  assume c: "fine c"
  obtain d old where get: "store_get (en_readable env) wid (wl_store c) = Inr (d, rt c wid, old)"
    using Inr store_get_runtime by (cases p) blast
  have save: "fine (snd (case store_update (en_readable env) (en_store_io env) d1 sec replace (wl_store c) of
      (Some e, s) \<Rightarrow> (Some e, c\<lparr>wl_store := s\<rparr>)
    | (None, s) \<Rightarrow> (case put_runtime env wid (updated_runtime sha256 (en_now env) wid changed d1 (rt c wid)) (c\<lparr>wl_store := s\<rparr>) of
          (Some e, c1) \<Rightarrow> (Some e, c1)
        | (None, c1) \<Rightarrow> (None, note_event env wid ''watch_updated'' [] [] c1))))" for d1 sec replace changed
  proof -
    obtain e s where up: "store_update (en_readable env) (en_store_io env) d1 sec replace (wl_store c) = (e, s)"
      by fastforce
    show ?thesis
      using c fine_update [OF up] requested_calm(2) [OF fine_rt(2) [OF c]]
      by (cases e) (simp_all add: up fine_put_case)
  qed
  obtain replace sec where up: "updated_secrets rq old = (replace, sec)"
    by fastforce
  show ?thesis
    unfolding update_watch_def get sum.case prod.case Let_def up by (intro fine_guards save c)
qed (simp add: update_watch_def)

lemma empty_fine: "valid_runtime empty_runtime" "calm empty_runtime"
  by (simp_all add: valid_runtime_def empty_runtime_def calm_def valid_digest_def)

lemma delete_watch_fine:
  assumes "fine c"
  shows "fine (snd (delete_watch env wid c))"
proof -
  define c' where "c' = snd (delete_watch env wid c)"
  have "valid_runtime (rt c' w) \<and> calm (rt c' w) \<and> (has_def c' w \<longrightarrow> hex32 w)" for w
    using delete_watch_spec(2,3) [of w wid env c] delete_watch_spec(4) [of env wid c] fine_rt [OF assms, of w] empty_fine
    by (cases "w = wid") (auto simp: c'_def)
  then show ?thesis
    by (simp add: fine_def c'_def)
qed

lemma create_watch_fine:
  assumes "fine c"
  shows "fine (snd (create_watch env sha256 canonical ad rq c))"
proof (cases "en_fresh env")
  case None
  then show ?thesis
    using assms by (auto simp: create_watch_def Let_def split: option.splits)
next
  case (Some wid)
  have first: "valid_runtime (checking_runtime nxt)" "calm (checking_runtime nxt)" for nxt
    by (simp_all add: checking_runtime_def valid_runtime_def empty_runtime_def calm_def valid_digest_def)
  have save: "fine (snd (case store_create (en_store_io env) d sec (checking_runtime nxt) (wl_store c) of
          (Some e, s) \<Rightarrow> (Some e, c\<lparr>wl_store := s\<rparr>)
        | (None, s) \<Rightarrow> (None, note_event env wid ''watch_created'' [] [] (c\<lparr>wl_store := s\<rparr>))))" for d sec nxt
  proof -
    obtain e s where cr: "store_create (en_store_io env) d sec (checking_runtime nxt) (wl_store c) = (e, s)"
      by fastforce
    have id: "e = None \<Longrightarrow> hex32 (wd_id d)"
      using cr by (auto simp: store_create_def Let_def split: if_splits)
    have "valid_runtime (runtime_of s w) \<and> calm (runtime_of s w) \<and> (has_def (c\<lparr>wl_store := s\<rparr>) w \<longrightarrow> hex32 w)" for w
      using store_create_links [OF cr, of w] fine_rt [OF assms, of w] first id by auto
    then have "fine (c\<lparr>wl_store := s\<rparr>)"
      by (simp add: fine_def)
    then show ?thesis
      by (cases e) (simp_all add: cr)
  qed
  show ?thesis
    unfolding create_watch_def Some Let_def option.case using save assms by (auto split: option.splits)
qed

end
