(* ===== verification/Watch_Relations.thy ===== *)
theory Watch_Relations
  imports Watch_Runs
begin

text \<open>
  The relations of recordings to watches in whole runs: every id that a check has claimed belongs to one watch for
  good, and a stored relation names that watch.  So recovery never meets a recording that an orderly run started for one
  watch under the name of another.
\<close>

section \<open>What a handler does to the relations\<close>

abbreviation relations :: "watch_links \<Rightarrow> (string \<times> watch_relation) set" where
  "relations c \<equiv> set (ws_relations (wl_store c))"

lemma set_update_subset: "set (AList.update k v m) \<subseteq> insert (k, v) (set m)"
  by (induction m) auto

lemma set_delete_subset: "set (AList.delete k m) \<subseteq> set m"
  by (auto simp: AList.delete_eq)

lemma quiet_relations [simp]:
  "relations (saved wid r c) = relations c" "relations (end_start wid c) = relations c"
  "relations (note_event env wid kind rid code c) = relations c" "relations (c\<lparr>wl_starting := x\<rparr>) = relations c"
  by (auto simp: saved_def end_start_def note_event_def add_event_def split: option.splits)

lemma put_runtime_relations [simp]:
  "relations (snd (put_runtime env wid r c)) = relations c" "relations (try_runtime env wid r c) = relations c"
  by (simp_all add: put_runtime_eq try_runtime_eq)

lemma unlink_relations: "relations (unlink env rid c) \<subseteq> relations c"
  using set_delete_subset [of rid "ws_relations (wl_store c)"] by (simp add: unlink_def delete_relation_def)

lemma store_update_relations [simp]: "ws_relations (snd (store_update readable io d sec replace s)) = ws_relations s"
  by (auto simp: store_update_def Let_def)

lemma store_create_relations [simp]: "ws_relations (snd (store_create io d sec r s)) = ws_relations s"
  by (auto simp: store_create_def create_cleanup_def Let_def)

lemma older_member: "older best m = Some x \<Longrightarrow> best = Some x \<or> x \<in> set m"
  by (induction m arbitrary: best) (fastforce split: option.splits if_splits)+

lemma save_relation_relations:
  "set (ws_relations (snd (save_relation io rel s))) \<subseteq> insert (rl_recording rel, rel) (set (ws_relations s))"
proof -
  have evicted: "p \<in> set (ws_relations s)" if "oldest_relation (ws_relations s) = Some p" for p
    using that older_member by (fastforce simp: oldest_relation_def)
  have truncated: "ws_relations s1 = ws_relations s" if "mark_history_truncated ok wid s = (e, s1)" for ok wid e s1
    using that by (auto simp: mark_history_truncated_def split: option.splits if_splits)
  have put: "set (ws_relations (snd (put_relation ok restored rel s1))) \<subseteq> insert (rl_recording rel, rel) (set (ws_relations s))"
    if "set restored \<subseteq> set (ws_relations s)" "set (ws_relations s1) \<subseteq> set (ws_relations s)" for ok restored s1
    using that set_update_subset [of "rl_recording rel" rel "ws_relations s1"] by (auto simp: put_relation_def)
  show ?thesis
  proof (cases "if \<not> has_key (ws_relations s) (rl_recording rel) \<and> max_relations \<le> length (ws_relations s)
      then oldest_relation (ws_relations s) else None")
    case None
    then show ?thesis
      using put [of "ws_relations s" s] by (auto simp: save_relation_def)
  next
    case (Some p)
    obtain rid ev where p: "p = (rid, ev)"
      by (cases p)
    obtain e s1 where mark: "mark_history_truncated (io 0) (rl_watch ev) s = (e, s1)"
      by fastforce
    have "(rid, ev) \<in> set (ws_relations s)"
      using evicted Some p by (auto split: if_splits)
    then have restored: "set (AList.update rid ev (AList.delete rid (ws_relations s1))) \<subseteq> set (ws_relations s)"
      using set_update_subset [of rid ev "AList.delete rid (ws_relations s1)"] set_delete_subset [of rid "ws_relations s1"]
        truncated [OF mark] by auto
    have rest: "set (ws_relations (s1\<lparr>ws_relations := AList.delete rid (ws_relations s1)\<rparr>)) \<subseteq> set (ws_relations s)"
      using set_delete_subset [of rid "ws_relations s1"] truncated [OF mark] by auto
    have "save_relation io rel s =
        (if \<not> hex32 (rl_recording rel) \<or> \<not> hex32 (rl_watch rel) \<or> rl_part rel < 1 then (Some ''invalid watch'', s)
         else if \<not> has_key (ws_defs s) (rl_watch rel) then (Some ''watch not found'', s)
         else case e of Some e' \<Rightarrow> (Some e', s1)
           | None \<Rightarrow> if \<not> io 1 then (Some ''remove'', s1)
               else put_relation (io 2) (AList.update rid ev (AList.delete rid (ws_relations s1))) rel
                      (s1\<lparr>ws_relations := AList.delete rid (ws_relations s1)\<rparr>))"
      unfolding save_relation_def Some p mark option.case prod.case ..
    then show ?thesis
      using put [OF restored rest] truncated [OF mark] by (auto split: option.splits)
  qed
qed

text \<open>The relations that \<open>c'\<close> has and \<open>c\<close> did not have name \<open>wid\<close> as the watch of the recording \<open>rid\<close>.\<close>

definition relates :: "string \<Rightarrow> string \<Rightarrow> watch_links \<Rightarrow> watch_links \<Rightarrow> bool" where
  "relates wid rid c c' \<longleftrightarrow> (\<forall>p \<in> relations c'. p \<in> relations c \<or> (fst p = rid \<and> rl_watch (snd p) = wid))"

lemma relates_subset: "relations c' \<subseteq> relations c \<Longrightarrow> relates wid rid c c'"
  by (auto simp: relates_def)

lemma relates_trans: "relates wid rid a b \<Longrightarrow> relates wid rid b c \<Longrightarrow> relates wid rid a c"
  by (force simp: relates_def)

lemma relates_cong: "relations c1 = relations c' \<Longrightarrow> relates wid rid c c1 = relates wid rid c c'"
  by (simp add: relates_def)

lemma relates_save:
  assumes "save_relation io (start_relation wid rid digest t s0) (wl_store c) = (e, s)"
  shows "relates wid rid c (c\<lparr>wl_store := s\<rparr>)"
  using save_relation_relations [of io "start_relation wid rid digest t s0" "wl_store c"] assms
  by (auto simp: relates_def start_relation_def)

lemma relates_pending:
  assumes "pending_relation env wid r rec (wl_store c) = (rel, s)"
  shows "relates wid (wr_pending r) c (c\<lparr>wl_store := s\<rparr>)"
proof (cases "relation_of (wr_pending r) (wl_store c)")
  case (Inl e)
  obtain e' s' where save: "save_relation (en_relation_io env)
      (start_relation wid (wr_pending r) (wr_digest r) (rec_started_at rec) (wl_store c)) (wl_store c) = (e', s')"
    by fastforce
  then show ?thesis
    using assms Inl relates_save [OF save] by (cases e') (auto simp: pending_relation_def Let_def)
qed (use assms in \<open>auto simp: pending_relation_def relates_def\<close>)

section \<open>Tame handlers\<close>

text \<open>A handler that keeps or drops the pending start of every watch and relates at most the recording \<open>rid\<close> to
  \<open>wid\<close>.\<close>

definition tame :: "string \<Rightarrow> string \<Rightarrow> watch_links \<Rightarrow> watch_links \<Rightarrow> bool" where
  "tame wid rid c c' \<longleftrightarrow> (\<forall>w. wr_pending (rt c' w) \<in> {[], wr_pending (rt c w)}) \<and> relates wid rid c c'"

lemma tameI:
  assumes "frame_links wid c c'" "wr_pending (rt c' wid) = [] \<or> wr_pending (rt c' wid) = wr_pending (rt c wid)"
    "relates wid rid c c'"
  shows "tame wid rid c c'"
  using assms by (auto simp: tame_def frame_links_def)

lemma tame_quiet:
  assumes "frame_links wid c c'" "wr_pending (rt c' wid) = [] \<or> wr_pending (rt c' wid) = wr_pending (rt c wid)"
    "relations c' \<subseteq> relations c"
  shows "tame wid rid c c'"
  using assms(1,2) relates_subset [OF assms(3)] by (rule tameI)

lemma tame_refl [simp, intro]: "tame wid rid c c"
  by (simp add: tame_def relates_def)

lemma begin_check_tame: "tame wid rid c (snd (begin_check env wid c))"
proof (rule tame_quiet [OF begin_check_links])
  show "relations (snd (begin_check env wid c)) \<subseteq> relations c"
    by (auto simp: begin_check_def put_runtime_eq split: sum.splits prod.splits if_splits)
qed (use begin_check_same(1) [of c wid env] in \<open>simp add: same_links_def\<close>)

lemma drop_pending_relations: "relations (drop_pending env wid r c) \<subseteq> relations c"
  using unlink_relations by (simp add: drop_pending_def)

lemma check_failed_tame: "tame wid rid c (snd (check_failed env wid code attention c))"
proof (rule tame_quiet [OF check_failed_links])
  show "relations (snd (check_failed env wid code attention c)) \<subseteq> relations c"
    using drop_pending_relations [of env wid _ c]
    by (fastforce simp: check_failed_def put_runtime_eq Let_def split: sum.splits prod.splits if_splits)
qed (use check_failed_pending [of c wid env code attention] in \<open>auto simp: same_links_def\<close>)

lemma check_offline_tame: "tame wid rid c (snd (check_offline env wid t c))"
proof (rule tame_quiet [OF check_offline_links])
  show "relations (snd (check_offline env wid t c)) \<subseteq> relations c"
    by (auto simp: check_offline_def put_runtime_eq split: sum.splits prod.splits if_splits)
qed (use check_offline_active [of c wid env t] in \<open>auto simp: same_links_def\<close>)

lemma decide_start_relations [simp]: "relations (snd (decide_start env media can_resolve wid same d r c)) = relations c"
  by (simp add: decide_start_def put_runtime_eq Let_def)

lemma note_live_relations [simp]: "relations (note_live env wid digest r c) = relations c"
  by (simp add: note_live_def)

lemma live_decide_tame: "tame wid rid c (snd (live_decide env digest media can_resolve wid c))"
proof (rule tame_quiet [OF live_decide_links])
  show "relations (snd (live_decide env digest media can_resolve wid c)) \<subseteq> relations c"
    by (auto simp: live_decide_def put_runtime_eq Let_def split: sum.splits prod.splits if_splits)
qed (use live_decide_same(1) [of c wid env digest media can_resolve] in \<open>simp add: same_links_def\<close>)

lemma clear_pending_start_tame: "tame wid rid c (clear_pending_start env wid pid c)"
proof (rule tame_quiet [OF clear_pending_start_links])
  show "relations (clear_pending_start env wid pid c) \<subseteq> relations c"
    using unlink_relations [of env pid c] by (simp add: clear_pending_start_def Let_def split: sum.splits prod.splits)
qed (use clear_pending_start_pending [of c wid env pid] in \<open>auto simp: same_links_def\<close>)

lemma admit_start_tame:
  assumes "admit_start env wid pid digest t c = (a, c')"
  shows "tame wid pid c c'"
proof (rule tameI [OF admit_start_spec(1) [OF assms]])
  show "relates wid pid c c'"
  proof (cases "store_get (en_readable env) wid (wl_store c)")
    case (Inr p)
    obtain d r sec where p: "p = (d, r, sec)"
      by (cases p)
    obtain e s where save: "save_relation (en_relation_io env) (start_relation wid pid digest t (wl_store c)) (wl_store c) = (e, s)"
      by fastforce
    have quiet: "relates wid pid c (end_start wid (unlink env pid c))"
      "relates wid pid c (end_start wid (abandon_start env t wid pid d r c))"
      using unlink_relations [of env pid c] by (simp_all add: abandon_start_def relates_subset)
    have saved: "relates wid pid c (try_runtime env wid r1 (end_start wid (c\<lparr>wl_store := s\<rparr>)))" for r1
      using relates_save [OF save] by (subst relates_cong [where c' = "c\<lparr>wl_store := s\<rparr>"]) simp_all
    show ?thesis
      using assms quiet saved relates_save [OF save]
      by (cases e) (auto simp: admit_start_def Inr p save split: if_splits)
  next
    case (Inl e)
    then have "c' = end_start wid (unlink env pid c)"
      using assms by (simp add: admit_start_def)
    then show ?thesis
      using unlink_relations [of env pid c] by (simp add: relates_subset)
  qed
qed (use admit_start_spec(2) [OF assms] in \<open>auto simp: same_links_def\<close>)

lemma start_refused_tame:
  "tame wid rid c (start_refused env wid pid t d r c)"
proof (rule tame_quiet [OF start_refused_links])
  show "relations (start_refused env wid pid t d r c) \<subseteq> relations c"
    using unlink_relations [of env pid "end_start wid c"] by (simp add: start_refused_def abandon_start_def)
qed (use start_refused_pending [of c wid env pid t d r] in \<open>auto simp: same_links_def\<close>)

lemma commit_start_tame: "tame wid rid c (commit_start env wid pid rec c)"
proof (rule tame_quiet [OF commit_start_links])
  show "relations (commit_start env wid pid rec c) \<subseteq> relations c"
    by (auto simp: commit_start_def put_runtime_eq Let_def split: sum.splits prod.splits if_splits)
qed (use commit_start_active [of c wid env pid rec] in \<open>auto simp: same_links_def\<close>)

lemma mark_terminal_relations [simp]: "relations (snd (mark_terminal env t wid d rec r c)) = relations c"
  by (simp add: mark_terminal_def Let_def)

lemma reconcile_one_tame: "rt c wid = r \<Longrightarrow> tame wid rid c (reconcile_one env t wid d r answer c)"
proof (rule tame_quiet [OF reconcile_one_links])
  show "relations (reconcile_one env t wid d r answer c) \<subseteq> relations c"
    using unlink_relations [of env "wr_active r" c] by (simp add: reconcile_one_def split: manager_answer.split)
qed (use reconcile_one_active [of env t wid d r answer c] in \<open>auto simp: same_links_def\<close>)

lemma notify_stopped_tame: "tame wid rid c (notify_stopped env wid rid' c)"
proof (rule tame_quiet [OF notify_stopped_links])
  show "relations (notify_stopped env wid rid' c) \<subseteq> relations c"
    by (auto simp: notify_stopped_def split: sum.splits prod.splits)
qed (use notify_stopped_spec(2) [of env wid rid' c] in \<open>auto\<close>)

lemma reconcile_pending_tame:
  "tame wid (wr_pending (rt c wid)) c (reconcile_pending env wid manager c)"
proof -
  note spec = reconcile_pending_spec [where env = env and wid = wid and manager = manager and c = c, OF refl]
  show ?thesis
  proof (rule tameI)
    show "relates wid (wr_pending (rt c wid)) c (reconcile_pending env wid manager c)"
    proof (cases "store_get (en_readable env) wid (wl_store c)")
      case (Inr p)
      then obtain d sec where get: "store_get (en_readable env) wid (wl_store c) = Inr (d, rt c wid, sec)"
        using store_get_runtime by (cases p) blast
      show ?thesis
      proof (cases "manager (wr_pending (rt c wid))")
        case (Found rec)
        obtain rel s where rel: "pending_relation env wid (rt c wid) rec (wl_store c) = (rel, s)"
          by fastforce
        have "relates wid (wr_pending (rt c wid)) c c'" if "relations c' = relations (c\<lparr>wl_store := s\<rparr>)" for c'
          using relates_pending [OF rel] relates_cong [OF that] by blast
        then show ?thesis
          by (simp add: reconcile_pending_def get Found rel relates_subset Let_def)
      qed (use unlink_relations [of env "wr_pending (rt c wid)" c] in
          \<open>simp_all add: reconcile_pending_def get relates_subset\<close>)
    qed (simp add: reconcile_pending_def relates_subset)
  qed (use spec in \<open>auto simp: settles_def same_links_def\<close>)
qed

section \<open>Recovery and requests\<close>

lemma truthful_never: "truthful (\<lambda>_. False) manager"
  by (simp add: truthful_def)

lemma mark_terminal_effect:
  assumes "mark_terminal env t wid d rec r c = (r', c')"
  shows "r' = terminal_runtime env t d rec r" "relations c' = relations c"
    "wr_pending (rt c' wid) = wr_pending (rt c wid) \<or> wr_pending (rt c' wid) = wr_pending r"
proof -
  have "r' = fst (mark_terminal env t wid d rec r c)" "c' = snd (mark_terminal env t wid d rec r c)"
    using assms by simp_all
  then show "r' = terminal_runtime env t d rec r" "relations c' = relations c"
    "wr_pending (rt c' wid) = wr_pending (rt c wid) \<or> wr_pending (rt c' wid) = wr_pending r"
    by simp_all
qed

lemma try_runtime_pending: "wr_pending (rt (try_runtime env wid r c) wid) \<in> {wr_pending r, wr_pending (rt c wid)}"
  by (simp add: try_runtime_eq)

lemma recover_active_relations:
  assumes "recover_active env t wid d manager (r, c) = (stop, r', c')"
  shows "relations c' \<subseteq> relations c \<and> wr_pending r' = wr_pending r \<and>
    wr_pending (rt c' wid) \<in> {wr_pending r, wr_pending (rt c wid)}"
proof (cases "wr_active r = []")
  case False
  show ?thesis
  proof (cases "manager (wr_active r)")
    case (Found rec)
    show ?thesis
    proof (cases "rec_state rec = StateRecording")
      case True
      define r1 where "r1 = r\<lparr>wr_phase := Recording_now, wr_next_check := None\<rparr>"
      have "r' = r1" "c' = try_runtime env wid r1 c"
        using assms False Found True by (auto simp: recover_active_def Let_def r1_def)
      then show ?thesis
        using try_runtime_pending [of env wid r1 c] by (simp add: r1_def)
    next
      case ended: False
      have "mark_terminal env t wid d rec r c = (r', c')"
        using assms False Found ended by (simp add: recover_active_def)
      from mark_terminal_effect [OF this] show ?thesis
        by auto
    qed
  next
    case Missing
    then have "r' = idle_runtime d t (r\<lparr>wr_active := []\<rparr>)" "c' = unlink env (wr_active r) c"
      using assms False by (simp_all add: recover_active_def)
    then show ?thesis
      using unlink_relations [of env "wr_active r" c] by simp
  next
    case Unreadable
    then have "r' = attention_runtime r" "c' = try_runtime env wid (attention_runtime r) c"
      using assms False by (auto simp: recover_active_def)
    then show ?thesis
      using try_runtime_pending [of env wid "attention_runtime r" c] by simp
  qed
qed (use assms in \<open>simp add: recover_active_def\<close>)

lemma recover_pending_relations:
  assumes "recover_pending env t wid d manager (r, c) = (stop, r', c')"
  shows "relates wid (wr_pending r) c c' \<and> wr_pending r' \<in> {[], wr_pending r} \<and>
    wr_pending (rt c' wid) \<in> {[], wr_pending (rt c wid), wr_pending r}"
proof (cases "wr_pending r = []")
  case True
  then have "c' = c" "wr_pending r' = wr_pending r"
    using assms by (auto simp: recover_pending_def)
  then show ?thesis
    using True by (simp add: relates_subset)
next
  case False
  show ?thesis
  proof (cases "manager (wr_pending r)")
    case (Found rec)
    obtain rel s where rel: "pending_relation env wid r rec (wl_store c) = (rel, s)"
      by fastforce
    define c1 where "c1 = c\<lparr>wl_store := s\<rparr>"
    have c1: "relates wid (wr_pending r) c c1" "rt c1 wid = rt c wid"
      using relates_pending [OF rel] pending_relation_links [OF rel] by (simp_all add: c1_def)
    define other where "other = (case rel of None \<Rightarrow> False | Some x \<Rightarrow> rl_watch x \<noteq> wid)"
    define r1 where "r1 = r\<lparr>wr_active := wr_pending r, wr_pending := []\<rparr>"
    have eq: "(stop, r', c') =
        (if other then (True, attention_runtime r, try_runtime env wid (attention_runtime r) c1)
         else if rec_state rec = StateRecording then (False, active_runtime (wr_pending r) r, c1)
         else (False, mark_terminal env t wid d rec r1 c1))"
      using False assms [symmetric] Found by (simp add: recover_pending_def rel Let_def c1_def other_def r1_def)
    consider (other) "r' = attention_runtime r" "c' = try_runtime env wid (attention_runtime r) c1"
      | (live) "r' = active_runtime (wr_pending r) r" "c' = c1" | (ended) "mark_terminal env t wid d rec r1 c1 = (r', c')"
      using eq by (cases other; cases "rec_state rec = StateRecording") auto
    then show ?thesis
    proof cases
      case other
      then have "relates wid (wr_pending r) c c'"
        using c1(1) relates_cong [of c' c1] by simp
      then show ?thesis
        using other c1(2) try_runtime_pending [of env wid "attention_runtime r" c1] by auto
    next
      case live
      then show ?thesis
        using c1 by simp
    next
      case ended
      note E = mark_terminal_effect [OF ended]
      have "relates wid (wr_pending r) c c'"
        using c1(1) E(2) relates_cong [of c' c1] by simp
      then show ?thesis
        using E(1,3) c1(2) by (auto simp: r1_def)
    qed
  next
    case Missing
    then have "r' = idle_runtime d t (r\<lparr>wr_pending := [], wr_starting_at := None\<rparr>)" "c' = unlink env (wr_pending r) c"
      using assms False by (simp_all add: recover_pending_def)
    then show ?thesis
      using unlink_relations [of env "wr_pending r" c] by (simp add: relates_subset)
  next
    case Unreadable
    then have "r' = attention_runtime r" "c' = try_runtime env wid (attention_runtime r) c"
      using assms False by (auto simp: recover_pending_def)
    then show ?thesis
      using try_runtime_pending [of env wid "attention_runtime r" c] by (auto simp: relates_subset)
  qed
qed

lemma recover_one_tame:
  assumes "rt c wid = r"
  shows "tame wid (wr_pending r) c (recover_one envs sha256 t wid d r manager c)"
proof -
  obtain stop r1 c1 where first: "recover_active (envs 0) t wid d manager (r, c) = (stop, r1, c1)"
    by (metis prod_cases3)
  obtain stop2 r2 c2 where pend: "recover_pending (envs 1) t wid d manager (r1, c1) = (stop2, r2, c2)"
    by (metis prod_cases3)
  note one = recover_active_relations [OF first] and two = recover_pending_relations [OF pend]
  have both: "relates wid (wr_pending r) c c1" "relates wid (wr_pending r) c c2"
    using one two by (auto intro: relates_subset relates_trans)
  have "relates wid (wr_pending r) c (try_runtime (envs 2) wid (rescheduled_runtime sha256 t wid d r2) c2)"
    by (rule relates_trans [OF both(2) relates_subset]) simp
  moreover have eq: "recover_one envs sha256 t wid d r manager c =
      (if stop then c1 else if stop2 then c2 else try_runtime (envs 2) wid (rescheduled_runtime sha256 t wid d r2) c2)"
    by (cases stop; cases stop2) (simp_all add: recover_one_def first pend del: One_nat_def)
  ultimately have "relates wid (wr_pending r) c (recover_one envs sha256 t wid d r manager c)"
    using both by simp
  moreover have "wr_pending (rt (recover_one envs sha256 t wid d r manager c) wid) \<in> {[], wr_pending r}"
    using one two assms try_runtime_pending [of "envs 2" wid "rescheduled_runtime sha256 t wid d r2" c2]
    unfolding eq by (cases stop; cases stop2) auto
  ultimately show ?thesis
    using assms by (intro tameI [OF recover_one_spec(1) [OF truthful_never assms]]) auto
qed

lemma tame_rewritten: "rewritten wid c c' \<Longrightarrow> relations c' \<subseteq> relations c \<Longrightarrow> tame wid rid c c'"
  by (rule tame_quiet) (auto simp: rewritten_def same_links_def)

lemma put_runtime_noted [simp]:
  "relations (snd (case put_runtime env wid r c of (Some e, c1) \<Rightarrow> (Some e, c1) | (None, c1) \<Rightarrow>
     (None, note_event env wid kind rid code c1))) = relations c"
  by (simp add: put_runtime_eq)

lemma set_enabled_tame: "tame wid rid c (snd (set_enabled env sha256 wid enabled c))"
proof (rule tame_rewritten [OF set_enabled_rewrites])
  show "relations (snd (set_enabled env sha256 wid enabled c)) \<subseteq> relations c"
  proof (cases "store_get (en_readable env) wid (wl_store c)")
    case (Inr p)
    obtain d r sec where p: "p = (d, r, sec)"
      by (cases p)
    obtain e s where up: "store_update (en_readable env) (en_store_io env)
        (d\<lparr>wd_enabled := enabled, wd_updated_at := en_now env\<rparr>) [] False (wl_store c) = (e, s)"
      by fastforce
    have "ws_relations s = ws_relations (wl_store c)"
      using store_update_relations up by (metis snd_conv)
    then show ?thesis
      by (cases e) (simp_all add: set_enabled_def Inr p up)
  qed (simp add: set_enabled_def)
qed

lemma relations_guards:
  "relations (snd x) = relations c \<Longrightarrow> relations (snd (if refused then (e, c) else x)) = relations c"
  "relations (snd x) = relations c \<Longrightarrow> relations (snd (case err of None \<Rightarrow> x | Some e' \<Rightarrow> (Some e', c))) = relations c"
  "(\<And>v. relations (snd (f v)) = relations c) \<Longrightarrow>
     relations (snd (case res of None \<Rightarrow> (e, c) | Some v \<Rightarrow> f v)) = relations c"
  by (simp_all split: option.splits)

lemma update_watch_tame: "tame wid rid c (snd (update_watch env sha256 canonical ad wid rq c))"
proof (rule tame_rewritten [OF update_watch_rewrites])
  show "relations (snd (update_watch env sha256 canonical ad wid rq c)) \<subseteq> relations c"
  proof (cases "store_get (en_readable env) wid (wl_store c)")
    case (Inr p)
    obtain d r old where p: "p = (d, r, old)"
      by (cases p)
    obtain replace sec where up: "updated_secrets rq old = (replace, sec)"
      by fastforce
    have save: "relations (snd (case store_update (en_readable env) (en_store_io env) d1 sec replace (wl_store c) of
        (Some e, s) \<Rightarrow> (Some e, c\<lparr>wl_store := s\<rparr>)
      | (None, s) \<Rightarrow> (case put_runtime env wid r1 (c\<lparr>wl_store := s\<rparr>) of
            (Some e, c1) \<Rightarrow> (Some e, c1)
          | (None, c1) \<Rightarrow> (None, note_event env wid ''watch_updated'' [] [] c1)))) = relations c" for d1 r1
    proof -
      obtain e s where up: "store_update (en_readable env) (en_store_io env) d1 sec replace (wl_store c) = (e, s)"
        by fastforce
      have "ws_relations s = ws_relations (wl_store c)"
        using store_update_relations up by (metis snd_conv)
      then show ?thesis
        by (cases e) (simp_all add: up)
    qed
    show ?thesis
      unfolding update_watch_def Inr p sum.case prod.case Let_def up
      by (rule equalityD1, intro relations_guards save)
  qed (simp add: update_watch_def)
qed

lemma delete_watch_tame: "tame wid rid c (snd (delete_watch env wid c))"
proof -
  have "relations (snd (delete_watch env wid c)) \<subseteq> relations c"
    by (auto simp: delete_watch_def store_delete_def Let_def split: sum.splits)
  moreover have "wr_pending (rt (snd (delete_watch env wid c)) w) \<in> {[], wr_pending (rt c w)}" for w
    using delete_watch_spec(2) [where w = w and wid = wid and env = env and c = c] delete_watch_spec(4) [where wid = wid and env = env and c = c] by (cases "w = wid") (auto simp: empty_runtime_def)
  ultimately show ?thesis
    by (simp add: tame_def relates_subset)
qed

lemma create_watch_tame: "tame wid rid c (snd (create_watch env sha256 canonical ad rq c))"
proof -
  have "relations (snd (create_watch env sha256 canonical ad rq c)) = relations c"
  proof -
    have save: "relations (snd (case store_create io d sec r (wl_store c) of
          (Some e, s) \<Rightarrow> (Some e, c\<lparr>wl_store := s\<rparr>)
        | (None, s) \<Rightarrow> (None, note_event env w ''watch_created'' [] [] (c\<lparr>wl_store := s\<rparr>)))) = relations c" for io d sec r w
    proof -
      obtain e s where cr: "store_create io d sec r (wl_store c) = (e, s)"
        by fastforce
      have "ws_relations s = ws_relations (wl_store c)"
        using store_create_relations cr by (metis snd_conv)
      then show ?thesis
        by (cases e) (simp_all add: cr)
    qed
    show ?thesis
      unfolding create_watch_def Let_def by (intro relations_guards save)
  qed
  moreover have "wr_pending (rt (snd (create_watch env sha256 canonical ad rq c)) w) \<in> {[], wr_pending (rt c w)}" for w
    using create_watch_spec(2) [where w = w and env = env and ?sha256.0 = sha256 and canonical = canonical and ad = ad and rq = rq and c = c]
    by (auto simp: same_links_def empty_runtime_def)
  ultimately show ?thesis
    by (simp add: tame_def relates_subset)
qed

section \<open>Every id belongs to one watch\<close>

text \<open>A watch holds an id through its pending start, a check in progress, the log or a stored relation.\<close>

definition holds :: "watch_links \<Rightarrow> (string, job) gomap \<Rightarrow> (string \<times> string) list \<Rightarrow> string \<Rightarrow> string \<Rightarrow> bool" where
  "holds c js lg w rid \<longleftrightarrow> rid \<noteq> [] \<and>
     (wr_pending (rt c w) = rid \<or> (\<exists>j. map_of js w = Some j \<and> claim_of j = rid) \<or> (w, rid) \<in> set lg \<or>
      (\<exists>rel. (rid, rel) \<in> relations c \<and> rl_watch rel = w))"

definition owners_ok :: "watch_links \<Rightarrow> (string, job) gomap \<Rightarrow> (string \<times> string) list \<Rightarrow> string list \<Rightarrow> bool" where
  "owners_ok c js lg ids \<longleftrightarrow>
     (\<forall>w rid. holds c js lg w rid \<longrightarrow> rid \<in> set ids \<and> (\<forall>w'. holds c js lg w' rid \<longrightarrow> w' = w))"

abbreviation owned :: "watch_service \<Rightarrow> bool" where
  "owned sv \<equiv> owners_ok (sv_links sv) (sv_jobs sv) (sv_log sv) (sv_ids sv)"

lemma owners_fewer:
  "owners_ok c js lg ids \<Longrightarrow> (\<And>w rid. holds c' js' lg' w rid \<Longrightarrow> holds c js lg w rid) \<Longrightarrow> set ids \<subseteq> set ids' \<Longrightarrow>
     owners_ok c' js' lg' ids'"
  unfolding owners_ok_def by blast

lemma holds_tame:
  assumes "tame wid rid c c'" "rid = [] \<or> holds c js lg wid rid"
    "\<And>w j'. map_of js' w = Some j' \<Longrightarrow> claim_of j' \<noteq> [] \<Longrightarrow> \<exists>j. map_of js w = Some j \<and> claim_of j = claim_of j'"
    "holds c' js' lg w x"
  shows "holds c js lg w x"
proof -
  have x: "x \<noteq> []"
    using assms(4) by (simp add: holds_def)
  consider "wr_pending (rt c' w) = x" | j where "map_of js' w = Some j" "claim_of j = x" | "(w, x) \<in> set lg"
    | rel where "(x, rel) \<in> relations c'" "rl_watch rel = w"
    using assms(4) by (auto simp: holds_def)
  then show ?thesis
  proof cases
    case 1
    then have "wr_pending (rt c w) = x"
      using assms(1) x by (auto simp: tame_def)
    then show ?thesis
      using x by (simp add: holds_def)
  next
    case 2
    then show ?thesis
      using assms(3) [OF 2(1)] x by (auto simp: holds_def)
  next
    case 4
    then have "(x, rel) \<in> relations c \<or> (x = rid \<and> w = wid)"
      using assms(1) by (force simp: tame_def relates_def)
    then show ?thesis
      using assms(2) x 4(2) by (auto simp: holds_def)
  qed (use x in \<open>simp add: holds_def\<close>)
qed

lemma owned_tame:
  assumes "owned sv" "tame wid rid (sv_links sv) c'" "rid = [] \<or> holds (sv_links sv) (sv_jobs sv) (sv_log sv) wid rid"
    "\<And>w j'. map_of js' w = Some j' \<Longrightarrow> claim_of j' \<noteq> [] \<Longrightarrow>
       \<exists>j. map_of (sv_jobs sv) w = Some j \<and> claim_of j = claim_of j'"
  shows "owners_ok c' js' (sv_log sv) (sv_ids sv)"
  using owners_fewer [OF assms(1) _ order.refl] holds_tame [OF assms(2,3,4)] by blast

lemma owned_with_links:
  assumes "owned sv" "tame wid rid (sv_links sv) c'" "rid = [] \<or> holds (sv_links sv) (sv_jobs sv) (sv_log sv) wid rid"
  shows "owned (with_links c' sv)"
  using owned_tame [OF assms, of "sv_jobs sv"] by (auto simp: with_links_def)

lemma owned_finish:
  assumes "owned sv" "tame wid' rid (sv_links sv) c'" "rid = [] \<or> holds (sv_links sv) (sv_jobs sv) (sv_log sv) wid' rid"
  shows "owned (finish_job wid (with_links c' sv))"
proof -
  have "owners_ok c' (AList.delete wid (sv_jobs sv)) (sv_log sv) (sv_ids sv)"
    by (rule owned_tame [OF assms]) (auto split: if_splits)
  then show ?thesis
    by (simp add: with_links_def finish_job_def)
qed

lemma owned_move:
  assumes "owned sv" "tame wid' rid (sv_links sv) c'"
    "rid = [] \<or> holds (sv_links sv) (sv_jobs sv) (sv_log sv) wid' rid"
    "map_of (sv_jobs sv) wid = Some j" "claim_of j' = [] \<or> claim_of j' = claim_of j"
  shows "owned (set_job wid j' (with_links c' sv))"
proof -
  have "owners_ok c' (AList.update wid j' (sv_jobs sv)) (sv_log sv) (sv_ids sv)"
    by (rule owned_tame [OF assms(1-3)]) (use assms(4,5) in \<open>auto split: if_splits\<close>)
  then show ?thesis
    by (simp add: with_links_def set_job_def)
qed

lemma owned_end: "owned sv \<Longrightarrow> owned (finish_job wid sv)"
  using owned_finish [of sv wid "[]" "sv_links sv" wid] by simp

lemma owned_goto:
  "owned sv \<Longrightarrow> map_of (sv_jobs sv) wid = Some j \<Longrightarrow> claim_of j' = [] \<or> claim_of j' = claim_of j \<Longrightarrow> owned (set_job wid j' sv)"
  using owned_move [of sv wid "[]" "sv_links sv" wid j j'] by simp

lemma owners_more_ids: "owners_ok c js lg ids \<Longrightarrow> owners_ok c js lg (x # ids)"
  unfolding owners_ok_def by (meson list.set_intros(2))

lemma holds_claim: "map_of js w = Some j \<Longrightarrow> claim_of j \<noteq> [] \<Longrightarrow> holds c js lg w (claim_of j)"
  by (auto simp: holds_def)

lemma start_step_owned:
  assumes "owned sv" "map_of (sv_jobs sv) wid = Some (Starting_recording pid t d r)" "pid \<noteq> []"
  shows "owned (start_step wid pid t d r started sv)"
proof (cases "started = None \<or> has_key (sv_manager sv) pid")
  case True
  then have "start_step wid pid t d r started sv = set_job wid (Refused pid t d r) sv"
    by (auto simp: start_step_def Let_def split: option.split)
  then show ?thesis
    using owned_goto [OF assms(1,2)] by simp
next
  case False
  then obtain rec where rec: "started = Some rec"
    by (cases started) simp_all
  define js' where "js' = AList.update wid (Committing pid (rec\<lparr>rec_id := pid, rec_state := StateRecording\<rparr>)) (sv_jobs sv)"
  have "holds (sv_links sv) (sv_jobs sv) (sv_log sv) w x" if "holds (sv_links sv) js' ((wid, pid) # sv_log sv) w x" for w x
    using that holds_claim [OF assms(2), of "sv_links sv" "sv_log sv"] assms(3)
    by (auto simp: holds_def js'_def split: if_splits)
  then have "owners_ok (sv_links sv) js' ((wid, pid) # sv_log sv) (sv_ids sv)"
    by (rule owners_fewer [OF assms(1)]) simp_all
  then show ?thesis
    using False rec by (simp add: start_step_def Let_def set_job_def js'_def)
qed

lemma claim_step_owned:
  assumes "owned sv" "fresh_id sv env"
  shows "owned (claim_step env wid r digest t sv)"
proof -
  obtain res c' where claim: "claim_starting env wid r t (sv_links sv) = (res, c')"
    by fastforce
  from claim show ?thesis
  proof (cases rule: claim_starting_cases)
    case (refused e)
    have "owned (finish_job wid sv)"
      using assms(1) by (rule owned_end)
    then show ?thesis
      using refused claim
      by (auto simp: claim_step_def finish_job_def with_links_def Let_def intro: owners_more_ids split: option.split)
  next
    case (claimed pid)
    have fresh: "pid \<notin> set (sv_ids sv)" "pid \<noteq> []"
      using assms(2) claimed(2) by (auto simp: fresh_id_def)
    define js' where "js' = AList.update wid (Claimed pid digest t) (sv_jobs sv)"
    have old: "holds (sv_links sv) (sv_jobs sv) (sv_log sv) w x" if "holds c' js' (sv_log sv) w x" "x \<noteq> pid" for w x
      using that unfolding claimed(6) js'_def
      by (auto simp: holds_def runtime_of_def saved_def claimed_runtime_def split: if_splits)
    have new: "w = wid" if "holds c' js' (sv_log sv) w pid" for w
    proof (rule ccontr)
      assume "w \<noteq> wid"
      then have "holds (sv_links sv) (sv_jobs sv) (sv_log sv) w pid"
        using that unfolding claimed(6) js'_def
        by (auto simp: holds_def runtime_of_def saved_def split: if_splits)
      then show False
        using assms(1) fresh(1) by (auto simp: owners_ok_def)
    qed
    have "owners_ok c' js' (sv_log sv) (pid # sv_ids sv)"
      using old new assms(1) unfolding owners_ok_def by (metis list.set_intros(1,2))
    then show ?thesis
      using claim claimed(1,2) by (simp add: claim_step_def set_job_def with_links_def Let_def js'_def)
  qed
qed

section \<open>Every transition\<close>

lemma advance_owned:
  assumes "owned sv" "parts sv" "map_of (sv_jobs sv) wid = Some j" "orderly_job sv env wid j"
  shows "owned (advance_job env w sha256 wid j sv)"
proof -
  note ends = owned_finish [OF assms(1), where rid = "[]", simplified]
  note goto = owned_goto [OF assms(1,3)]
  note move = owned_move [OF assms(1) _ _ assms(3), where rid = "[]", simplified]
  show ?thesis
  proof (cases j)
    case Taken
    obtain b c1 where bc: "begin_check env wid (sv_links sv) = (b, c1)"
      by fastforce
    then have "tame wid [] (sv_links sv) c1"
      using begin_check_tame by (metis snd_conv)
    then show ?thesis
      using Taken by (cases b) (simp_all add: advance_job_def bc ends move)
  next
    case (Linked d r answer)
    then have "rt (sv_links sv) wid = r"
      using assms(4) by (simp add: undisturbed_def)
    then show ?thesis
      using Linked ends [OF reconcile_one_tame] by (simp add: advance_job_def)
  next
    case (Asking t)
    then show ?thesis
      by (simp add: advance_job_def owned_end [OF assms(1)] goto split: check_verdict.split)
  next
    case (Deciding digest media can_resolve)
    obtain dec c1 where dec: "live_decide env digest media can_resolve wid (sv_links sv) = (dec, c1)"
      by fastforce
    then have "tame wid [] (sv_links sv) c1"
      using live_decide_tame by (metis snd_conv)
    then show ?thesis
      using Deciding
      by (cases dec) (simp_all add: advance_job_def dec after_decision_def ends move owned_end [OF assms(1)])
  next
    case (Claiming r digest t)
    then show ?thesis
      using claim_step_owned [OF assms(1)] assms(4) by (simp add: advance_job_def)
  next
    case (Gated pid digest t)
    obtain a c1 where adm: "admit_start env wid pid digest t (sv_links sv) = (a, c1)"
      by fastforce
    have "pid \<noteq> []"
      using inv_job [OF assms(2,3)] Gated by simp
    then have held: "pid = [] \<or> holds (sv_links sv) (sv_jobs sv) (sv_log sv) wid pid"
      using holds_claim [OF assms(3)] Gated by fastforce
    note step = owned_finish [OF assms(1) admit_start_tame [OF adm] held] owned_move [OF assms(1) admit_start_tame [OF adm] held assms(3)]
    show ?thesis
      using Gated by (cases a) (simp_all add: advance_job_def adm step)
  next
    case (Starting_recording pid t d r)
    then show ?thesis
      using start_step_owned [OF assms(1)] inv_job [OF assms(2,3)] assms(3) by (simp add: advance_job_def owned_start_def)
  next
    case (Refused pid t d r)
    then show ?thesis
      using owned_move [OF assms(1) start_refused_tame _ assms(3), of "[]"] by (simp add: advance_job_def)
  qed (use assms(1) in \<open>simp_all add: advance_job_def goto owned_end ends [OF check_failed_tame] ends [OF check_offline_tame]
         ends [OF clear_pending_start_tame] ends [OF commit_start_tame]\<close>)
qed

lemma owned_more_jobs: "owned sv \<Longrightarrow> owned (snd (enqueue wid sv))"
proof -
  assume sv: "owned sv"
  have "owners_ok (sv_links sv) (AList.update wid Queued (sv_jobs sv)) (sv_log sv) (sv_ids sv)"
    by (rule owned_tame [OF sv tame_refl, of "[]"]) (auto split: if_splits)
  with sv show ?thesis
    by (simp add: enqueue_def)
qed

lemma schedule_owned: "owned sv \<Longrightarrow> owned (snd (schedule_due_at now sv))"
proof -
  have "owned (snd (fold (\<lambda>wid (queued, sv). case enqueue wid sv of (None, sv1) \<Rightarrow> (queued + 1, sv1)
      | (Some _, sv1) \<Rightarrow> (queued, sv1)) wids (n, sv)))" if "owned sv" for wids n sv
    using that
  proof (induction wids arbitrary: n sv)
    case (Cons wid wids)
    obtain e sv1 where e: "enqueue wid sv = (e, sv1)"
      by fastforce
    then have "owned sv1"
      using owned_more_jobs [OF Cons.prems, of wid] by simp
    then show ?case
      using Cons.IH e by (cases e) simp_all
  qed simp
  then show "owned sv \<Longrightarrow> owned (snd (schedule_due_at now sv))"
    by (simp add: schedule_due_at_def)
qed

lemma take_owned: "owned sv \<Longrightarrow> owned (take_job cancelled sv)"
proof (cases "sv_queue sv")
  case (Cons wid rest)
  assume sv: "owned sv"
  have "owned (set_job wid Taken sv)" if "map_of (sv_jobs sv) wid = Some Queued"
    using owned_goto [OF sv that] by simp
  then show ?thesis
    using sv owned_end [OF sv, of wid] Cons by (simp add: take_job_def Let_def finish_job_def set_job_def)
qed (simp add: take_job_def)

lemma links_next_owned:
  assumes "owned sv"
  shows "owned (links_next env readable sv)"
proof (cases "sv_snapshot sv")
  case (Cons p rest)
  obtain d r where p: "p = (d, r)"
    by (cases p)
  have held: "wr_pending (rt (sv_links sv) (wd_id d)) = [] \<or>
      holds (sv_links sv) (sv_jobs sv) (sv_log sv) (wd_id d) (wr_pending (rt (sv_links sv) (wd_id d)))"
    by (simp add: holds_def)
  show ?thesis
    using owned_with_links [OF assms reconcile_pending_tame held] assms
    by (simp add: links_next_def Cons p Let_def with_links_def)
qed (use assms in \<open>simp add: links_next_def\<close>)

lemma links_save_owned:
  assumes "owned sv" "orderly sv (Links_save env)"
  shows "owned (links_save env sv)"
proof (cases "sv_looked sv")
  case (Some p)
  obtain d r answer where p: "p = (d, r, answer)"
    by (cases p)
  then have "rt (sv_links sv) (wd_id d) = r"
    using assms(2) Some by (simp add: undisturbed_def)
  from owned_with_links [OF assms(1) reconcile_one_tame [OF this, of "[]"]] show ?thesis
    by (simp add: links_save_def Some p with_links_def)
qed (use assms in \<open>simp add: links_save_def\<close>)

lemma recover_next_owned:
  assumes "owned sv" "orderly sv (Recover_next envs t readable)"
  shows "owned (recover_next sha256 envs t readable sv)"
proof (cases "sv_recovering sv")
  case (Cons p rest)
  obtain d r where p: "p = (d, r)"
    by (cases p)
  then have r: "rt (sv_links sv) (wd_id d) = r"
    using assms(2) Cons by simp
  then have "wr_pending r = [] \<or> holds (sv_links sv) (sv_jobs sv) (sv_log sv) (wd_id d) (wr_pending r)"
    by (simp add: holds_def)
  from owned_with_links [OF assms(1) recover_one_tame [OF r] this] show ?thesis
    by (simp add: recover_next_def Cons p with_links_def)
qed (use assms in \<open>simp add: recover_next_def\<close>)

lemma crash_owned: "owned sv \<Longrightarrow> owned (crash sv)"
proof -
  assume sv: "owned sv"
  have "tame [] [] (sv_links sv) ((sv_links sv)\<lparr>wl_starting := []\<rparr>)"
    by (simp add: tame_def relates_def)
  from owned_tame [OF sv this, of "[]"] show ?thesis
    by (simp add: crash_def)
qed

lemma create_owned: "owned sv \<Longrightarrow> owned (create_step sha256 canonical env ad rq sv)"
proof -
  assume "owned sv"
  from owned_with_links [OF this create_watch_tame [where rid = "[]" and env = env and ?sha256.0 = sha256
      and canonical = canonical and ad = ad and rq = rq]] show ?thesis
    by (auto simp: create_step_def Let_def with_links_def intro: owners_more_ids split: option.split)
qed

lemma recording_owned:
  "owned sv \<Longrightarrow> owned (recording_started rec sv)" "owned sv \<Longrightarrow> owned (recording_ended rid state sv)"
  by (auto simp: recording_started_def recording_ended_def intro: owners_more_ids split: option.split)

lemma service_step_owned:
  assumes "service_inv sv" "owned sv" "orderly sv ev"
  shows "owned (service_step sha256 canonical sv ev)"
proof (cases ev)
  case (Advance env w wid)
  have "parts sv"
    using assms(1) by (simp add: service_inv_def)
  then show ?thesis
    using Advance assms advance_owned [OF assms(2)] by (simp split: option.split_asm option.split)
next
  case (Manual_check env wid)
  then show ?thesis
    using assms(2) owned_more_jobs [OF assms(2), of wid] by (simp add: manual_check_def split: sum.split prod.split)
qed (use assms in \<open>simp_all add: schedule_owned take_owned create_owned links_next_owned links_save_owned crash_owned
       recover_next_owned recording_owned run_service_def pause_checks_def resume_checks_def
       owned_with_links [OF _ set_enabled_tame, of _ "[]"] owned_with_links [OF _ update_watch_tame, of _ "[]"]
       owned_with_links [OF _ delete_watch_tame, of _ "[]"] owned_with_links [OF _ notify_stopped_tame, of _ "[]"]
       del: orderly.simps(2,3)\<close>)

interpretation owned_runs: guarded_system "service_step sha256 canonical" "\<lambda>sv. service_inv sv \<and> owned sv" orderly for sha256 canonical
  by unfold_locales (simp add: service_step_inv service_step_owned)

lemma empty_owned: "owned empty_service"
  by (auto simp: owners_ok_def holds_def empty_service_def empty_store_def runtime_of_def empty_runtime_def)

text \<open>What recovery and reconciliation rely on: the relation of a recording that was started for a watch names that
  watch.\<close>

lemma relation_names_watch:
  assumes "orderly_run sha256 canonical empty_service evs" "sv = foldl (service_step sha256 canonical) empty_service evs"
    "(wid, rid) \<in> set (sv_log sv)" "relation_of rid (wl_store (sv_links sv)) = Inr rel"
  shows "rl_watch rel = wid"
proof -
  have sv: "owned sv"
    using owned_runs.run_inv [of empty_service sha256 canonical evs] empty_owned empty_service_inv assms(1,2)
    by (simp add: orderly_run_def)
  have "rid \<noteq> []" "(rid, rel) \<in> relations (sv_links sv)"
    using assms(4) by (auto simp: relation_of_def dest: map_of_SomeD split: if_splits option.splits)
  then have "holds (sv_links sv) (sv_jobs sv) (sv_log sv) (rl_watch rel) rid" "holds (sv_links sv) (sv_jobs sv) (sv_log sv) wid rid"
    using assms(3) by (auto simp: holds_def)
  then show ?thesis
    using sv by (simp add: owners_ok_def)
qed

end
