(* ===== verification/Watch_Liveness.thy ===== *)
theory Watch_Liveness
  imports Watch_Recovery Watch_Races Watch_Relations
begin

text \<open>
  The invariant of \<open>Watch_Recovery\<close> in every orderly run, and what follows: no link is lost at a restart and none
  is kept after its recording has ended.
\<close>

section \<open>Calm runs\<close>

definition calm_jobs :: "watch_service \<Rightarrow> bool" where
  "calm_jobs sv \<longleftrightarrow> (\<forall>w j. map_of (sv_jobs sv) w = Some j \<longrightarrow> job_calm j)"

lemma calm_jobs_moves [simp]:
  "calm_jobs (with_links c sv) = calm_jobs sv" "calm_jobs (sv\<lparr>sv_ids := ids\<rparr>) = calm_jobs sv"
  "calm_jobs sv \<Longrightarrow> calm_jobs (finish_job wid sv)" "calm_jobs sv \<Longrightarrow> job_calm j \<Longrightarrow> calm_jobs (set_job wid j sv)"
  by (auto simp: calm_jobs_def with_links_def finish_job_def set_job_def)

lemma moved_links [simp]:
  "sv_links (finish_job wid sv) = sv_links sv" "sv_links (set_job wid j sv) = sv_links sv"
  "sv_links (with_links c sv) = c" "sv_looked (finish_job wid sv) = sv_looked sv"
  "sv_looked (set_job wid j sv) = sv_looked sv" "sv_looked (with_links c sv) = sv_looked sv"
  by (simp_all add: finish_job_def set_job_def with_links_def)

definition calm_state :: "watch_service \<Rightarrow> bool" where
  "calm_state sv \<longleftrightarrow> fine (sv_links sv) \<and> calm_jobs sv \<and> (\<forall>d r answer. sv_looked sv = Some (d, r, answer) \<longrightarrow> wr_pending r = [] \<and> wr_active r \<noteq> [])"

definition calm_inv :: "watch_service \<Rightarrow> bool" where
  "calm_inv sv \<longleftrightarrow> service_inv sv \<and> calm_state sv"

lemma calm_moves [simp]:
  "calm_state sv \<Longrightarrow> calm_state (finish_job wid sv)" "calm_state sv \<Longrightarrow> job_calm j \<Longrightarrow> calm_state (set_job wid j sv)"
  "calm_state sv \<Longrightarrow> fine c \<Longrightarrow> calm_state (with_links c sv)" "calm_state (sv\<lparr>sv_ids := ids\<rparr>) = calm_state sv"
  by (simp_all add: calm_state_def)

lemma calm_links: "calm_state sv \<Longrightarrow> fine (sv_links sv)"
  by (simp add: calm_state_def)

lemma claim_step_calm:
  assumes "calm_state sv" "wr_failures r = 0"
  shows "calm_state (claim_step env wid r digest t sv)"
proof -
  obtain res c where claim: "claim_starting env wid r t (sv_links sv) = (res, c)"
    by fastforce
  then have "fine c"
    using claim_fine assms by (blast intro: calm_links)
  then show ?thesis
    using assms(1) by (auto simp: claim_step_def claim Let_def split: sum.splits option.splits)
qed

lemma start_step_calm: "calm_state sv \<Longrightarrow> calm_state (start_step wid pid t d r started sv)"
  by (auto simp: start_step_def Let_def calm_state_def calm_jobs_def set_job_def split: option.splits)

lemma deciding_calm:
  assumes "calm_state sv"
  shows "calm_state (advance_job env w sha256 wid (Deciding digest media can_resolve) sv)"
proof -
  obtain decision c where decide: "live_decide env digest media can_resolve wid (sv_links sv) = (decision, c)"
    by fastforce
  note spec = live_decide_fine [OF calm_links [OF assms], of env digest media can_resolve wid, unfolded decide]
  show ?thesis
    using assms spec by (cases decision) (simp_all add: advance_job_def decide after_decision_def)
qed

lemma begin_calm: "calm_state sv \<Longrightarrow> calm_state (advance_job env w sha256 wid Taken sv)"
proof -
  assume sv: "calm_state sv"
  obtain res c where first: "begin_check env wid (sv_links sv) = (res, c)"
    by fastforce
  have "fine c"
    using begin_check_fine [OF calm_links [OF sv], of env wid] first by simp
  moreover have "res = Link_first d r \<Longrightarrow> wr_active r \<noteq> []" for d r
    using first by (auto simp: begin_check_def split: sum.splits if_splits option.splits prod.splits)
  ultimately show ?thesis
    using sv by (cases res) (simp_all add: advance_job_def first)
qed

lemma gated_calm:
  assumes "calm_state sv"
  shows "calm_state (advance_job env w sha256 wid (Gated pid digest t) sv)"
proof -
  obtain res c where admit: "admit_start env wid pid digest t (sv_links sv) = (res, c)"
    by fastforce
  have "fine c"
    using admit_start_fine [OF calm_links [OF assms], of env wid pid digest t] admit by simp
  then show ?thesis
    using assms by (cases res) (simp_all add: advance_job_def admit)
qed

lemma advance_calm:
  assumes "calm_state sv" "parts sv" "map_of (sv_jobs sv) wid = Some j" "orderly_job sv env wid j"
  shows "calm_state (advance_job env w sha256 wid j sv)"
proof -
  note links = calm_links [OF assms(1)] and ok = inv_job [OF assms(2,3)]
  have job: "job_calm j"
    using assms(1,3) by (auto simp: calm_state_def calm_jobs_def)
  show ?thesis
  proof (cases j)
    case (Linked d r answer)
    then have "rt (sv_links sv) wid = r" "wr_pending r = []"
      using assms(4) job inv_exclusive [OF assms(2), of wid] by (auto simp: undisturbed_def exclusive_def)
    then show ?thesis
      using Linked assms(1) links by (simp add: advance_job_def reconcile_one_fine)
  next
    case (Asking t)
    then show ?thesis
      using assms(1) by (simp add: advance_job_def split: check_verdict.splits)
  next
    case (Refused pid t d r)
    then show ?thesis
      using assms(1) links ok by (simp add: advance_job_def start_refused_fine)
  qed (use assms links ok job in \<open>simp_all add: begin_calm deciding_calm gated_calm claim_step_calm start_step_calm,
      simp_all add: advance_job_def settled_def check_failed_fine check_offline_fine clear_pending_start_fine
         commit_start_fine claim_step_calm start_step_calm\<close>)
qed

lemma enqueue_calm: "calm_state sv \<Longrightarrow> calm_state (snd (enqueue wid sv))"
  by (simp add: enqueue_def calm_state_def calm_jobs_def)

lemma schedule_calm: "calm_state sv \<Longrightarrow> calm_state (snd (schedule_due_at now sv))"
proof -
  have "calm_state (snd (fold (\<lambda>wid (queued, sv). case enqueue wid sv of (None, sv1) \<Rightarrow> (queued + 1, sv1)
      | (Some _, sv1) \<Rightarrow> (queued, sv1)) wids (n, sv)))" if "calm_state sv" for wids n sv
    using that
  proof (induction wids arbitrary: n sv)
    case (Cons wid wids)
    obtain e sv1 where e: "enqueue wid sv = (e, sv1)"
      by fastforce
    then have "calm_state sv1"
      using enqueue_calm [OF Cons.prems, of wid] by simp
    then show ?case
      using Cons.IH e by (cases e) simp_all
  qed simp
  then show "calm_state sv \<Longrightarrow> calm_state (snd (schedule_due_at now sv))"
    by (simp add: schedule_due_at_def)
qed

lemma take_calm: "calm_state sv \<Longrightarrow> calm_state (take_job cancelled sv)"
  by (auto simp: take_job_def Let_def calm_state_def calm_jobs_def finish_job_def split: list.splits)

lemma links_next_calm: "calm_state sv \<Longrightarrow> calm_state (links_next env readable sv)"
  by (auto simp: links_next_def calm_state_def calm_jobs_def with_links_def Let_def reconcile_pending_fine split: list.splits)

lemma links_save_calm:
  assumes "calm_state sv" "orderly sv (Links_save env)"
  shows "calm_state (links_save env sv)"
proof (cases "sv_looked sv")
  case (Some p)
  obtain d r answer where p: "p = (d, r, answer)"
    by (cases p)
  have "rt (sv_links sv) (wd_id d) = r" "wr_pending r = []"
    using assms Some p by (simp_all add: undisturbed_def calm_state_def)
  then have "fine (reconcile_one env (en_now env) (wd_id d) d r answer (sv_links sv))"
    using reconcile_one_fine calm_links [OF assms(1)] by blast
  then show ?thesis
    using assms(1) by (simp add: links_save_def Some p calm_state_def calm_jobs_def with_links_def)
qed (use assms in \<open>simp add: links_save_def\<close>)

lemma recover_next_calm:
  assumes "calm_state sv" "service_inv sv" "orderly sv (Recover_next envs t readable)"
  shows "calm_state (recover_next sha256 envs t readable sv)"
proof (cases "sv_recovering sv")
  case (Cons p rest)
  obtain d r where p: "p = (d, r)"
    by (cases p)
  have r: "rt (sv_links sv) (wd_id d) = r"
    using assms(3) Cons p by simp
  have "exclusive r"
    using assms(2) inv_exclusive unfolding service_inv_def r [symmetric] by blast
  then have "fine (recover_one envs sha256 t (wd_id d) d r (ask_manager (sv_manager sv) readable) (sv_links sv))"
    using recover_one_fine [OF calm_links [OF assms(1)] r] by blast
  then show ?thesis
    using assms(1) by (simp add: recover_next_def Cons p calm_state_def calm_jobs_def with_links_def)
qed (use assms in \<open>simp add: recover_next_def\<close>)

lemma crash_calm: "calm_state sv \<Longrightarrow> calm_state (crash sv)"
  by (simp add: calm_state_def calm_jobs_def crash_def)

lemma recording_calm:
  "calm_state sv \<Longrightarrow> calm_state (recording_started rec sv)" "calm_state sv \<Longrightarrow> calm_state (recording_ended rid state sv)"
  by (auto simp: recording_started_def recording_ended_def calm_state_def calm_jobs_def split: option.splits)

lemma create_calm: "calm_state sv \<Longrightarrow> calm_state (create_step sha256 canonical env ad rq sv)"
  by (simp add: create_step_def create_watch_fine calm_links Let_def split: option.splits)

lemma service_step_calm:
  assumes "service_inv sv" "calm_state sv" "orderly sv ev"
  shows "calm_state (service_step sha256 canonical sv ev)"
proof -
  have parts: "parts sv"
    using assms(1) by (simp add: service_inv_def)
  show ?thesis
  proof (cases ev)
    case (Advance env w wid)
    then show ?thesis
      using assms advance_calm [OF assms(2) parts] by (simp split: option.splits)
  next
    case (Manual_check env wid)
    then show ?thesis
      using assms(2) enqueue_calm [OF assms(2), of wid] by (simp add: manual_check_def split: sum.splits prod.splits)
  next
    case (Recording_removed rid)
    then show ?thesis
      using assms(2) by (simp add: calm_state_def calm_jobs_def)
  next
    case Links_snapshot
    then show ?thesis
      using assms(2) by (simp add: calm_state_def calm_jobs_def)
  next
    case Close
    then show ?thesis
      using assms(2) by (simp add: calm_state_def calm_jobs_def)
  next
    case Run
    then show ?thesis
      using assms(2) by (simp add: run_service_def calm_state_def calm_jobs_def)
  next
    case Pause_checks
    then show ?thesis
      using assms(2) by (simp add: pause_checks_def calm_state_def calm_jobs_def)
  next
    case Resume_checks
    then show ?thesis
      using assms(2) by (simp add: resume_checks_def calm_state_def calm_jobs_def)
  qed (use assms calm_links [OF assms(2)] in \<open>simp_all add: schedule_calm take_calm create_calm links_next_calm links_save_calm
         crash_calm recover_next_calm recording_calm update_watch_fine set_enabled_fine delete_watch_fine notify_stopped_fine
         del: orderly.simps(2,3)\<close>)
qed

interpretation calm_runs: guarded_system "service_step sha256 canonical" calm_inv orderly for sha256 canonical
  by unfold_locales (simp add: calm_inv_def service_step_inv service_step_calm)

lemma empty_calm: "calm_inv empty_service"
  using empty_fine
  by (simp add: calm_inv_def empty_service_inv) (simp add: calm_state_def calm_jobs_def fine_def empty_service_def empty_store_def
      runtime_of_def has_def_def)

lemma calm_run:
  assumes "orderly_run sha256 canonical empty_service evs"
  shows "calm_inv (foldl (service_step sha256 canonical) empty_service evs)"
  using calm_runs.run_inv [OF empty_calm] assms by (simp add: orderly_run_def)

section \<open>Recordings that have ended\<close>

lemma calm_saves:
  assumes "fine c" "has_def c wid" "en_runtime_ok env" "valid_runtime r"
  shows "saves env wid r c"
  using assms fine_rt(3) by (simp add: saves_def)

lemma idle_valid [simp]: "valid_runtime (idle_runtime d t r) = valid_runtime r"
  by (simp add: idle_runtime_def valid_runtime_def)

text \<open>What reconcileOne writes for a recording that is gone.\<close>

lemma reconcile_gone:
  assumes "fine c" "has_def c wid" "en_runtime_ok env" "rt c wid = r" "wr_active r \<noteq> []" "wr_pending r = []" "gone answer"
  shows "\<exists>r0 delay. rt (reconcile_one env t wid d r answer c) wid = idle_runtime d (t + delay) r0 \<and>
    wr_active r0 = [] \<and> wr_pending r0 = [] \<and> 0 \<le> delay \<and> delay \<le> 300 * second"
proof (cases answer)
  case Missing
  define r0 where "r0 = r\<lparr>wr_active := []\<rparr>"
  have "valid_runtime r0"
    using fine_rt(1) [OF assms(1), of wid] assms(4) by (simp add: r0_def valid_runtime_def)
  then have "saves env wid (idle_runtime d t r0) (unlink env (wr_active r) c)"
    using assms(1-3) by (intro calm_saves) simp_all
  then have "rt (reconcile_one env t wid d r answer c) wid = idle_runtime d (t + 0) r0"
    by (simp add: reconcile_one_def Missing try_runtime_eq r0_def)
  moreover have "wr_active r0 = []" "wr_pending r0 = []" "0 \<le> 300 * second"
    using assms(6) by (simp_all add: r0_def second_def)
  ultimately show ?thesis
    by (metis order_refl)
next
  case (Found rec)
  define n where "n = (if rec_state rec = StateInterrupted then wr_failures r + 1 else wr_failures r)"
  define r0 where "r0 = r\<lparr>wr_active := [], wr_starting_at := None, wr_outcome := state_text (rec_state rec), wr_failures := n\<rparr>"
  define delay where "delay = (if rec_state rec = StateInterrupted then backoff_delay (en_jitter env) n else 0)"
  have "wr_failures r = 0"
    using fine_rt(2) [OF assms(1), of wid] assms(4,5) by (simp add: calm_def)
  then have "valid_runtime r0"
    using fine_rt(1) [OF assms(1), of wid] assms(4) by (simp add: r0_def n_def valid_runtime_def)
  moreover have written: "terminal_runtime env t d rec r = idle_runtime d (t + delay) r0"
    by (simp add: terminal_runtime_def Let_def n_def r0_def delay_def)
  ultimately have "saves env wid (terminal_runtime env t d rec r) c"
    using assms(1-3) by (intro calm_saves) simp_all
  moreover have "rec_state rec \<noteq> StateRecording"
    using assms(7) Found by (simp add: gone_def)
  ultimately have "rt (reconcile_one env t wid d r answer c) wid = idle_runtime d (t + delay) r0"
    by (simp add: reconcile_one_def Found mark_terminal_def Let_def try_runtime_eq written)
  moreover have "wr_active r0 = []" "wr_pending r0 = []" "0 \<le> delay" "delay \<le> 300 * second"
    using assms(6) backoff_delay_range by (simp_all add: r0_def delay_def second_def)
  ultimately show ?thesis
    by blast
qed (use assms in \<open>simp add: gone_def\<close>)

text \<open>C9: A recording that is gone does not hold its watch, in an orderly run.  Orderly means here that every write of
  reconcileOne up to and including this one finds the runtime unchanged since its caller read it, and the other
  premises of \<open>Watch_Runs\<close>; the code does not enforce this.  When reconcileLinks has then learnt that the active
  recording of an existing watch has ended or does not exist, and the write of the runtime succeeds, the watch has no
  recording and no pending start any more and, if it was enabled when it was read, is due for its next check after at
  most five minutes, whatever the recording's end was.\<close>

theorem ended_recording_is_released:
  assumes "orderly_run sha256 canonical empty_service (evs @ [Links_save env])"
    "sv = foldl (service_step sha256 canonical) empty_service evs" "sv_looked sv = Some (d, r, answer)" "gone answer"
    "has_key (ws_defs (wl_store (sv_links sv))) (wd_id d)" "en_runtime_ok env"
  shows "let r' = runtime_of (wl_store (sv_links (service_step sha256 canonical sv (Links_save env)))) (wd_id d)
    in wr_active r' = [] \<and> wr_pending r' = [] \<and>
       (wd_enabled d \<longrightarrow> (\<exists>next. wr_next_check r' = Some next \<and> en_now env \<le> next \<and> next \<le> en_now env + 300 * second \<and> due next d r'))"
proof -
  have run: "orderly_run sha256 canonical empty_service evs" and "orderly sv (Links_save env)"
    using assms(1,2) by (simp_all add: orderly_run_def del: orderly.simps)
  then have r: "rt (sv_links sv) (wd_id d) = r"
    using assms(3) by (simp add: undisturbed_def)
  have calm: "calm_state sv"
    using calm_run [OF run] assms(2) by (simp add: calm_inv_def)
  then have links: "wr_active r \<noteq> []" "wr_pending r = []"
    using assms(3) by (simp_all add: calm_state_def)
  have "has_def (sv_links sv) (wd_id d)"
    using assms(5) by (simp add: has_def_def del: not_None_eq)
  from reconcile_gone [OF calm_links [OF calm] this assms(6) r links assms(4), of "en_now env" d]
  obtain r0 delay where eq: "rt (reconcile_one env (en_now env) (wd_id d) d r answer (sv_links sv)) (wd_id d)
      = idle_runtime d (en_now env + delay) r0"
    and r0: "wr_active r0 = []" "wr_pending r0 = []" "0 \<le> delay" "delay \<le> 300 * second"
    by blast
  show ?thesis
    using r0 by (simp add: links_save_def assms(3) eq Let_def) (simp add: idle_runtime_def due_def)
qed

lemma ended_recording_is_released_witness:
  "\<exists>sv d r answer. sv = run_demo empty_service (demo_begin @ start_events 1 0 @
       [Recording_ended (demo_pid 0) StateInterrupted, Links_snapshot, Links_next (demo_env 2 None True) (\<lambda>_. True)]) \<and>
     sv_looked sv = Some (d, r, answer) \<and> wd_enabled d \<and> wr_active r = demo_pid 0 \<and>
     (let r' = runtime_of (wl_store (sv_links (service_step demo_sha Some sv (Links_save (demo_env 3 None True))))) (wd_id d)
      in wr_active r' = [] \<and> (\<exists>next. wr_next_check r' = Some next \<and> due next d r'))"
proof -
  define r where "r = recording_rt 1 0 (checking_runtime 0)"
  have active: "wr_active r = demo_pid 0" "wr_pending r = []"
    by (simp_all add: r_def recording_rt_def)
  define tail where "tail = [Recording_ended (demo_pid 0) StateInterrupted, Links_snapshot, Links_next (demo_env 2 None True) (\<lambda>_. True)]"
  define evs where "evs = demo_begin @ start_events 1 0 @ tail"
  obtain rels where first: "run_demo empty_service (demo_begin @ start_events 1 0)
      = demo_sv (demo_links r rels []) [] None [(demo_pid 0, demo_rec 0)] [(demo_wid, demo_pid 0)] [demo_pid 0, demo_wid]"
    using started_run unfolding r_def by blast
  define looked where "looked = (demo_def, r, Found ended_rec)"
  define sv where "sv = demo_sv (demo_links r rels []) [] (Some looked) [(demo_pid 0, ended_rec)] [(demo_wid, demo_pid 0)] [demo_pid 0, demo_wid]"
  have run: "sv = run_demo empty_service evs"
    using active first [unfolded foldl_append]
    by (simp add: evs_def sv_def tail_def recording_ended_def links_next_def ask_manager_def looked_def)
  have "orderly_run demo_sha Some empty_service (demo_begin @ start_events 1 0 @ tail)"
    using started_orderly first [unfolded foldl_append] by (simp add: orderly_run_def tail_def)
  then have "orderly_run demo_sha Some empty_service (evs @ [Links_save (demo_env 3 None True)])"
    using active unfolding evs_def [symmetric]
    by (simp add: orderly_run_def run [symmetric]) (simp add: sv_def looked_def undisturbed_def gone_def recording_in_def live_in_def)
  from ended_recording_is_released [OF this run, of demo_def r "Found ended_rec"]
  have "let r' = runtime_of (wl_store (sv_links (service_step demo_sha Some sv (Links_save (demo_env 3 None True))))) (wd_id demo_def)
      in wr_active r' = [] \<and> (\<exists>next. wr_next_check r' = Some next \<and> due next demo_def r')"
    by (auto simp: sv_def looked_def gone_def Let_def)
  moreover have "sv_looked sv = Some (demo_def, r, Found ended_rec)"
    by (simp add: sv_def looked_def)
  ultimately show ?thesis
    using run active unfolding evs_def tail_def by (metis def_simps(2))
qed

section \<open>Recordings that go on\<close>

lemma attached_valid: "valid_runtime r \<Longrightarrow> valid_runtime (active_runtime (wr_pending r) r)"
  by (auto simp: valid_runtime_def active_runtime_def)

lemma recover_one_attaches:
  assumes "fine c" "has_def c wid" "\<And>i. en_runtime_ok (envs i)" "rt c wid = r" "exclusive r" "linked r rid"
    "manager rid = Found rec" "rec_state rec = StateRecording"
    "\<And>rel. relation_of rid (wl_store c) = Inr rel \<Longrightarrow> rl_watch rel = wid"
  shows "let r' = rt (recover_one envs sha256 t wid d r manager c) wid
    in wr_active r' = rid \<and> wr_pending r' = [] \<and> wr_phase r' = Recording_now \<and> wr_next_check r' = None"
proof -
  have valid: "valid_runtime r"
    using fine_rt(1) [OF assms(1)] assms(4) by blast
  consider (active) "wr_active r = rid" "wr_pending r = []" "rid \<noteq> []" | (pending) "wr_active r = []" "wr_pending r = rid" "rid \<noteq> []"
    using assms(5,6) by (auto simp: exclusive_def linked_def)
  then show ?thesis
  proof cases
    case active
    have "saves (envs 0) wid (r\<lparr>wr_phase := Recording_now, wr_next_check := None\<rparr>) c"
      using valid assms(1-3) by (intro calm_saves) (simp_all add: valid_runtime_def)
    then show ?thesis
      using active assms(7,8) by (simp add: recover_one_def recover_active_def Let_def try_runtime_eq)
  next
    case pending
    obtain rel s where rel: "pending_relation (envs 1) wid r rec (wl_store c) = (rel, s)"
      by fastforce
    have own: "\<not> (case rel of None \<Rightarrow> False | Some x \<Rightarrow> rl_watch x \<noteq> wid)"
      using rel assms(9) pending
      by (auto simp: pending_relation_def start_relation_def Let_def split: sum.splits option.splits prod.splits)
    have first: "recover_active (envs 0) t wid d manager (r, c) = (False, r, c)"
      using pending by (simp add: recover_active_def)
    have second: "recover_pending (envs 1) t wid d manager (r, c) = (False, active_runtime rid r, c\<lparr>wl_store := s\<rparr>)"
      using pending own assms(7,8) by (simp add: recover_pending_def rel Let_def del: One_nat_def)
    have third: "rescheduled_runtime sha256 t wid d (active_runtime rid r) = active_runtime rid r"
      using pending by (simp add: rescheduled_runtime_def)
    have kept: "has_def (c\<lparr>wl_store := s\<rparr>) wid" "fine (c\<lparr>wl_store := s\<rparr>)"
      using pending_relation_links [OF rel] pending_relation_fine [OF rel] assms(1,2) by auto
    then have "saves (envs 2) wid (active_runtime rid r) (c\<lparr>wl_store := s\<rparr>)"
      using attached_valid [OF valid] pending assms(3) by (intro calm_saves) simp_all
    then have "rt (recover_one envs sha256 t wid d r manager c) wid = active_runtime rid r"
      by (simp add: recover_one_def first second third try_runtime_eq del: One_nat_def)
    then show ?thesis
      by (simp add: active_runtime_def Let_def)
  qed
qed



section \<open>A start that nobody can correlate\<close>

text \<open>C40: A claim without a recording id is not held for an operator: recovery reports the start as ambiguous, but
  since it leaves no next check the rescheduling at the end of the loop gives the watch one, so that the watch is
  due again after its startup stagger.\<close>
theorem ambiguous_start_is_checked_again:
  assumes "store_get True wid (wl_store c) = Inr (d, r, sec)" "wd_enabled d" "valid_runtime r"
    "wr_phase r = Starting" "wr_active r = []" "wr_pending r = []" "en_runtime_ok (envs 2)"
  shows "let r' = runtime_of (wl_store (recover_one envs sha256 t wid d r manager c)) wid
    in wr_phase r' = Attention_required \<and> wr_error_code r' = ''start_recovery_ambiguous'' \<and>
       due (t + startup_stagger sha256 wid (wd_interval d)) d r'"
proof -
  define r1 where "r1 = r\<lparr>wr_phase := Attention_required, wr_error_code := ''start_recovery_ambiguous'',
     wr_starting_at := None, wr_next_check := None\<rparr>"
  have "hex32 wid"
    using assms(1) by (simp add: store_get_def split: if_splits)
  moreover have "has_def c wid"
    using store_get_def_of [OF assms(1)] by (simp add: has_def_def)
  moreover have again: "rescheduled_runtime sha256 t wid d r1
      = r1\<lparr>wr_next_check := Some (t + startup_stagger sha256 wid (wd_interval d))\<rparr>"
    using assms(2,5) by (simp add: rescheduled_runtime_def r1_def)
  ultimately have "saves (envs 2) wid (rescheduled_runtime sha256 t wid d r1) c"
    using assms(3,7) by (simp add: saves_def r1_def valid_runtime_def)
  then have "rt (recover_one envs sha256 t wid d r manager c) wid = rescheduled_runtime sha256 t wid d r1"
    using assms(4-6) by (simp add: recover_one_def recover_active_def recover_pending_def r1_def try_runtime_eq)
  then show ?thesis
    using assms(2,5,6) by (simp add: again) (simp add: r1_def due_def)
qed

lemma ambiguous_start_is_checked_again_witness:
  "let r = (checking_runtime 0)\<lparr>wr_phase := Starting\<rparr>;
       r' = runtime_of (wl_store (recover_one (\<lambda>_. demo_env 2 None True) demo_sha 2 demo_wid demo_def r (\<lambda>_. Missing)
              (demo_links r [] []))) demo_wid
   in wr_phase r' = Attention_required \<and> due 2 demo_def r'"
  using ambiguous_start_is_checked_again [OF links_simps(1), of "(checking_runtime 0)\<lparr>wr_phase := Starting\<rparr>" "\<lambda>_. demo_env 2 None True"
      demo_sha 2 "\<lambda>_. Missing" "[]" "[]"]
  by (simp add: Let_def stagger_zero checking_runtime_def empty_runtime_def valid_runtime_def valid_digest_def)

end
