(* ===== verification/Spec2Isabelle.thy ===== *)
theory Spec2Isabelle
  imports Recorder_Runs Generation_Registry Recording_Owner Resource_Coordinator Hls_Playlist Record_Query Watch_Races Watch_Liveness
begin

text \<open>
  A verification development for Integrated Recorder, a Go service that watches live streams, records them as HLS
  segments and keeps the archive of what it captured.  File names below are under \<^verbatim>\<open>src/internal\<close>.

  \<^bold>\<open>The program.\<close>  The control plane holds the watches: for each one it asks an adapter whether the stream is live and
  starts a recording when it is (\<^verbatim>\<open>watch\<close>).  A recording is acquired by an Engine process: it polls the playlist
  (\<^verbatim>\<open>hls\<close>), accounts for every announced sequence and commits the fetched segments to the recording's document
  (\<^verbatim>\<open>acquire\<close>, \<^verbatim>\<open>domain\<close>).  The Runtime Host survives upgrades: it decides which Engine generation is active and
  which one owns which recording (\<^verbatim>\<open>runtimehost/generation\<close>), fences the writers of a recording by durable owner
  records (\<^verbatim>\<open>runtimehost/recordingowner\<close>) and shares memory, queue slots and the disk writer between the processes
  (\<^verbatim>\<open>runtimehost/resources\<close>).  The list of recordings is filtered, sorted and paginated by \<^verbatim>\<open>recordquery\<close>.

  \<^bold>\<open>Conventions.\<close>  \<open>Go_Prelude\<close> fixes the Go types: \<open>u64\<close> is a 64-bit word that wraps around, a map is an association
  list with distinct keys, an instant is a number of nanoseconds, a fallible result is a sum.  \<open>Go_Encoding\<close> has UTF-8
  and its repair, hexadecimal, base64url and decimal texts with their round trips, \<open>Go_Json\<close> the part of the JSON codec
  that flat records use, on bytes.  Everything the operating system, the network, a
  clock or a third-party package decides is an argument: a record of answers (\<open>commit_env\<close>, \<open>watch_env\<close>, \<open>hls_env\<close> and
  the like) or a function.  A mutex region is one function on the state; a run is a list of events or a step relation
  whose transitions interleave these regions in any order.  All definitions are total and terminate, so no fuel is used;
  the limits that appear (5000 watches, 50 events, 128 queued checks, and so on) are the constants of the code.

  \<^bold>\<open>Theories.\<close>

  \<^item> \<open>Domain_Model\<close>: the archive document of \<^verbatim>\<open>domain/models.go\<close>.
  \<^item> \<open>Gap_Ledger\<close>, \<open>Pending_Ledger\<close>, \<open>Playlist_Observer\<close>: the accounting of \<^verbatim>\<open>acquire/worker.go\<close>.  An announced
    sequence is captured, pending or covered by exactly one gap.  The lemmas give the effect of each ledger operation on
    these three sets, that gaps never overlap, and that an observation loses nothing and leaves nothing unaccounted.
  \<^item> \<open>Segment_Commit\<close>: \<^verbatim>\<open>persistSegment\<close> of \<^verbatim>\<open>acquire/segments.go\<close> and the archive ordinals.  \<open>commit_inv\<close>: the archive
    is sorted, without duplicates, and every epoch's first segment carries the discontinuity.  \<open>Recorder_Runs\<close> puts the
    operations on a recording together as the relation \<open>recorder_step\<close>, Manager.fail of \<^verbatim>\<open>acquire/manager.go\<close> included:
    it is the one step that withdraws an announced sequence from the ledger, and only after a failed storage commit.
  \<^item> \<open>Hls_Playlist\<close>: \<^verbatim>\<open>hls/parse.go\<close>.  One definition per tag; the lemmas show what an accepted playlist satisfies and
    what is refused.
  \<^item> \<open>Watch_Store\<close>: \<^verbatim>\<open>watch/store.go\<close>, the document of the watches with its limits and rollbacks.  \<open>Watch_Checks\<close>,
    \<open>Watch_Requests\<close>: the regions of \<^verbatim>\<open>watch/service.go\<close>, one definition each.  \<open>Watch_Service\<close>: their composition
    with the recording manager, as transitions.  \<open>Watch_Links\<close>: what every region does to the link between a watch and
    its recording.  \<open>Watch_Runs\<close>: the invariant of orderly runs.  \<open>Watch_Relations\<close>: every recording id belongs to
    one watch, and its stored relation says which.  \<open>Watch_Races\<close>: runs outside that premise in which the code starts
    two recordings.  \<open>Watch_Recovery\<close>, \<open>Watch_Liveness\<close>: delays, restarts, and that no link is lost or kept forever.
  \<^item> \<open>Generation_Registry\<close>: \<^verbatim>\<open>runtimehost/generation/registry.go\<close>.  Every operation is a mutation of a snapshot that is
    validated and written; the lemmas show that every run keeps an invariant under which the validation never fires
    after the operations' own checks (one case apart), that the state file can be opened again as long as the staged
    texts are UTF-8, and what activation, abort and reconciliation do exactly.
  \<^item> \<open>Recording_Owner\<close>: \<^verbatim>\<open>runtimehost/recordingowner/store.go\<close>.  Claims, transfers, commits and recoveries over a
    directory of files in which any write may fail or crash; a record is written and strictly read as JSON bytes, with
    the round trip; epochs never repeat and recovery is always possible.
  \<^item> \<open>Resource_Coordinator\<close>: \<^verbatim>\<open>runtimehost/resources/coordinator.go\<close>.  Limits, exact reclamation, no lost wake-up, and
    the ring buffer as a refinement of a time window.
  \<^item> \<open>Record_Query\<close>: \<^verbatim>\<open>recordquery/query.go\<close>.  The order is linear, cursors continue strictly after their item,
    and following them visits every match once.

  Interfaces are locales (\<open>guarded_system\<close> and the like: a step function with an invariant under a guard), interpreted
  on the model's own transitions where the component is defined.

  \<^bold>\<open>Assumptions.\<close>  A region reads the clock once.  In \<open>Watch_Runs\<close> a run is orderly when generated ids are new, when
  reconcileOne writes back a runtime that nobody changed since it was read, when recoverLinks finds the runtime of each
  watch as its snapshot has it, and when a failed or offline check does not meet a start of somebody else; the code
  enforces none of this, and \<open>Watch_Races\<close> shows for reconcileOne and for the failed check that it matters.
  Recovery after a restart handles one watch per transition.  The files of the watch store and of the generation registry
  are assumed to decode to what was encoded, up to the repair of UTF-8 in the registry's texts.  A write of the watch store
  that was renamed into place but whose directory sync failed counts as failed: the model leaves the old runtime for the
  next start, where the code may find the new one.  In \<open>Recorder_Runs\<close> a commit is for a segment that has a
  fresh ordinal and is not yet captured, as the scheduler's counter and its check on discovery arrange.
  Its runs are those of one process: the recovery of interrupted recordings in \<^verbatim>\<open>storage\<close> is not a step of them.

  \<^bold>\<open>Not modelled.\<close>  The scheduler of segment downloads and the acquisition manager except for Manager.fail (goroutines, timers
  and HTTP around the ledger above), the storage providers and their protocol, the adapter host and its wire format, the Engine process,
  the HTTP server and UI, preview, media tools, process supervision, updates, the plugin registry, installation,
  authentication, integrity and log files: they are mostly input and output, and what the modelled parts read of them is
  an argument.  SHA-256, time and float texts, case folding, URL resolution and the JSON codec of cursors are
  parameters; other JSON documents than the owner record are taken as decoded.  Loading the
  watch files at startup, the creation of directories and their permissions are left out.  \<^verbatim>\<open>PROJECT.json\<close> lists every
  part with its status.
\<close>

end
